(* ===== verification/Prelude.thy ===== *)
theory Prelude
  imports Main
begin

text \<open>
  Shared vocabulary of the development.

  A C++ member function is an action: it takes the object it works on and the log of the
  system calls made so far, and returns an outcome together with the new object and the new
  log.  The object and the log are returned on every path, since an exception leaves behind
  whatever the code had already done.  The outcome is \<open>Inr\<close> of the returned value or
  \<open>Inl\<close> of the reason why control did not come back normally.

  The second half holds the closure rules of the relations between before and after that
  component proofs are written with (\<open>keeps\<close>: an invariant of the object survives every
  path; \<open>emits\<close>: every new entry of the log lies in a given set), the laws of a member of
  an object, and reachability in a step relation with its invariant rule.
\<close>

named_theorems act_simps "unfolding rules of the action combinators"
named_theorems effects "closure rules for what an action may do to its object and log"

section \<open>Outcomes and actions\<close>

datatype exn =
    Runtime_error string
  | Invalid_argument string
  | Logic_error string
  | System_error int string
  | Bad_path string
  | Filesystem_error int string

text \<open>
  Why a call does not return: a C++ exception, a failed \<open>assert\<close> (the builds do not define
  \<open>NDEBUG\<close>, so it aborts the program), \<open>std::terminate\<close>, \<open>exit\<close>, a successful
  \<open>execvp\<close>, after which this program is no longer running, or a wait for another thread that
  the schedule at hand never ends.
\<close>

datatype stop =
    Raise exn
  | Assert_failed
  | Terminated
  | Exited int
  | Image_replaced
  | Blocked

type_synonym 'a outcome = "stop + 'a"
type_synonym ('s, 'c, 'a) act = "'s \<times> 'c list \<Rightarrow> 'a outcome \<times> 's \<times> 'c list"

definition ret :: "'a \<Rightarrow> ('s, 'c, 'a) act" where
  "ret x st = (Inr x, st)"

definition halt :: "stop \<Rightarrow> ('s, 'c, 'a) act" where
  "halt e st = (Inl e, st)"

definition raise :: "exn \<Rightarrow> ('s, 'c, 'a) act" where
  "raise e = halt (Raise e)"

definition assert_that :: "('s \<Rightarrow> bool) \<Rightarrow> ('s, 'c, unit) act" where
  "assert_that b st = (if b (fst st) then Inr () else Inl Assert_failed, st)"

definition act_bind :: "('s, 'c, 'a) act \<Rightarrow> ('a \<Rightarrow> ('s, 'c, 'b) act) \<Rightarrow> ('s, 'c, 'b) act" where
  "act_bind m f st = (case m st of (Inl e, st') \<Rightarrow> (Inl e, st') | (Inr x, st') \<Rightarrow> f x st')"

text \<open>A statement list: run in order, the first abnormal outcome ends it.\<close>

fun block :: "('s, 'c, unit) act list \<Rightarrow> ('s, 'c, unit) act" where
  "block [] st = (Inr (), st)"
| "block (a # as) st = (case a st of (Inl e, st') \<Rightarrow> (Inl e, st') | (Inr _, st') \<Rightarrow> block as st')"

definition discard :: "('s, 'c, 'a) act \<Rightarrow> ('s, 'c, unit) act" where
  "discard m = act_bind m (\<lambda>_. ret ())"

definition modify :: "('s \<Rightarrow> 's) \<Rightarrow> ('s, 'c, unit) act" where
  "modify f st = (Inr (), (f (fst st), snd st))"

definition reading :: "('s \<Rightarrow> 'a) \<Rightarrow> ('s, 'c, 'a) act" where
  "reading f st = (Inr (f (fst st)), st)"

definition branch :: "('s \<Rightarrow> bool) \<Rightarrow> ('s, 'c, 'a) act \<Rightarrow> ('s, 'c, 'a) act \<Rightarrow> ('s, 'c, 'a) act" where
  "branch b m n st = (if b (fst st) then m st else n st)"

definition emit :: "'c \<Rightarrow> ('s, 'c, unit) act" where
  "emit c st = (Inr (), (fst st, snd st @ [c]))"

text \<open>\<open>try m catch (e) h\<close>: only exceptions are caught, never an abort of the program.\<close>

definition catching :: "('s, 'c, 'a) act \<Rightarrow> (exn \<Rightarrow> ('s, 'c, 'a) act) \<Rightarrow> ('s, 'c, 'a) act" where
  "catching m h st = (case m st of (Inl (Raise e), st') \<Rightarrow> h e st' | (r, st') \<Rightarrow> (r, st'))"

text \<open>
  A function that must not throw (a destructor, \<open>noexcept\<close>, the body of a thread): an
  escaping exception ends the program through \<open>std::terminate\<close>.
\<close>

definition noexcept :: "('s, 'c, 'a) act \<Rightarrow> ('s, 'c, 'a) act" where
  "noexcept m = catching m (\<lambda>_. halt Terminated)"

text \<open>
  Stack unwinding: when \<open>m\<close> throws, \<open>cleanup\<close> destroys what has been built so far and the
  exception goes on.
\<close>

definition unwinding :: "('s, 'c, 'a) act \<Rightarrow> ('s, 'c, unit) act \<Rightarrow> ('s, 'c, 'a) act" where
  "unwinding m cleanup = catching m (\<lambda>e. act_bind cleanup (\<lambda>_. raise e))"

text \<open>A method called on a member of the object.\<close>

definition zoom :: "('s \<Rightarrow> 'v) \<Rightarrow> ('v \<Rightarrow> 's \<Rightarrow> 's) \<Rightarrow> ('v, 'c, 'a) act \<Rightarrow> ('s, 'c, 'a) act" where
  "zoom get put m st =
     (case m (get (fst st), snd st) of (r, (v, t)) \<Rightarrow> (r, (put v (fst st), t)))"

lemmas [act_simps] =
  ret_def halt_def raise_def assert_that_def act_bind_def discard_def modify_def reading_def
  branch_def emit_def catching_def noexcept_def zoom_def

lemma block_append:
  "block (as @ bs) st = act_bind (block as) (\<lambda>_. block bs) st"
  by (induction as arbitrary: st) (auto simp: act_simps split: prod.splits sum.splits)

section \<open>What an action may do on every path\<close>

text \<open>
  \<open>abides R m\<close>: whatever path \<open>m\<close> takes, the object and log it leaves are related by
  \<open>R\<close> to the ones it started from.  For a reflexive and transitive \<open>R\<close> this is closed under
  all control structure, which the locale proves once.  Its instances here are
  preservation of an object invariant (\<open>keeps\<close>) or of one of object and log together
  (\<open>maintains\<close>) and a bound on the calls an action adds to the log (\<open>emits\<close>);
  components add their own.
\<close>

definition abides :: "('s \<times> 'c list \<Rightarrow> 's \<times> 'c list \<Rightarrow> bool) \<Rightarrow> ('s, 'c, 'a) act \<Rightarrow> bool" where
  "abides R m \<longleftrightarrow> (\<forall>st. R st (snd (m st)))"

lemma abidesI: "(\<And>s t r s' t'. m (s, t) = (r, (s', t')) \<Longrightarrow> R (s, t) (s', t')) \<Longrightarrow> abides R m"
  unfolding abides_def by (metis prod.collapse)

lemma abidesD: "abides R m \<Longrightarrow> m st = (r, st') \<Longrightarrow> R st st'"
  unfolding abides_def by (metis snd_conv)

lemma abides_mono:
  "abides R m \<Longrightarrow> (\<And>st st'. R st st' \<Longrightarrow> Q st st') \<Longrightarrow> abides Q m"
  by (simp add: abides_def)

locale effect_rel =
  fixes R :: "'s \<times> 'c list \<Rightarrow> 's \<times> 'c list \<Rightarrow> bool"
  assumes refl: "R st st"
    and trans: "R st st' \<Longrightarrow> R st' st'' \<Longrightarrow> R st st''"
begin

lemma resp_pure [effects]:
  "abides R (ret x)" "abides R (halt e)" "abides R (raise x')"
  "abides R (assert_that b)" "abides R (reading f)"
  by (auto simp: abides_def act_simps refl)

lemma resp_bind [effects]:
  assumes m: "abides R m" and f: "\<And>x. abides R (f x)"
  shows "abides R (act_bind m f)"
proof (rule abidesI)
  fix s t r s' t'
  assume run: "act_bind m f (s, t) = (r, (s', t'))"
  obtain r1 st1 where m1: "m (s, t) = (r1, st1)" by (metis prod.collapse)
  then have R1: "R (s, t) st1" by (rule abidesD [OF m])
  show "R (s, t) (s', t')"
  proof (cases r1)
    case (Inl e)
    with run m1 R1 show ?thesis by (auto simp: act_bind_def)
  next
    case (Inr x)
    with run m1 have "f x st1 = (r, (s', t'))" by (simp add: act_bind_def)
    then show ?thesis by (rule trans [OF R1 abidesD [OF f]])
  qed
qed

lemma resp_discard [effects]: "abides R m \<Longrightarrow> abides R (discard m)"
  unfolding discard_def by (intro resp_bind resp_pure)

lemma resp_branch [effects]: "abides R m \<Longrightarrow> abides R n \<Longrightarrow> abides R (branch b m n)"
  by (auto simp: abides_def branch_def)

lemma resp_catching [effects]:
  assumes m: "abides R m" and h: "\<And>e. abides R (h e)"
  shows "abides R (catching m h)"
proof (rule abidesI)
  fix s t r s' t'
  assume run: "catching m h (s, t) = (r, (s', t'))"
  obtain r1 st1 where m1: "m (s, t) = (r1, st1)" by (metis prod.collapse)
  then have R1: "R (s, t) st1" by (rule abidesD [OF m])
  show "R (s, t) (s', t')"
  proof (cases "\<exists>e. r1 = Inl (Raise e)")
    case False
    with run m1 R1 show ?thesis by (auto simp: catching_def split: sum.splits stop.splits)
  next
    case True
    then obtain e where "r1 = Inl (Raise e)" ..
    with run m1 have "h e st1 = (r, (s', t'))" by (simp add: catching_def)
    then show ?thesis by (rule trans [OF R1 abidesD [OF h]])
  qed
qed

lemma resp_noexcept [effects]: "abides R m \<Longrightarrow> abides R (noexcept m)"
  unfolding noexcept_def by (intro resp_catching resp_pure)

lemma resp_block [effects]: "(\<And>a. a \<in> set as \<Longrightarrow> abides R a) \<Longrightarrow> abides R (block as)"
proof (induction as)
  case Nil
  then show ?case by (simp add: abides_def refl)
next
  case (Cons a as)
  then have "abides R (act_bind a (\<lambda>_. block as))"
    by (intro resp_bind) simp_all
  moreover have "block (a # as) = act_bind a (\<lambda>_. block as)"
    by (rule ext) (simp add: act_bind_def)
  ultimately show ?case by simp
qed

end

definition keeps_rel :: "('s \<Rightarrow> bool) \<Rightarrow> 's \<times> 'c list \<Rightarrow> 's \<times> 'c list \<Rightarrow> bool" where
  "keeps_rel I st st' \<longleftrightarrow> (I (fst st) \<longrightarrow> I (fst st'))"

definition emits_rel :: "'c set \<Rightarrow> 's \<times> 'c list \<Rightarrow> 's \<times> 'c list \<Rightarrow> bool" where
  "emits_rel C st st' \<longleftrightarrow> (\<exists>u. snd st' = snd st @ u \<and> set u \<subseteq> C)"

abbreviation keeps :: "('s \<Rightarrow> bool) \<Rightarrow> ('s, 'c, 'a) act \<Rightarrow> bool" where
  "keeps I \<equiv> abides (keeps_rel I)"

abbreviation emits :: "'c set \<Rightarrow> ('s, 'c, 'a) act \<Rightarrow> bool" where
  "emits C \<equiv> abides (emits_rel C)"

interpretation keeps: effect_rel "keeps_rel I" for I
  by unfold_locales (auto simp: keeps_rel_def)

lemma emits_rel_trans: "emits_rel C st st' \<Longrightarrow> emits_rel C st' st'' \<Longrightarrow> emits_rel C st st''"
  unfolding emits_rel_def by (metis append.assoc set_append Un_least)

interpretation emits: effect_rel "emits_rel C" for C
  by unfold_locales (simp add: emits_rel_def, rule emits_rel_trans)

definition maintains_rel :: "('s \<times> 'c list \<Rightarrow> bool) \<Rightarrow> 's \<times> 'c list \<Rightarrow> 's \<times> 'c list \<Rightarrow> bool" where
  "maintains_rel J st st' \<longleftrightarrow> (J st \<longrightarrow> J st')"

abbreviation maintains :: "('s \<times> 'c list \<Rightarrow> bool) \<Rightarrow> ('s, 'c, 'a) act \<Rightarrow> bool" where
  "maintains J \<equiv> abides (maintains_rel J)"

interpretation maintains: effect_rel "maintains_rel J" for J
  by unfold_locales (auto simp: maintains_rel_def)

lemma maintainsI:
  "(\<And>s t r s' t'. J (s, t) \<Longrightarrow> m (s, t) = (r, (s', t')) \<Longrightarrow> J (s', t')) \<Longrightarrow> maintains J m"
  by (rule abidesI) (auto simp: maintains_rel_def)

lemma maintainsD: "maintains J m \<Longrightarrow> m st = (r, st') \<Longrightarrow> J st \<Longrightarrow> J st'"
  by (drule (1) abidesD) (simp add: maintains_rel_def)

lemma keepsI: "(\<And>s t r s' t'. I s \<Longrightarrow> m (s, t) = (r, (s', t')) \<Longrightarrow> I s') \<Longrightarrow> keeps I m"
  by (rule abidesI) (auto simp: keeps_rel_def)

lemma keepsD: "keeps I m \<Longrightarrow> m (s, t) = (r, (s', t')) \<Longrightarrow> I s \<Longrightarrow> I s'"
  by (drule (1) abidesD) (simp add: keeps_rel_def)

lemma keeps_modify [effects]: "(\<And>s. I s \<Longrightarrow> I (f s)) \<Longrightarrow> keeps I (modify f)"
  and keeps_emit [effects]: "keeps I (emit c)"
  by (auto simp: abides_def keeps_rel_def act_simps)

lemma emitsD: "emits C m \<Longrightarrow> m (s, t) = (r, (s', t')) \<Longrightarrow> \<exists>u. t' = t @ u \<and> set u \<subseteq> C"
  by (drule (1) abidesD) (simp add: emits_rel_def)

lemma emits_mono: "emits C m \<Longrightarrow> C \<subseteq> D \<Longrightarrow> emits D m"
  by (erule abides_mono) (auto simp: emits_rel_def)

lemma emits_modify [effects]: "emits C (modify g)"
  by (auto simp: abides_def emits_rel_def act_simps)

lemma emits_emit [effects]: "c \<in> C \<Longrightarrow> emits C (emit c)"
  by (auto simp: abides_def emits_rel_def act_simps)

lemma emits_zoom [effects]: "emits C m \<Longrightarrow> emits C (zoom get put m)"
  by (rule abidesI) (auto simp: zoom_def emits_rel_def dest: emitsD split: prod.splits)

section \<open>Which outcomes an action can have\<close>

text \<open>
  \<open>outcomes E m\<close>: if \<open>m\<close> does not return, the reason lies in \<open>E\<close>.  \<open>outcomes {} m\<close> is
  ``always returns'', \<open>outcomes (range Raise) m\<close> is ``returns or throws, never aborts''.
\<close>

definition outcomes :: "stop set \<Rightarrow> ('s, 'c, 'a) act \<Rightarrow> bool" where
  "outcomes E m \<longleftrightarrow> (\<forall>st e. fst (m st) = Inl e \<longrightarrow> e \<in> E)"

lemma outcomesI: "(\<And>st e st'. m st = (Inl e, st') \<Longrightarrow> e \<in> E) \<Longrightarrow> outcomes E m"
  unfolding outcomes_def by (metis prod.collapse)

lemma outcomesD: "outcomes E m \<Longrightarrow> m st = (Inl e, st') \<Longrightarrow> e \<in> E"
  unfolding outcomes_def by (metis fst_conv)

lemma returnsD: "outcomes {} m \<Longrightarrow> \<exists>x st'. m st = (Inr x, st')"
  by (cases "m st"; cases "fst (m st)") (auto dest: outcomesD)

lemma returns_unitD: "outcomes {} (m :: ('s, 'c, unit) act) \<Longrightarrow> \<exists>s' t'. m st = (Inr (), (s', t'))"
  by (drule returnsD [of _ st]) auto

lemma outcomes_mono: "outcomes E m \<Longrightarrow> E \<subseteq> F \<Longrightarrow> outcomes F m"
  by (auto simp: outcomes_def)

lemma outcomes_pure [effects]:
  "outcomes E (ret x)" "outcomes E (reading f)" "outcomes E (modify g)" "outcomes E (emit c)"
  "e \<in> E \<Longrightarrow> outcomes E (halt e)" "Raise x' \<in> E \<Longrightarrow> outcomes E (raise x')"
  "Assert_failed \<in> E \<Longrightarrow> outcomes E (assert_that b)"
  by (auto simp: outcomes_def act_simps)

lemma outcomes_bind [effects]:
  "outcomes E m \<Longrightarrow> (\<And>x. outcomes E (f x)) \<Longrightarrow> outcomes E (act_bind m f)"
  by (rule outcomesI) (auto simp: act_bind_def dest: outcomesD split: prod.splits sum.splits)

lemma outcomes_discard [effects]: "outcomes E m \<Longrightarrow> outcomes E (discard m)"
  unfolding discard_def by (intro effects)

lemma outcomes_branch [effects]: "outcomes E m \<Longrightarrow> outcomes E n \<Longrightarrow> outcomes E (branch b m n)"
  by (auto simp: outcomes_def branch_def)

lemma outcomes_zoom [effects]: "outcomes E m \<Longrightarrow> outcomes E (zoom get put m)"
  by (rule outcomesI) (auto simp: zoom_def dest: outcomesD split: prod.splits)

lemma outcomes_block [effects]: "(\<And>a. a \<in> set as \<Longrightarrow> outcomes E a) \<Longrightarrow> outcomes E (block as)"
proof (induction as)
  case Nil
  then show ?case by (simp add: outcomes_def)
next
  case (Cons a as)
  then have "outcomes E a" and "outcomes E (block as)" by simp_all
  then show ?case by (intro outcomesI) (auto dest: outcomesD split: prod.splits sum.splits)
qed

lemma outcomes_catching [effects]:
  "outcomes (range Raise \<union> E) m \<Longrightarrow> (\<And>e. outcomes E (h e)) \<Longrightarrow> outcomes E (catching m h)"
  by (rule outcomesI)
    (auto simp: catching_def dest: outcomesD split: prod.splits sum.splits stop.splits)

lemma outcomes_noexcept [effects]:
  "outcomes (range Raise \<union> E) m \<Longrightarrow> Terminated \<in> E \<Longrightarrow> outcomes E (noexcept m)"
  unfolding noexcept_def by (intro effects)

section \<open>Members of an object\<close>

locale lens =
  fixes get :: "'s \<Rightarrow> 'v"
    and put :: "'v \<Rightarrow> 's \<Rightarrow> 's"
  assumes get_put: "get (put v s) = v"
    and put_get: "put (get s) s = s"
    and put_put: "put v (put w s) = put v s"
begin

lemma zoom_result: "zoom get put m (s, t) = (r, (s', t')) \<Longrightarrow> m (get s, t) = (r, (get s', t'))"
  by (auto simp: zoom_def get_put split: prod.splits)

lemma keeps_zoom: "keeps I m \<Longrightarrow> keeps (\<lambda>s. I (get s)) (zoom get put m)"
  by (rule keepsI) (auto dest: zoom_result keepsD)

lemma zoom_block: "zoom get put (block as) st = block (map (zoom get put) as) st"
proof (induction as arbitrary: st)
  case Nil
  then show ?case by (cases st) (simp add: zoom_def put_get)
next
  case (Cons a as)
  obtain s t where st: "st = (s, t)" by (cases st)
  obtain r v t1 where a: "a (get s, t) = (r, (v, t1))" by (metis prod.collapse)
  show ?case
  proof (cases r)
    case (Inl e)
    with a st show ?thesis by (simp add: zoom_def)
  next
    case (Inr x)
    with a st Cons.IH [of "(put v s, t1)"] show ?thesis
      by (simp add: zoom_def get_put put_put)
  qed
qed

end

text \<open>Two members of one object that do not overlap.\<close>

locale lens_pair =
  l1: lens get1 put1 + l2: lens get2 put2
  for get1 :: "'s \<Rightarrow> 'v" and put1 :: "'v \<Rightarrow> 's \<Rightarrow> 's"
    and get2 :: "'s \<Rightarrow> 'w" and put2 :: "'w \<Rightarrow> 's \<Rightarrow> 's" +
  assumes get2_put1: "get2 (put1 v s) = get2 s"
    and get1_put2: "get1 (put2 w s) = get1 s"
begin

lemma zoom_frame1: "zoom get1 put1 m (s, t) = (r, (s', t')) \<Longrightarrow> get2 s' = get2 s"
  by (auto simp: zoom_def get2_put1 split: prod.splits)

lemma zoom_frame2: "zoom get2 put2 m (s, t) = (r, (s', t')) \<Longrightarrow> get1 s' = get1 s"
  by (auto simp: zoom_def get1_put2 split: prod.splits)

end

section \<open>\<open>std::transform\<close>\<close>

text \<open>One element after the other, in order; the first that does not return normally ends it.\<close>

fun transform :: "('x \<Rightarrow> ('s, 'c, 'y) act) \<Rightarrow> 'x list \<Rightarrow> ('s, 'c, 'y list) act" where
  "transform f [] = ret []"
| "transform f (x # xs) = act_bind (f x) (\<lambda>y. act_bind (transform f xs) (\<lambda>ys. ret (y # ys)))"

lemma transform_all:
  "(\<And>x st. x \<in> set xs \<Longrightarrow> f x st = (Inr (g x), st)) \<Longrightarrow> transform f xs st = (Inr (map g xs), st)"
  by (induction xs arbitrary: st) (simp_all add: act_simps)

lemma transform_first_bad:
  "(\<And>x st. x \<in> set xs \<Longrightarrow> f x st = (Inr (g x), st)) \<Longrightarrow> f y st = (Inl e, st) \<Longrightarrow>
     transform f (xs @ y # ys) st = (Inl e, st)"
  by (induction xs) (simp_all add: act_simps)

text \<open>\<open>for (auto& e : v)\<close>: the elements of a vector are visited and changed in place.\<close>

fun each :: "('e, 'c, 'a) act \<Rightarrow> ('e list, 'c, 'a list) act" where
  "each m ([], t) = (Inr [], ([], t))"
| "each m (e # es, t) =
     (case m (e, t) of
        (Inl x, (e', t')) \<Rightarrow> (Inl x, (e' # es, t'))
      | (Inr y, (e', t')) \<Rightarrow>
          (case each m (es, t') of
             (Inl x, (es', t'')) \<Rightarrow> (Inl x, (e' # es', t''))
           | (Inr ys, (es', t'')) \<Rightarrow> (Inr (y # ys), (e' # es', t''))))"

lemma each_length: "each m (es, t) = (r, (es', t')) \<Longrightarrow> length es' = length es"
  by (induction m "(es, t)" arbitrary: es t r es' t' rule: each.induct)
    (auto split: prod.splits sum.splits)

lemma each_keeps: "keeps I m \<Longrightarrow> keeps (\<lambda>es. \<forall>e \<in> set es. I e) (each m)"
proof (rule keepsI)
  fix es t r es' t'
  assume m: "keeps I m" and "\<forall>e \<in> set es. I e" and "each m (es, t) = (r, (es', t'))"
  then show "\<forall>e \<in> set es'. I e"
  proof (induction es arbitrary: t r es' t')
    case Nil
    then show ?case by simp
  next
    case (Cons e es)
    then show ?case
      by (auto split: prod.splits sum.splits dest: keepsD [OF m])
  qed
qed

context effect_rel
begin

lemma resp_transform [effects]: "(\<And>x. x \<in> set xs \<Longrightarrow> abides R (f x)) \<Longrightarrow> abides R (transform f xs)"
  by (induction xs) (auto intro!: resp_pure resp_bind)

end

lemma outcomes_transform [effects]:
  "(\<And>x. x \<in> set xs \<Longrightarrow> outcomes E (f x)) \<Longrightarrow> outcomes E (transform f xs)"
  by (induction xs) (auto intro!: effects)

section \<open>Step relations\<close>

inductive reachable :: "('s \<Rightarrow> bool) \<Rightarrow> ('s \<Rightarrow> 's \<Rightarrow> bool) \<Rightarrow> 's \<Rightarrow> bool"
  for init :: "'s \<Rightarrow> bool" and step :: "'s \<Rightarrow> 's \<Rightarrow> bool" where
  reach_init: "init s \<Longrightarrow> reachable init step s"
| reach_step: "reachable init step s \<Longrightarrow> step s s' \<Longrightarrow> reachable init step s'"

text \<open>An inductive invariant holds in every reachable state.\<close>

locale invariant =
  fixes init :: "'s \<Rightarrow> bool"
    and step :: "'s \<Rightarrow> 's \<Rightarrow> bool"
    and inv :: "'s \<Rightarrow> bool"
  assumes inv_init: "init s \<Longrightarrow> inv s"
    and inv_step: "inv s \<Longrightarrow> step s s' \<Longrightarrow> inv s'"
begin

lemma reachable_inv: "reachable init step s \<Longrightarrow> inv s"
  by (induction rule: reachable.induct) (auto intro: inv_init inv_step)

end

lemma case_option_elim:
  "(case x of None \<Rightarrow> False | Some y \<Rightarrow> Q y) \<Longrightarrow> \<exists>y. x = Some y \<and> Q y"
  by (cases x) simp_all

section \<open>Counting threads\<close>

definition count_in :: "('a \<Rightarrow> bool) \<Rightarrow> 'a list \<Rightarrow> nat" where
  "count_in P xs = length (filter P xs)"

lemma count_in_update:
  "i < length xs \<Longrightarrow>
     count_in P (xs[i := y]) + (if P (xs ! i) then 1 else 0) =
     count_in P xs + (if P y then 1 else 0)"
proof (induction xs arbitrary: i)
  case Nil
  then show ?case by simp
next
  case (Cons x xs)
  show ?case
  proof (cases i)
    case 0
    then show ?thesis by (simp add: count_in_def)
  next
    case (Suc j)
    with Cons.prems Cons.IH [of j] show ?thesis by (auto simp: count_in_def)
  qed
qed

lemma count_in_pos: "i < length xs \<Longrightarrow> P (xs ! i) \<Longrightarrow> 0 < count_in P xs"
  by (auto simp: count_in_def filter_empty_conv)

lemma count_in_witness: "0 < count_in P xs \<Longrightarrow> \<exists>i < length xs. P (xs ! i)"
  by (metis count_in_def filter_False in_set_conv_nth length_greater_0_conv)

section \<open>One mutex, several threads\<close>

text \<open>
  \<open>L pc\<close> says that a thread at position \<open>pc\<close> is inside the critical section.  The recorded
  owner is then the one thread that is.
\<close>

definition mutex_ok :: "('pc \<Rightarrow> bool) \<Rightarrow> nat option \<Rightarrow> 'pc list \<Rightarrow> bool" where
  "mutex_ok L own ps \<longleftrightarrow>
     (\<forall>i < length ps. L (ps ! i) \<longleftrightarrow> own = Some i) \<and> (\<forall>i. own = Some i \<longrightarrow> i < length ps)"

lemma mutex_excl:
  "mutex_ok L own ps \<Longrightarrow> i < length ps \<Longrightarrow> j < length ps \<Longrightarrow> L (ps ! i) \<Longrightarrow> L (ps ! j) \<Longrightarrow> i = j"
  by (auto simp: mutex_ok_def)

lemma mutex_owner: "mutex_ok L (Some i) ps \<Longrightarrow> i < length ps \<and> L (ps ! i)"
  by (auto simp: mutex_ok_def)

lemma mutex_start: "(\<And>pc. pc \<in> set ps \<Longrightarrow> \<not> L pc) \<Longrightarrow> mutex_ok L None ps"
  by (auto simp: mutex_ok_def)

text \<open>Staying on one side of the boundary, entering a free section, or leaving one's own.\<close>

lemma mutex_move:
  "mutex_ok L own ps \<Longrightarrow> i < length ps \<Longrightarrow>
     (if L pc' then own' = Some i \<and> (L (ps ! i) \<or> own = None)
      else own' = (if L (ps ! i) then None else own)) \<Longrightarrow>
     mutex_ok L own' (ps[i := pc'])"
  by (auto simp: mutex_ok_def nth_list_update split: if_splits)

lemma mutex_inside: "mutex_ok L own ps \<Longrightarrow> i < length ps \<Longrightarrow> L (ps ! i) \<Longrightarrow> own = Some i"
  by (auto simp: mutex_ok_def)

lemma mutex_map: "(\<And>pc. L (f pc) = L pc) \<Longrightarrow> mutex_ok L own (map f ps) = mutex_ok L own ps"
  by (auto simp: mutex_ok_def)

end
