(* ===== verification/Platform.thy ===== *)
theory Platform
  imports Prelude "HOL-Library.Word"
begin

text \<open>
  What the program asks of its platform, and \<open>util/libc_wrapper\<close>.

  The kernel, the C library and Boost.Filesystem are not part of the repository.  They enter
  the model as one argument \<open>P\<close> of type \<open>platform\<close>: \<open>answer P log c\<close> is the
  reply to call \<open>c\<close> after the calls in \<open>log\<close>, so a reply may depend on everything
  done before, \<open>host\<close> is the system the build was made for (\<open>SConscript\<close> picks
  \<open>detail/linux\<close> or \<open>detail/mac\<close>), and the remaining fields are the macros and constants of
  the system headers the code names.  No property assumes anything about \<open>P\<close> beyond its stated hypotheses.

  Every call is recorded in the log of the action that makes it, so that properties can speak
  about which calls are made, with which arguments and in which order.
\<close>

type_synonym byte = "8 word"
type_synonym u64 = "64 word"

text \<open>The members of \<open>struct perf_event_attr\<close> the program sets; its flags are 1-bit fields.\<close>

record perf_event_attr =
  attr_type :: "32 word"
  attr_size :: "32 word"
  attr_config :: u64
  attr_read_format :: u64
  attr_disabled :: "1 word"
  attr_inherit :: "1 word"
  attr_exclude_user :: "1 word"
  attr_exclude_kernel :: "1 word"
  attr_exclude_hv :: "1 word"
  attr_enable_on_exec :: "1 word"

datatype syscall =
    Sys_pipe
  | Sys_pipe2 "32 word"
  | Sys_close int
  | Sys_read int nat
  | Sys_write int "byte list"
  | Sys_fcntl_getfd int
  | Sys_fcntl_setfd int "32 word"
  | Sys_fork
  | Sys_execvp string "string list"
  | Sys_waitpid int
  | Sys_getpid
  | Sys_setpgid int int
  | Sys_getpgid int
  | Sys_kill int int
  | Sys_sched_setaffinity int nat
  | Sys_perf_event_open perf_event_attr int
  | Fs_exists string
  | Sleep_for nat

text \<open>
  A reply: the return value, \<open>errno\<close> after the call, and what the call wrote through its
  pointer arguments (the two descriptors of a pipe, the bytes read, the wait status).
\<close>

record reply =
  rc :: int
  err :: int
  out_fds :: "int \<times> int"
  out_bytes :: "byte list"
  out_status :: int

datatype host_os = Linux | Mac

record platform =
  host :: host_os
  answer :: "syscall list \<Rightarrow> syscall \<Rightarrow> reply"
  wifexited :: "int \<Rightarrow> bool"
  wifsignaled :: "int \<Rightarrow> bool"
  show_path :: "string \<Rightarrow> string"
  sigkill :: int
  o_cloexec :: "32 word"
  fd_cloexec :: "32 word"
  load_u64 :: "byte list \<Rightarrow> u64"
  perf_type_hardware :: "32 word"
  perf_type_raw :: "32 word"
  perf_format_total_time_enabled :: u64
  perf_format_total_time_running :: u64
  perf_attr_sizeof :: "32 word"
  perf_count_hw_cpu_cycles :: u64
  perf_count_hw_instructions :: u64
  hardware_concurrency :: nat

type_synonym ('s, 'a) sys = "('s, syscall, 'a) act"

definition call :: "platform \<Rightarrow> syscall \<Rightarrow> ('s, reply) sys" where
  "call P c st = (Inr (answer P (snd st) c), (fst st, snd st @ [c]))"

declare call_def [act_simps]

lemma keeps_call [effects]: "keeps I (call P c)"
  by (auto simp: abides_def keeps_rel_def call_def)

lemma emits_call [effects]: "c \<in> C \<Longrightarrow> emits C (call P c)"
  by (auto simp: abides_def emits_rel_def call_def)

section \<open>\<open>util/libc_wrapper\<close>\<close>

definition libc_error_code :: "int \<Rightarrow> string \<Rightarrow> ('s, 'a) sys" where
  "libc_error_code error_code msg = raise (System_error error_code msg)"

text \<open>\<open>errno\<close> is the one left by the call \<open>r\<close> answers, the last call made.\<close>

definition libc_error :: "reply \<Rightarrow> string \<Rightarrow> ('s, 'a) sys" where
  "libc_error r msg = libc_error_code (err r) msg"

definition error_if_equal :: "reply \<Rightarrow> 'a \<Rightarrow> 'a \<Rightarrow> string \<Rightarrow> ('s, 'a) sys" where
  "error_if_equal r result error_result msg =
     (if result = error_result then libc_error r msg else ret result)"

definition error_if_not_equal :: "reply \<Rightarrow> 'a \<Rightarrow> 'a \<Rightarrow> string \<Rightarrow> ('s, 'a) sys" where
  "error_if_not_equal r result success_result msg =
     (if result \<noteq> success_result then libc_error r msg else ret result)"

lemmas [act_simps] =
  libc_error_code_def libc_error_def error_if_equal_def error_if_not_equal_def

text \<open>A call whose return value is checked at once, the way nearly every call of the code is.\<close>

definition call_ne :: "platform \<Rightarrow> syscall \<Rightarrow> int \<Rightarrow> string \<Rightarrow> ('s, reply) sys" where
  "call_ne P c bad msg =
     act_bind (call P c) (\<lambda>r. act_bind (error_if_equal r (rc r) bad msg) (\<lambda>_. ret r))"

definition call_eq :: "platform \<Rightarrow> syscall \<Rightarrow> int \<Rightarrow> string \<Rightarrow> ('s, reply) sys" where
  "call_eq P c good msg =
     act_bind (call P c) (\<lambda>r. act_bind (error_if_not_equal r (rc r) good msg) (\<lambda>_. ret r))"

lemma call_ne_run [act_simps]:
  "call_ne P c bad msg (s, t) =
     (if rc (answer P t c) = bad then Inl (Raise (System_error (err (answer P t c)) msg))
      else Inr (answer P t c), (s, t @ [c]))"
  by (simp add: call_ne_def act_simps)

lemma call_eq_run [act_simps]:
  "call_eq P c good msg (s, t) =
     (if rc (answer P t c) = good then Inr (answer P t c)
      else Inl (Raise (System_error (err (answer P t c)) msg)), (s, t @ [c]))"
  by (simp add: call_eq_def act_simps)

lemma keeps_call_checked [effects]: "keeps I (call_ne P c b m)" "keeps I (call_eq P c b m)"
  by (auto simp: abides_def keeps_rel_def act_simps)

lemma emits_call_checked [effects]:
  "c \<in> C \<Longrightarrow> emits C (call_ne P c b m)" "c \<in> C \<Longrightarrow> emits C (call_eq P c b m)"
  by (auto simp: abides_def emits_rel_def act_simps)

lemma outcomes_call [effects]:
  "outcomes E (call P c)"
  "range Raise \<subseteq> E \<Longrightarrow> outcomes E (call_ne P c b m)"
  "range Raise \<subseteq> E \<Longrightarrow> outcomes E (call_eq P c b m)"
  by (auto simp: outcomes_def act_simps split: if_splits)

text \<open>
  \<open>error_if_equal\<close> and \<open>error_if_not_equal\<close> split every result between them: exactly one of
  the two raises, it raises the system error carrying \<open>errno\<close>, and the other passes the
  result through.  Neither makes a call or touches the object.
\<close>

lemma error_wrappers_dual:
  "(error_if_equal r x y msg st = (Inr x, st) \<and>
      error_if_not_equal r x y msg st = (Inl (Raise (System_error (err r) msg)), st) \<and> x \<noteq> y) \<or>
   (error_if_not_equal r x y msg st = (Inr x, st) \<and>
      error_if_equal r x y msg st = (Inl (Raise (System_error (err r) msg)), st) \<and> x = y)"
  by (auto simp: act_simps)

section \<open>A platform on which every call succeeds\<close>

text \<open>Used to instantiate the parameter where a property is shown at a concrete input.\<close>

definition ok_reply :: reply where
  "ok_reply = \<lparr>rc = 0, err = 0, out_fds = (3, 4), out_bytes = [], out_status = 0\<rparr>"

definition good_platform :: platform where
  "good_platform =
     \<lparr>host = Linux, answer = (\<lambda>t c. case c of
          Sys_pipe \<Rightarrow> ok_reply\<lparr>out_fds := (2 * int (length t) + 3, 2 * int (length t) + 4)\<rparr>
        | Sys_pipe2 _ \<Rightarrow> ok_reply\<lparr>out_fds := (2 * int (length t) + 3, 2 * int (length t) + 4)\<rparr>
        | Sys_read _ n \<Rightarrow> ok_reply\<lparr>rc := int n, out_bytes := replicate n 0\<rparr>
        | Sys_write _ bs \<Rightarrow> ok_reply\<lparr>rc := int (length bs)\<rparr>
        | Sys_fork \<Rightarrow> ok_reply\<lparr>rc := 1000 + int (length t)\<rparr>
        | Sys_waitpid p \<Rightarrow> ok_reply\<lparr>rc := p\<rparr>
        | Sys_getpgid p \<Rightarrow> ok_reply\<lparr>rc := p\<rparr>
        | Sys_perf_event_open _ _ \<Rightarrow> ok_reply\<lparr>rc := 100 + int (length t)\<rparr>
        | Fs_exists _ \<Rightarrow> ok_reply\<lparr>rc := 1\<rparr>
        | _ \<Rightarrow> ok_reply),
      wifexited = (\<lambda>s. s mod 128 = 0), wifsignaled = (\<lambda>s. s mod 128 \<noteq> 0 \<and> s mod 128 \<noteq> 127),
      show_path = (\<lambda>p. CHR 0x22 # p @ [CHR 0x22]), sigkill = 9, o_cloexec = 524288, fd_cloexec = 1,
      load_u64 = (\<lambda>bs. foldr (\<lambda>b acc. ucast b + 256 * acc) bs 0),
      perf_type_hardware = 0, perf_type_raw = 4,
      perf_format_total_time_enabled = 1, perf_format_total_time_running = 2,
      perf_attr_sizeof = 112, perf_count_hw_cpu_cycles = 0, perf_count_hw_instructions = 1,
      hardware_concurrency = 4\<rparr>"

lemma ok_reply_simps [simp]:
  "rc ok_reply = 0" "err ok_reply = 0" "out_fds ok_reply = (3, 4)" "out_bytes ok_reply = []"
  "out_status ok_reply = 0"
  by (simp_all add: ok_reply_def)

lemma good_platform_answer [simp]:
  "answer good_platform t (Sys_close fd) = ok_reply"
  "answer good_platform t (Sys_read fd n) = ok_reply\<lparr>rc := int n, out_bytes := replicate n 0\<rparr>"
  "answer good_platform t (Sys_write fd bs) = ok_reply\<lparr>rc := int (length bs)\<rparr>"
  "answer good_platform t Sys_fork = ok_reply\<lparr>rc := 1000 + int (length t)\<rparr>"
  "answer good_platform t (Sys_waitpid p) = ok_reply\<lparr>rc := p\<rparr>"
  "answer good_platform t (Sys_getpgid p) = ok_reply\<lparr>rc := p\<rparr>"
  "answer good_platform t (Sys_kill p g) = ok_reply"
  "answer good_platform t (Sys_sched_setaffinity p cpu) = ok_reply"
  "answer good_platform t (Sys_perf_event_open a p) = ok_reply\<lparr>rc := 100 + int (length t)\<rparr>"
  "answer good_platform t (Fs_exists f) = ok_reply\<lparr>rc := 1\<rparr>"
  "answer good_platform t Sys_pipe =
     ok_reply\<lparr>out_fds := (2 * int (length t) + 3, 2 * int (length t) + 4)\<rparr>"
  "answer good_platform t (Sys_pipe2 fl) =
     ok_reply\<lparr>out_fds := (2 * int (length t) + 3, 2 * int (length t) + 4)\<rparr>"
  "answer good_platform t (Sleep_for n) = ok_reply"
  "host good_platform = Linux" "hardware_concurrency good_platform = 4"
  by (simp_all add: good_platform_def)

end
