(* ===== verification/Os.thy ===== *)
theory Os
  imports Platform
begin

text \<open>
  \<open>util/os\<close>, with the Linux and the OS X versions of \<open>pipe2\<close> and \<open>bind_process\<close>.
\<close>

unbundle bit_operations_syntax

definition pipe2_linux :: "platform \<Rightarrow> 32 word \<Rightarrow> ('s, int \<times> int) sys" where
  "pipe2_linux P flags =
     act_bind (call_eq P (Sys_pipe2 flags) 0 ''Error at pipe2'') (\<lambda>r. ret (out_fds r))"

text \<open>One turn of the loop over the two descriptors.\<close>

definition mac_set_flags :: "platform \<Rightarrow> 32 word \<Rightarrow> int \<Rightarrow> ('s, unit) sys" where
  "mac_set_flags P flags fd =
     act_bind (call_ne P (Sys_fcntl_getfd fd) (-1) ''Error getting flags'')
       (\<lambda>r. if flags AND NOT (o_cloexec P) \<noteq> 0
             then raise (Invalid_argument ''Flags not supported'')
             else let fcntl_flags = word_of_int (rc r) :: 32 word;
                      fcntl_flags' = (if flags AND o_cloexec P \<noteq> 0
                                      then fcntl_flags OR fd_cloexec P else fcntl_flags)
                  in discard (call_ne P (Sys_fcntl_setfd fd fcntl_flags') (-1)
                       ''Error settings flags''))"

definition pipe2_mac :: "platform \<Rightarrow> 32 word \<Rightarrow> ('s, int \<times> int) sys" where
  "pipe2_mac P flags =
     act_bind (call_eq P Sys_pipe 0 ''Error creating pipe'')
       (\<lambda>r. act_bind (block (map (mac_set_flags P flags) [fst (out_fds r), snd (out_fds r)]))
          (\<lambda>_. ret (out_fds r)))"

definition pipe2 :: "platform \<Rightarrow> 32 word \<Rightarrow> ('s, int \<times> int) sys" where
  "pipe2 P flags = (case host P of Linux \<Rightarrow> pipe2_linux P flags | Mac \<Rightarrow> pipe2_mac P flags)"

text \<open>On Linux the mask handed to \<open>sched_setaffinity\<close> holds exactly the given CPU.\<close>

definition bind_process_linux :: "platform \<Rightarrow> int \<Rightarrow> nat \<Rightarrow> ('s, unit) sys" where
  "bind_process_linux P pid cpu =
     discard (call_ne P (Sys_sched_setaffinity pid cpu) (-1) ''Error binding process to CPU'')"

definition bind_process_mac :: "int \<Rightarrow> nat \<Rightarrow> ('s, unit) sys" where
  "bind_process_mac pid cpu =
     raise (Logic_error ''bind_process() is not supported on this platform'')"

definition os_bind_process :: "platform \<Rightarrow> int \<Rightarrow> nat \<Rightarrow> ('s, unit) sys" where
  "os_bind_process P pid cpu =
     (case host P of Linux \<Rightarrow> bind_process_linux P pid cpu | Mac \<Rightarrow> bind_process_mac pid cpu)"

lemmas os_defs = pipe2_def pipe2_linux_def pipe2_mac_def mac_set_flags_def
  os_bind_process_def bind_process_linux_def bind_process_mac_def

lemma keeps_os [effects]: "keeps I (os_bind_process P pid cpu)"
  by (auto simp: os_defs intro!: effects split: host_os.split)

lemma emits_os [effects]:
  "Sys_sched_setaffinity pid cpu \<in> C \<Longrightarrow> emits C (os_bind_process P pid cpu)"
  by (auto simp: os_defs intro!: effects split: host_os.split)

text \<open>
  The OS X \<open>pipe2\<close> tests the flags only inside the loop, after the pipe exists and the first
  \<open>fcntl\<close> has succeeded.  A flag it does not support therefore costs two descriptors: the
  exception leaves them open and nobody knows their numbers.
\<close>

lemma pipe2_mac_bad_flags:
  assumes "flags AND NOT (o_cloexec P) \<noteq> 0"
    and "rc (answer P t Sys_pipe) = 0"
    and "out_fds (answer P t Sys_pipe) = (a, b)"
    and "rc (answer P (t @ [Sys_pipe]) (Sys_fcntl_getfd a)) \<noteq> -1"
  shows "pipe2_mac P flags (s, t) =
    (Inl (Raise (Invalid_argument ''Flags not supported'')), (s, t @ [Sys_pipe, Sys_fcntl_getfd a]))"
  using assms by (simp add: os_defs act_simps)

end
