(* ===== verification/Pipe.thy ===== *)
theory Pipe
  imports Os
begin

text \<open>
  \<open>class pipe\<close> of \<open>util/process\<close>: two descriptors, \<open>-1\<close> standing for a closed end,
  owned by the object and closed by its destructor.  Constructors, moves, the destructor and
  the four member functions; then descriptor ownership (each descriptor is closed exactly
  once over the life of the object, moves included) and the behaviour of closed ends.
\<close>

section \<open>State and operations\<close>

datatype end_point = READ_END | WRITE_END

record pipe =
  fd_read :: int
  fd_write :: int

definition closed_pipe :: pipe where
  "closed_pipe = \<lparr>fd_read = -1, fd_write = -1\<rparr>"

definition fd_of :: "pipe \<Rightarrow> end_point \<Rightarrow> int" where
  "fd_of p ep = (case ep of READ_END \<Rightarrow> fd_read p | WRITE_END \<Rightarrow> fd_write p)"

definition set_fd :: "end_point \<Rightarrow> int \<Rightarrow> pipe \<Rightarrow> pipe" where
  "set_fd ep v p = (case ep of READ_END \<Rightarrow> p\<lparr>fd_read := v\<rparr> | WRITE_END \<Rightarrow> p\<lparr>fd_write := v\<rparr>)"

definition is_open :: "pipe \<Rightarrow> end_point \<Rightarrow> bool" where
  "is_open p ep \<longleftrightarrow> fd_of p ep \<noteq> -1"

text \<open>The constructors start from the member initialiser, both ends \<open>-1\<close>.\<close>

definition pipe_new :: "platform \<Rightarrow> (pipe, unit) sys" where
  "pipe_new P =
     act_bind (call_eq P Sys_pipe 0 ''Error creating pipe'')
       (\<lambda>r. modify (\<lambda>p. \<lparr>fd_read = fst (out_fds r), fd_write = snd (out_fds r)\<rparr>))"

definition pipe_new_flags :: "platform \<Rightarrow> 32 word \<Rightarrow> (pipe, unit) sys" where
  "pipe_new_flags P flags =
     act_bind (pipe2 P flags) (\<lambda>fds. modify (\<lambda>p. \<lparr>fd_read = fst fds, fd_write = snd fds\<rparr>))"

definition pipe_close :: "platform \<Rightarrow> end_point \<Rightarrow> (pipe, unit) sys" where
  "pipe_close P ep st =
     (if \<not> is_open (fst st) ep then (Inr (), st)
      else block
        [discard (call_eq P (Sys_close (fd_of (fst st) ep)) 0 ''Error closing pipe''),
         modify (set_fd ep (-1))] st)"

definition pipe_read :: "platform \<Rightarrow> nat \<Rightarrow> (pipe, nat \<times> byte list) sys" where
  "pipe_read P nbyte st =
     (if \<not> is_open (fst st) READ_END then raise (Runtime_error ''Cannot read from closed pipe'') st
      else act_bind
        (call_ne P (Sys_read (fd_read (fst st)) nbyte) (-1) ''Error reading from pipe'')
        (\<lambda>r. ret (nat (rc r), out_bytes r)) st)"

definition pipe_write :: "platform \<Rightarrow> byte list \<Rightarrow> (pipe, nat) sys" where
  "pipe_write P buffer st =
     (if \<not> is_open (fst st) WRITE_END then raise (Runtime_error ''Cannot write to closed pipe'') st
      else act_bind
        (call_ne P (Sys_write (fd_write (fst st)) buffer) (-1) ''Error writing to pipe'')
        (\<lambda>r. ret (nat (rc r))) st)"

definition pipe_delete :: "platform \<Rightarrow> (pipe, unit) sys" where
  "pipe_delete P = noexcept (block [pipe_close P READ_END, pipe_close P WRITE_END])"

text \<open>Move construction: the new object and what is left of \<open>other\<close>.\<close>

definition pipe_move :: "pipe \<Rightarrow> pipe \<times> pipe" where
  "pipe_move other = (other, closed_pipe)"

text \<open>Move assignment, on the pair of the assigned object and the source.\<close>

definition pipe_move_assign :: "platform \<Rightarrow> (pipe \<times> pipe, unit) sys" where
  "pipe_move_assign P =
     block
       [zoom fst (\<lambda>v s. (v, snd s)) (pipe_close P READ_END),
        zoom fst (\<lambda>v s. (v, snd s)) (pipe_close P WRITE_END),
        modify (\<lambda>s. (snd s, closed_pipe))]"

lemmas pipe_defs = pipe_new_def pipe_new_flags_def pipe_close_def pipe_read_def pipe_write_def pipe_delete_def
  pipe_move_def pipe_move_assign_def

lemma fd_of_set_fd [simp]: "fd_of (set_fd ep v p) ep' = (if ep' = ep then v else fd_of p ep')"
  by (simp add: fd_of_def set_fd_def split: end_point.split)

lemma fd_of_simps [simp]: "fd_of p READ_END = fd_read p" "fd_of p WRITE_END = fd_write p"
  "fd_of closed_pipe ep = -1"
  by (simp_all add: fd_of_def closed_pipe_def split: end_point.split)

lemma set_fd_simps [simp]: "set_fd READ_END v p = p\<lparr>fd_read := v\<rparr>" "set_fd WRITE_END v p = p\<lparr>fd_write := v\<rparr>"
  by (simp_all add: set_fd_def)

section \<open>Descriptor ownership\<close>

text \<open>
  \<open>held\<close> counts how often a pipe object holds a descriptor, \<open>closes\<close> how often the log
  closes it.  When the kernel's \<open>close\<close> succeeds, every operation keeps the sum, for every
  descriptor: an end is reset to \<open>-1\<close> exactly when its descriptor is closed.  The relation
  is stated for any object with a holding count, so that objects made of pipes inherit it.
\<close>

definition held :: "pipe \<Rightarrow> int \<Rightarrow> nat" where
  "held p fd = (if fd_read p = fd then 1 else 0) + (if fd_write p = fd then 1 else 0)"

definition closes :: "syscall list \<Rightarrow> int \<Rightarrow> nat" where
  "closes t fd = count_list t (Sys_close fd)"

definition close_succeeds :: "platform \<Rightarrow> bool" where
  "close_succeeds P \<longleftrightarrow> (\<forall>t fd. rc (answer P t (Sys_close fd)) = 0)"

definition balanced_rel :: "('s \<Rightarrow> int \<Rightarrow> nat) \<Rightarrow> 's \<times> syscall list \<Rightarrow> 's \<times> syscall list \<Rightarrow> bool" where
  "balanced_rel h st st' \<longleftrightarrow>
     (\<forall>fd. fd \<noteq> -1 \<longrightarrow> h (fst st') fd + closes (snd st') fd = h (fst st) fd + closes (snd st) fd)"

abbreviation balanced :: "('s \<Rightarrow> int \<Rightarrow> nat) \<Rightarrow> ('s, 'a) sys \<Rightarrow> bool" where
  "balanced h \<equiv> abides (balanced_rel h)"

interpretation balanced: effect_rel "balanced_rel h" for h
  by unfold_locales (auto simp: balanced_rel_def)

lemma closes_append [simp]: "closes (t @ u) fd = closes t fd + closes u fd"
  by (simp add: closes_def)

lemma closes_simps [simp]:
  "closes [] fd = 0"
  "closes (c # t) fd = (if c = Sys_close fd then 1 else 0) + closes t fd"
  by (simp_all add: closes_def)

lemma balanced_pipe_close [effects]:
  "close_succeeds P \<Longrightarrow> balanced held (pipe_close P ep)"
  by (cases ep) (auto simp: abides_def balanced_rel_def pipe_close_def is_open_def held_def
      close_succeeds_def act_simps)

lemma balanced_pipe_read [effects]: "balanced held (pipe_read P n)"
  and balanced_pipe_write [effects]: "balanced held (pipe_write P bs)"
  by (auto simp: abides_def balanced_rel_def pipe_defs act_simps)

lemma balanced_pipe_delete [effects]: "close_succeeds P \<Longrightarrow> balanced held (pipe_delete P)"
  by (auto simp: pipe_delete_def intro!: effects)

text \<open>An object that holds the member's descriptors besides some the action cannot reach.\<close>

lemma balanced_zoom:
  assumes "balanced h m"
    and "\<And>s fd. h' s fd = h (get s) fd + k s fd"
    and "\<And>v s. k (put v s) = k s" and "\<And>v s. get (put v s) = v"
  shows "balanced h' (zoom get put m)"
proof (rule abidesI)
  fix s t r s' t'
  assume "zoom get put m (s, t) = (r, (s', t'))"
  then obtain v where "m (get s, t) = (r, (v, t'))" and s': "s' = put v s"
    by (auto simp: zoom_def split: prod.splits)
  from abidesD [OF assms(1) this(1)] show "balanced_rel h' (s, t) (s', t')"
    by (simp add: balanced_rel_def s' assms(2-4))
qed

text \<open>An action that never closes anything, on an object that holds nothing.\<close>

lemma balanced_no_close:
  assumes "emits (- range Sys_close) m"
  shows "balanced (\<lambda>_ _. 0) m"
proof (rule abidesI)
  fix s t r s' t'
  assume "m (s, t) = (r, (s', t'))"
  from emitsD [OF assms this] obtain u where "t' = t @ u" "set u \<subseteq> - range Sys_close" by blast
  then show "balanced_rel (\<lambda>_ _. 0) (s, t) (s', t')"
    by (auto simp: balanced_rel_def closes_def count_list_0_iff)
qed

lemma balanced_call [effects]:
  "c \<notin> range Sys_close \<Longrightarrow> balanced h (call P c)"
  "c \<notin> range Sys_close \<Longrightarrow> balanced h (call_ne P c b msg)"
  by (auto simp: abides_def balanced_rel_def act_simps)

text \<open>With a kernel whose \<open>close\<close> succeeds, the destructor returns and leaves nothing open.\<close>

lemma pipe_close_ok:
  "close_succeeds P \<Longrightarrow> \<exists>t'. pipe_close P ep (p, t) = (Inr (), (set_fd ep (-1) p, t'))"
  by (cases ep) (auto simp: pipe_close_def is_open_def close_succeeds_def act_simps)

lemma pipe_delete_ok:
  assumes "close_succeeds P"
  shows "\<exists>t'. pipe_delete P (p, t) = (Inr (), (closed_pipe, t'))"
proof -
  obtain t1 where 1: "pipe_close P READ_END (p, t) = (Inr (), (set_fd READ_END (-1) p, t1))"
    using pipe_close_ok [OF assms] by blast
  obtain t2 where 2: "pipe_close P WRITE_END (set_fd READ_END (-1) p, t1) =
      (Inr (), (set_fd WRITE_END (-1) (set_fd READ_END (-1) p), t2))"
    using pipe_close_ok [OF assms] by blast
  from 1 2 show ?thesis
    by (auto simp: pipe_delete_def closed_pipe_def act_simps)
qed

section \<open>Two pipe objects and a client\<close>

text \<open>
  A client that uses two pipe objects in any way the class allows, catching what they throw:
  any sequence of closes, reads and writes on either object and of move assignments between
  them, and at the end both destructors.
\<close>

datatype pipe_op =
    Op_close bool end_point
  | Op_read bool nat
  | Op_write bool "byte list"
  | Op_move_assign bool

definition on_first :: "(pipe, 'a) sys \<Rightarrow> (pipe \<times> pipe, 'a) sys" where
  "on_first = zoom fst (\<lambda>v s. (v, snd s))"

definition on_second :: "(pipe, 'a) sys \<Rightarrow> (pipe \<times> pipe, 'a) sys" where
  "on_second = zoom snd (\<lambda>v s. (fst s, v))"

definition on_pipe :: "bool \<Rightarrow> (pipe, 'a) sys \<Rightarrow> (pipe \<times> pipe, 'a) sys" where
  "on_pipe b m = (if b then on_first m else on_second m)"

definition swapped :: "(pipe \<times> pipe, 'a) sys \<Rightarrow> (pipe \<times> pipe, 'a) sys" where
  "swapped = zoom prod.swap (\<lambda>v _. prod.swap v)"

fun pipe_op_run :: "platform \<Rightarrow> pipe_op \<Rightarrow> (pipe \<times> pipe, unit) sys" where
  "pipe_op_run P (Op_close b ep) = on_pipe b (pipe_close P ep)"
| "pipe_op_run P (Op_read b n) = on_pipe b (discard (pipe_read P n))"
| "pipe_op_run P (Op_write b bs) = on_pipe b (discard (pipe_write P bs))"
| "pipe_op_run P (Op_move_assign b) =
     (if b then pipe_move_assign P else swapped (pipe_move_assign P))"

definition pipe_session :: "platform \<Rightarrow> pipe_op list \<Rightarrow> (pipe \<times> pipe, unit) sys" where
  "pipe_session P ops =
     block (map (\<lambda>op. catching (pipe_op_run P op) (\<lambda>_. ret ())) ops
       @ [on_second (pipe_delete P), on_first (pipe_delete P)])"

definition held2 :: "pipe \<times> pipe \<Rightarrow> int \<Rightarrow> nat" where
  "held2 s fd = held (fst s) fd + held (snd s) fd"

interpretation first_pipe: lens fst "\<lambda>v s. (v, snd s)"
  by unfold_locales simp_all

interpretation second_pipe: lens snd "\<lambda>v s. (fst s, v)"
  by unfold_locales simp_all

interpretation pipe_pair: lens_pair fst "\<lambda>v s. (v, snd s)" snd "\<lambda>v s. (fst s, v)"
  by unfold_locales simp_all

lemma balanced_on_first [effects]: "balanced held m \<Longrightarrow> balanced held2 (on_first m)"
  unfolding on_first_def
  by (rule balanced_zoom [where k = "\<lambda>s. held (snd s)"]) (simp_all add: held2_def)

lemma balanced_on_second [effects]: "balanced held m \<Longrightarrow> balanced held2 (on_second m)"
  unfolding on_second_def
  by (rule balanced_zoom [where k = "\<lambda>s. held (fst s)"]) (simp_all add: held2_def)

lemma balanced_swapped [effects]: "balanced held2 m \<Longrightarrow> balanced held2 (swapped m)"
  by (fastforce simp: balanced_rel_def swapped_def zoom_def held2_def
      split: prod.splits intro!: abidesI dest!: abidesD)

lemma pipe_move_assign_ok:
  assumes "close_succeeds P"
  shows "\<exists>t'. pipe_move_assign P ((p, q), t) = (Inr (), ((q, closed_pipe), t')) \<and>
    (\<forall>fd. fd \<noteq> -1 \<longrightarrow> closes t' fd = held p fd + closes t fd)"
proof -
  let ?p = "set_fd WRITE_END (-1) (set_fd READ_END (-1) p)"
  obtain t1 where 1: "pipe_close P READ_END (p, t) = (Inr (), (set_fd READ_END (-1) p, t1))"
    using pipe_close_ok [OF assms] by blast
  obtain t2 where 2: "pipe_close P WRITE_END (set_fd READ_END (-1) p, t1) = (Inr (), (?p, t2))"
    using pipe_close_ok [OF assms] by blast
  have "pipe_move_assign P ((p, q), t) = (Inr (), ((q, closed_pipe), t2))"
    using 1 2 by (simp add: pipe_move_assign_def zoom_def modify_def)
  moreover have "\<forall>fd. fd \<noteq> -1 \<longrightarrow> closes t2 fd = held p fd + closes t fd"
    using abidesD [OF balanced_pipe_close [OF assms] 1] abidesD [OF balanced_pipe_close [OF assms] 2]
    by (auto simp: balanced_rel_def held_def)
  ultimately show ?thesis by blast
qed

lemma balanced_move_assign [effects]:
  assumes "close_succeeds P"
  shows "balanced held2 (pipe_move_assign P)"
proof (rule abidesI)
  fix s t r s' t'
  assume run: "pipe_move_assign P (s, t) = (r, (s', t'))"
  obtain p q where s: "s = (p, q)" by (cases s)
  from pipe_move_assign_ok [OF assms, of p q t] run s
  have "s' = (q, closed_pipe)" "\<forall>fd. fd \<noteq> -1 \<longrightarrow> closes t' fd = held p fd + closes t fd" by auto
  then show "balanced_rel held2 (s, t) (s', t')"
    by (simp add: balanced_rel_def s held2_def held_def closed_pipe_def)
qed

lemma balanced_pipe_op [effects]: "close_succeeds P \<Longrightarrow> balanced held2 (pipe_op_run P op)"
  by (cases op) (auto simp: on_pipe_def intro!: effects)

lemma balanced_session: "close_succeeds P \<Longrightarrow> balanced held2 (pipe_session P ops)"
  by (auto simp: pipe_session_def intro!: effects)

lemma outcomes_pipe [effects]:
  "range Raise \<subseteq> E \<Longrightarrow> outcomes E (pipe_close P ep)"
  "range Raise \<subseteq> E \<Longrightarrow> outcomes E (pipe_read P n)"
  "range Raise \<subseteq> E \<Longrightarrow> outcomes E (pipe_write P bs)"
  by (auto simp: outcomes_def pipe_defs act_simps split: if_splits)

lemma outcomes_pipe_op: "outcomes (range Raise) (pipe_op_run P op)"
  by (cases op)
    (auto simp: on_pipe_def on_first_def on_second_def swapped_def pipe_move_assign_def
      intro!: effects)

lemma outcomes_pipe_delete [effects]: "close_succeeds P \<Longrightarrow> outcomes E (pipe_delete P)"
  by (rule outcomesI) (metis Inl_Inr_False pipe_delete_ok prod.collapse prod.inject)

lemma outcomes_session: "close_succeeds P \<Longrightarrow> outcomes {} (pipe_session P ops)"
  using outcomes_pipe_op
  by (auto simp: pipe_session_def on_first_def on_second_def intro!: effects)

lemma session_closes_all:
  assumes "close_succeeds P" and "pipe_session P ops ((p, q), t) = (r, (s', t'))"
  shows "r = Inr () \<and> s' = (closed_pipe, closed_pipe)"
proof -
  let ?body = "map (\<lambda>op. catching (pipe_op_run P op) (\<lambda>_. ret ())) ops"
  have "outcomes {} (block ?body)"
    using outcomes_pipe_op by (auto intro!: effects)
  from returns_unitD [OF this] obtain s1 t1 where "block ?body ((p, q), t) = (Inr (), (s1, t1))"
    by blast
  then obtain p1 q1 where 1: "block ?body ((p, q), t) = (Inr (), ((p1, q1), t1))"
    by (cases s1) simp
  obtain t2 where 2: "pipe_delete P (q1, t1) = (Inr (), (closed_pipe, t2))"
    using pipe_delete_ok [OF assms(1)] by blast
  obtain t3 where 3: "pipe_delete P (p1, t2) = (Inr (), (closed_pipe, t3))"
    using pipe_delete_ok [OF assms(1)] by blast
  from 1 2 3 assms(2) show ?thesis
    by (simp add: pipe_session_def block_append act_bind_def on_first_def on_second_def zoom_def)
qed

lemma emits_no_close_minus_one [effects]:
  "emits (- {Sys_close (-1)}) (pipe_close P ep)"
  "emits (- {Sys_close (-1)}) (pipe_read P n)"
  "emits (- {Sys_close (-1)}) (pipe_write P bs)"
  by (auto simp: abides_def emits_rel_def pipe_defs is_open_def act_simps)

lemma session_no_close_minus_one: "emits (- {Sys_close (-1)}) (pipe_session P ops)"
proof -
  have "emits (- {Sys_close (-1)}) (pipe_op_run P op)" for op
    by (cases op)
      (auto simp: on_pipe_def on_first_def on_second_def swapped_def pipe_move_assign_def
        intro!: effects)
  then show ?thesis
    by (auto simp: pipe_session_def on_first_def on_second_def pipe_delete_def intro!: effects)
qed

section \<open>Properties\<close>

text \<open>
  Each descriptor is closed exactly once.  Take two pipe objects that own four different
  open descriptors, let a client perform any sequence of closes, reads, writes and move
  assignments on them (catching what they throw), and destroy both.  The session comes to
  its end without an abort, and the log closes each of the four descriptors exactly once and
  nothing else, provided the kernel's \<open>close\<close> succeeds.
\<close>

theorem pipe_descriptors_closed_once:
  assumes "close_succeeds P"
    and "distinct [fd_read p, fd_write p, fd_read q, fd_write q]"
    and "-1 \<notin> {fd_read p, fd_write p, fd_read q, fd_write q}"
    and "pipe_session P ops ((p, q), []) = (r, (s', t'))"
  shows "r = Inr () \<and> (\<forall>fd. closes t' fd =
    (if fd \<in> {fd_read p, fd_write p, fd_read q, fd_write q} then 1 else 0))"
proof (intro conjI allI)
  have end_state: "r = Inr ()" "s' = (closed_pipe, closed_pipe)"
    using session_closes_all [OF assms(1,4)] by simp_all
  then show "r = Inr ()" by simp
  fix fd
  show "closes t' fd = (if fd \<in> {fd_read p, fd_write p, fd_read q, fd_write q} then 1 else 0)"
  proof (cases "fd = -1")
    case True
    from emitsD [OF session_no_close_minus_one assms(4)] have "Sys_close (-1) \<notin> set t'" by auto
    with True assms(3) show ?thesis by (simp add: closes_def count_list_0_iff)
  next
    case False
    with abidesD [OF balanced_session [OF assms(1)] assms(4)] end_state
    have "closes t' fd = held p fd + held q fd"
      by (simp add: balanced_rel_def held2_def held_def closed_pipe_def)
    with assms(2) show ?thesis by (auto simp: held_def)
  qed
qed

theorem pipe_descriptors_closed_once_witness:
  "let p = \<lparr>fd_read = 3, fd_write = 4\<rparr>; q = \<lparr>fd_read = 5, fd_write = 6\<rparr>;
       ops = [Op_close True READ_END, Op_write True [7], Op_move_assign False, Op_read True 2];
       t' = snd (snd (pipe_session good_platform ops ((p, q), [])))
   in closes t' 3 = 1 \<and> closes t' 4 = 1 \<and> closes t' 5 = 1 \<and> closes t' 6 = 1 \<and> closes t' 7 = 0"
proof -
  let ?p = "\<lparr>fd_read = 3, fd_write = 4\<rparr>" and ?q = "\<lparr>fd_read = 5, fd_write = 6\<rparr>"
  let ?ops = "[Op_close True READ_END, Op_write True [7], Op_move_assign False, Op_read True 2]"
  have ok: "close_succeeds good_platform"
    by (simp add: close_succeeds_def)
  obtain r s' t' where run: "pipe_session good_platform ?ops ((?p, ?q), []) = (r, (s', t'))"
    by (metis prod.collapse)
  show ?thesis
    using pipe_descriptors_closed_once [OF ok _ _ run] by (simp add: run Let_def)
qed


text \<open>
  A closed end is inert.  Reading from a pipe whose read end is closed, or writing to one
  whose write end is closed, throws the runtime error naming the operation, makes no system
  call and leaves the object as it was; closing an end that is closed returns and does
  nothing.
\<close>

theorem pipe_closed_end:
  "\<not> is_open p ep \<Longrightarrow>
     pipe_close P ep (p, t) = (Inr (), (p, t)) \<and>
     (ep = READ_END \<longrightarrow>
        pipe_read P n (p, t) = (Inl (Raise (Runtime_error ''Cannot read from closed pipe'')), (p, t))) \<and>
     (ep = WRITE_END \<longrightarrow>
        pipe_write P bs (p, t) = (Inl (Raise (Runtime_error ''Cannot write to closed pipe'')), (p, t)))"
  by (cases ep) (simp_all add: pipe_defs act_simps)

theorem pipe_closed_end_witness:
  "\<not> is_open closed_pipe READ_END \<and>
     pipe_read good_platform 1 (closed_pipe, []) =
       (Inl (Raise (Runtime_error ''Cannot read from closed pipe'')), (closed_pipe, []))"
proof -
  have h: "\<not> is_open closed_pipe READ_END" by (simp add: is_open_def closed_pipe_def)
  show ?thesis using h pipe_closed_end [OF h, of good_platform "[]" 1] by blast
qed

text \<open>
  A failed \<open>close\<close>.  When the kernel refuses to close an open end, \<open>close\<close> throws the
  system error with \<open>errno\<close>, the end still counts as open, and the destructor, which makes
  the same call again, ends the program when that fails too.
\<close>

theorem pipe_close_failure:
  assumes "is_open p READ_END"
    and "\<And>u. rc (answer P u (Sys_close (fd_read p))) \<noteq> 0"
  shows "pipe_close P READ_END (p, t) =
      (Inl (Raise (System_error (err (answer P t (Sys_close (fd_read p)))) ''Error closing pipe'')),
       (p, t @ [Sys_close (fd_read p)])) \<and>
    pipe_delete P (p, t) = (Inl Terminated, (p, t @ [Sys_close (fd_read p)]))"
  using assms by (simp_all add: pipe_defs act_simps)

theorem pipe_close_failure_witness:
  "let P = good_platform\<lparr>answer := (\<lambda>_ _. ok_reply\<lparr>rc := -1, err := 9\<rparr>)\<rparr>;
       p = \<lparr>fd_read = 3, fd_write = 4\<rparr>
   in is_open p READ_END \<and> (\<forall>u. rc (answer P u (Sys_close (fd_read p))) \<noteq> 0) \<and>
      pipe_delete P (p, []) = (Inl Terminated, (p, [Sys_close 3]))"
proof -
  let ?P = "good_platform\<lparr>answer := (\<lambda>_ _. ok_reply\<lparr>rc := -1, err := 9\<rparr>)\<rparr>"
  let ?p = "\<lparr>fd_read = 3, fd_write = 4\<rparr>"
  have h: "is_open ?p READ_END" "\<And>u. rc (answer ?P u (Sys_close (fd_read ?p))) \<noteq> 0"
    by (simp_all add: is_open_def)
  show ?thesis using h pipe_close_failure [OF h, of "[]"] by (simp add: Let_def)
qed

end
