(* ===== verification/Process.thy ===== *)
theory Process
  imports Os
begin

text \<open>
  \<open>util/kill\<close>, \<open>class process_config\<close>, \<open>class process\<close> and \<open>kill_process\<close> of
  \<open>util/process\<close>.  The callbacks of a configuration are closures over some enclosing object
  of type \<open>'s\<close>; \<open>process::start\<close>, which calls them, is therefore an action on that object
  and finds its own process in it through a pair \<open>get\<close>, \<open>put\<close>.
\<close>

section \<open>\<open>util/kill\<close>\<close>

definition util_kill :: "platform \<Rightarrow> int \<Rightarrow> ('s, unit) sys" where
  "util_kill P pid = discard (call_ne P (Sys_kill pid (sigkill P)) (-1) ''Error killing a process'')"

definition util_kill_group :: "platform \<Rightarrow> int \<Rightarrow> ('s, unit) sys" where
  "util_kill_group P pid =
     act_bind (call_ne P (Sys_getpgid pid) (-1) ''Error getting the group id'')
       (\<lambda>r. discard (call_ne P (Sys_kill (- rc r) (sigkill P)) (-1) ''Error killing a process group''))"

section \<open>\<open>process_config\<close>\<close>

record 's process_config =
  fork_setup_callback :: "('s, unit) sys option"
  exec_setup_callback :: "('s, unit) sys option"
  fork_success_callback :: "('s, unit) sys option"
  fork_error_callback :: "(int \<Rightarrow> ('s, unit) sys) option"
  exec_error_callback :: "(int \<Rightarrow> ('s, unit) sys) option"

definition default_config :: "'s process_config" where
  "default_config = \<lparr>fork_setup_callback = None, exec_setup_callback = None,
     fork_success_callback = None, fork_error_callback = None, exec_error_callback = None\<rparr>"

definition fork_setup :: "'s process_config \<Rightarrow> ('s, unit) sys" where
  "fork_setup c = (case fork_setup_callback c of None \<Rightarrow> ret () | Some f \<Rightarrow> f)"

definition exec_setup :: "'s process_config \<Rightarrow> ('s, unit) sys" where
  "exec_setup c = (case exec_setup_callback c of None \<Rightarrow> ret () | Some f \<Rightarrow> f)"

definition fork_success :: "'s process_config \<Rightarrow> ('s, unit) sys" where
  "fork_success c = (case fork_success_callback c of None \<Rightarrow> ret () | Some f \<Rightarrow> f)"

definition fork_error :: "'s process_config \<Rightarrow> int \<Rightarrow> ('s, unit) sys" where
  "fork_error c error_code = (case fork_error_callback c of None \<Rightarrow> ret () | Some f \<Rightarrow> f error_code)"

definition exec_error :: "'s process_config \<Rightarrow> int \<Rightarrow> ('s, unit) sys" where
  "exec_error c error_code = (case exec_error_callback c of None \<Rightarrow> ret () | Some f \<Rightarrow> f error_code)"

text \<open>The setters; an empty \<open>std::function\<close> is \<open>None\<close>.\<close>

definition set_fork_setup :: "('s, unit) sys option \<Rightarrow> 's process_config \<Rightarrow> 's process_config" where
  "set_fork_setup func c = c\<lparr>fork_setup_callback := func\<rparr>"

definition set_exec_setup :: "('s, unit) sys option \<Rightarrow> 's process_config \<Rightarrow> 's process_config" where
  "set_exec_setup func c = c\<lparr>exec_setup_callback := func\<rparr>"

definition set_fork_success :: "('s, unit) sys option \<Rightarrow> 's process_config \<Rightarrow> 's process_config" where
  "set_fork_success func c = c\<lparr>fork_success_callback := func\<rparr>"

definition set_fork_error ::
    "(int \<Rightarrow> ('s, unit) sys) option \<Rightarrow> 's process_config \<Rightarrow> 's process_config" where
  "set_fork_error func c = c\<lparr>fork_error_callback := func\<rparr>"

definition set_exec_error ::
    "(int \<Rightarrow> ('s, unit) sys) option \<Rightarrow> 's process_config \<Rightarrow> 's process_config" where
  "set_exec_error func c = c\<lparr>exec_error_callback := func\<rparr>"

lemmas config_defs = default_config_def fork_setup_def exec_setup_def fork_success_def
  fork_error_def exec_error_def set_fork_setup_def set_exec_setup_def set_fork_success_def
  set_fork_error_def set_exec_error_def

section \<open>\<open>process\<close>\<close>

record process =
  proc_args :: "string list"
  proc_pid :: int
  proc_status :: int
  proc_terminated :: bool

definition started :: "process \<Rightarrow> bool" where
  "started p \<longleftrightarrow> proc_pid p \<noteq> -1"

definition terminated :: "process \<Rightarrow> bool" where
  "terminated p = proc_terminated p"

text \<open>The constructor writes every member but \<open>termination_status_\<close>, which has no initialiser.\<close>

definition process_new :: "string list \<Rightarrow> (process, unit) sys" where
  "process_new args =
     block
       [modify (\<lambda>p. p\<lparr>proc_args := args, proc_pid := -1, proc_terminated := False\<rparr>),
        branch (\<lambda>p. proc_args p = []) (raise (Invalid_argument ''Argument list is empty'')) (ret ())]"

text \<open>\<open>fs::exists\<close> says yes or no, or throws when it cannot tell (a negative reply).\<close>

definition check_path :: "platform \<Rightarrow> string \<Rightarrow> ('s, unit) sys" where
  "check_path P path =
     act_bind (call P (Fs_exists path))
       (\<lambda>r. if rc r = 0
            then raise (Invalid_argument (''Path '' @ show_path P path @ '' does not exist''))
            else if rc r < 0 then raise (Filesystem_error (err r) path)
            else ret ())"

text \<open>The child's side of \<open>start\<close>: never returns normally.\<close>

definition start_child :: "platform \<Rightarrow> 's process_config \<Rightarrow> string list \<Rightarrow> ('s, unit) sys" where
  "start_child P cfg args =
     block
       [exec_setup cfg,
        act_bind (call P (Sys_execvp (hd args) args))
          (\<lambda>r. if rc r \<noteq> -1 then halt Image_replaced
               else block [exec_error cfg (err r), halt (Exited 1)])]"

definition start_parent ::
    "'s process_config \<Rightarrow> ('s \<Rightarrow> process) \<Rightarrow> (process \<Rightarrow> 's \<Rightarrow> 's) \<Rightarrow> int \<Rightarrow> ('s, unit) sys" where
  "start_parent cfg get put pid =
     block [zoom get put (modify (\<lambda>p. p\<lparr>proc_pid := pid\<rparr>)), fork_success cfg]"

definition process_start ::
    "platform \<Rightarrow> 's process_config \<Rightarrow> ('s \<Rightarrow> process) \<Rightarrow> (process \<Rightarrow> 's \<Rightarrow> 's) \<Rightarrow> ('s, unit) sys" where
  "process_start P cfg get put =
     act_bind (reading (\<lambda>s. proc_args (get s))) (\<lambda>args.
       block
         [assert_that (\<lambda>s. \<not> started (get s)),
          check_path P (hd args),
          fork_setup cfg,
          act_bind (call P Sys_fork) (\<lambda>r.
            if rc r = -1 then fork_error cfg (err r)
            else if rc r = 0 then start_child P cfg args
            else start_parent cfg get put (rc r))])"

definition process_wait :: "platform \<Rightarrow> (process, unit) sys" where
  "process_wait P =
     block
       [assert_that started,
        assert_that (\<lambda>p. \<not> terminated p),
        act_bind (reading proc_pid) (\<lambda>pid.
          act_bind (call_ne P (Sys_waitpid pid) (-1) ''Error waiting for process'')
            (\<lambda>r. modify (\<lambda>p. p\<lparr>proc_status := out_status r\<rparr>))),
        modify (\<lambda>p. if wifexited P (proc_status p) \<or> wifsignaled P (proc_status p)
                    then p\<lparr>proc_terminated := True\<rparr> else p)]"

definition get_pid :: "(process, int) sys" where
  "get_pid = act_bind (assert_that started) (\<lambda>_. reading proc_pid)"

definition termination_status :: "(process, int) sys" where
  "termination_status = act_bind (assert_that started) (\<lambda>_. reading proc_status)"

text \<open>\<open>enum class kill_mode\<close>; a cast can give it any other value.\<close>

datatype kill_mode = PROC | TREE | Other_mode int

text \<open>\<open>kill_process\<close> is a template over any class with \<open>started\<close>, \<open>terminated\<close> and \<open>pid\<close>.\<close>

definition kill_process ::
    "platform \<Rightarrow> ('s \<Rightarrow> bool) \<Rightarrow> ('s \<Rightarrow> bool) \<Rightarrow> ('s, int) sys \<Rightarrow> kill_mode \<Rightarrow> ('s, unit) sys" where
  "kill_process P is_started is_terminated pid mode =
     block
       [assert_that is_started,
        branch is_terminated (ret ())
          (case mode of
             PROC \<Rightarrow> act_bind pid (util_kill P)
           | TREE \<Rightarrow> act_bind pid (util_kill_group P)
           | Other_mode _ \<Rightarrow> halt Assert_failed)]"

definition process_delete :: "platform \<Rightarrow> (process, unit) sys" where
  "process_delete P =
     branch (\<lambda>p. \<not> started p \<or> terminated p) (ret ())
       (catching (block [kill_process P started terminated get_pid PROC, process_wait P])
          (\<lambda>_. ret ()))"

text \<open>
  The defaulted moves, which construct or assign the first object from the second: the vector of
  arguments is taken out of the source, the other members are copied.  The process of the assigned
  object is forgotten.
\<close>

definition process_move :: "process \<Rightarrow> process \<times> process" where
  "process_move other = (other, other\<lparr>proc_args := []\<rparr>)"

definition process_move_assign :: "(process \<times> process, unit) sys" where
  "process_move_assign = modify (\<lambda>s. process_move (snd s))"

lemmas process_defs = util_kill_def util_kill_group_def process_new_def check_path_def
  start_child_def start_parent_def process_start_def process_wait_def get_pid_def
  termination_status_def kill_process_def process_delete_def started_def terminated_def

lemma process_delete_returns [effects]: "outcomes E (process_delete P)"
  by (auto simp: outcomes_def process_defs act_simps split: if_splits)

section \<open>Sessions of one process object\<close>

text \<open>
  What a client can do with a process object before it is destroyed; exceptions are caught by
  the client, a failed \<open>assert\<close> ends the program.
\<close>

datatype process_op = Op_start | Op_wait | Op_kill kill_mode

fun process_op_run :: "platform \<Rightarrow> process_op \<Rightarrow> (process, unit) sys" where
  "process_op_run P Op_start = process_start P default_config id (\<lambda>v _. v)"
| "process_op_run P Op_wait = process_wait P"
| "process_op_run P (Op_kill mode) = kill_process P started terminated get_pid mode"

definition process_session :: "platform \<Rightarrow> process_op list \<Rightarrow> (process, unit) sys" where
  "process_session P ops =
     block (map (\<lambda>op. catching (process_op_run P op) (\<lambda>_. ret ())) ops @ [process_delete P])"

text \<open>A wait made after the calls \<open>t\<close> that reports a process exited or killed by a signal.\<close>

definition reaps :: "platform \<Rightarrow> syscall list \<Rightarrow> syscall \<Rightarrow> bool" where
  "reaps P t c = (case c of
      Sys_waitpid pid \<Rightarrow> (let r = answer P t (Sys_waitpid pid)
        in rc r \<noteq> -1 \<and> (wifexited P (out_status r) \<or> wifsignaled P (out_status r)))
    | _ \<Rightarrow> False)"

definition is_kill :: "syscall \<Rightarrow> bool" where
  "is_kill c = (case c of Sys_kill _ _ \<Rightarrow> True | _ \<Rightarrow> False)"

definition reaped :: "platform \<Rightarrow> syscall list \<Rightarrow> bool" where
  "reaped P t \<longleftrightarrow> (\<exists>i < length t. reaps P (take i t) (t ! i))"

definition kills_only_living :: "platform \<Rightarrow> syscall list \<Rightarrow> bool" where
  "kills_only_living P t \<longleftrightarrow> (\<forall>j < length t. is_kill (t ! j) \<longrightarrow> \<not> reaped P (take j t))"

lemma reaped_snoc [simp]: "reaped P (t @ [c]) \<longleftrightarrow> reaped P t \<or> reaps P t c"
  by (auto simp: reaped_def Ex_less_Suc nth_append)

lemma kills_only_living_snoc [simp]:
  "kills_only_living P (t @ [c]) \<longleftrightarrow> kills_only_living P t \<and> (is_kill c \<longrightarrow> \<not> reaped P t)"
  by (auto simp: kills_only_living_def All_less_Suc nth_append)

lemma is_kill_simps [simp]:
  "is_kill (Sys_kill p g)" "\<not> is_kill (Sys_waitpid p)" "\<not> is_kill (Sys_getpgid p)"
  "\<not> is_kill (Fs_exists f)" "\<not> is_kill Sys_fork" "\<not> is_kill (Sys_execvp f as)"
  by (simp_all add: is_kill_def)

lemma reaps_simps [simp]:
  "\<not> reaps P t (Sys_kill p g)" "\<not> reaps P t (Sys_getpgid p)"
  "\<not> reaps P t (Fs_exists f)" "\<not> reaps P t Sys_fork" "\<not> reaps P t (Sys_execvp f as)"
  "reaps P t (Sys_waitpid p) = (rc (answer P t (Sys_waitpid p)) \<noteq> -1 \<and>
     (wifexited P (out_status (answer P t (Sys_waitpid p))) \<or>
      wifsignaled P (out_status (answer P t (Sys_waitpid p)))))"
  by (simp_all add: reaps_def Let_def)

definition reap_inv :: "platform \<Rightarrow> process \<times> syscall list \<Rightarrow> bool" where
  "reap_inv P st \<longleftrightarrow>
     (reaped P (snd st) \<longrightarrow> terminated (fst st)) \<and> kills_only_living P (snd st)"

lemma reap_inv_start: "maintains (reap_inv P) (process_op_run P Op_start)"
  by (rule maintainsI)
    (auto simp: reap_inv_def process_defs config_defs act_simps simp del: append_assoc
      split: if_splits)

lemma reap_inv_wait: "maintains (reap_inv P) (process_wait P)"
  by (rule maintainsI)
    (auto simp: reap_inv_def process_defs act_simps Let_def split: if_splits)

lemma reap_inv_kill:
  "maintains (reap_inv P) (kill_process P started terminated get_pid mode)"
  by (cases mode; rule maintainsI)
    (auto simp: reap_inv_def process_defs act_simps simp del: append_assoc split: if_splits)

lemma reap_inv_op: "maintains (reap_inv P) (process_op_run P op)"
  using reap_inv_start [of P] by (cases op) (simp_all add: reap_inv_wait reap_inv_kill)

lemma reap_inv_session: "maintains (reap_inv P) (process_session P ops)"
  by (auto simp: process_session_def process_delete_def
      intro!: effects reap_inv_op reap_inv_wait reap_inv_kill)

text \<open>
  C13. A reaped process is never signalled.  Whatever sequence of starts, waits and kills a
  client performs on a process object, and the destructor after them, no \<open>kill\<close> is issued
  after a \<open>waitpid\<close> has reported the process exited or killed by a signal: from then on the
  pid may belong to somebody else.
\<close>

theorem no_kill_after_reap:
  "kills_only_living P (snd (snd (process_session P ops
     (\<lparr>proc_args = args, proc_pid = -1, proc_status = junk, proc_terminated = False\<rparr>, []))))"
proof -
  let ?p = "\<lparr>proc_args = args, proc_pid = -1, proc_status = junk, proc_terminated = False\<rparr>"
  obtain r s t where run: "process_session P ops (?p, []) = (r, (s, t))" by (metis prod.collapse)
  have "reap_inv P (?p, [])" by (simp add: reap_inv_def reaped_def kills_only_living_def)
  with maintainsD [OF reap_inv_session run] have "reap_inv P (s, t)" by simp
  with run show ?thesis by (simp add: reap_inv_def)
qed

text \<open>
  The destructor.  A process that was never started or has terminated is destroyed without
  a call.  One that is running is sent \<open>SIGKILL\<close>, and if that works it is waited for, so that
  no zombie stays behind.  In every case the destructor returns: neither a failed \<open>kill\<close> nor a
  failed \<open>waitpid\<close> escapes, and none of the asserts on the way can fail.
\<close>

theorem process_destructor:
  "process_delete P (p, t) =
     (if started p \<and> \<not> terminated p then
           let kill = Sys_kill (proc_pid p) (sigkill P); wait = Sys_waitpid (proc_pid p);
               w = answer P (t @ [kill]) wait
           in if rc (answer P t kill) = -1 then (Inr (), (p, t @ [kill]))
              else if rc w = -1 then (Inr (), (p, t @ [kill, wait]))
              else (Inr (), (p\<lparr>proc_status := out_status w,
                     proc_terminated := wifexited P (out_status w) \<or> wifsignaled P (out_status w)\<rparr>,
                     t @ [kill, wait]))
      else (Inr (), (p, t)))"
  by (cases p) (auto simp: process_defs act_simps Let_def)

text \<open>
  Waiting.  On a started process that has not terminated, \<open>wait\<close> makes exactly one
  \<open>waitpid\<close> for its pid; an error is thrown with the object unchanged, otherwise the status is
  recorded and the process counts as terminated exactly if it exited or was killed by a
  signal.  Waiting before the start, or again after termination, fails an assert and makes no
  call.
\<close>

theorem process_wait_spec:
  "process_wait P (p, t) =
     (if started p \<and> \<not> terminated p then
           let c = Sys_waitpid (proc_pid p); r = answer P t c
           in if rc r = -1
              then (Inl (Raise (System_error (err r) ''Error waiting for process'')), (p, t @ [c]))
              else (Inr (), (p\<lparr>proc_status := out_status r,
                     proc_terminated := wifexited P (out_status r) \<or> wifsignaled P (out_status r)\<rparr>,
                     t @ [c]))
      else (Inl Assert_failed, (p, t)))"
  by (cases p) (auto simp: process_defs act_simps Let_def)

text \<open>
  \<open>kill_process\<close>.  It aborts on a process that was not started, does nothing to one that
  has terminated, and otherwise signals exactly the pid (\<open>PROC\<close>), or the negated group id the
  kernel reports for it (\<open>TREE\<close>); a mode outside the enumeration aborts.
\<close>

theorem kill_process_spec:
  "kill_process P started terminated get_pid mode (p, t) =
     (if \<not> started p then (Inl Assert_failed, (p, t))
      else if terminated p then (Inr (), (p, t))
      else case mode of
        PROC \<Rightarrow> util_kill P (proc_pid p) (p, t)
      | TREE \<Rightarrow> (let g = answer P t (Sys_getpgid (proc_pid p))
          in if rc g = -1
             then (Inl (Raise (System_error (err g) ''Error getting the group id'')),
                   (p, t @ [Sys_getpgid (proc_pid p)]))
             else discard (call_ne P (Sys_kill (- rc g) (sigkill P)) (-1)
                    ''Error killing a process group'') (p, t @ [Sys_getpgid (proc_pid p)]))
      | Other_mode _ \<Rightarrow> (Inl Assert_failed, (p, t)))"
  by (cases mode) (auto simp: process_defs act_simps Let_def)

text \<open>
  Starting with the default configuration.  A started object aborts; a path that is
  missing or cannot be examined is reported before anything is forked; a failed \<open>fork\<close> is swallowed and leaves the object not
  started; the parent records the child's pid and returns; the child never returns, it either
  becomes the command or exits with 1.
\<close>

theorem process_start_default:
  "process_start P default_config id (\<lambda>v _. v) (p, t) =
     (let e = Fs_exists (hd (proc_args p)); f = answer P (t @ [e]) Sys_fork;
          x = Sys_execvp (hd (proc_args p)) (proc_args p)
      in if started p then (Inl Assert_failed, (p, t))
         else if rc (answer P t e) = 0
         then (Inl (Raise (Invalid_argument
                 (''Path '' @ show_path P (hd (proc_args p)) @ '' does not exist''))), (p, t @ [e]))
         else if rc (answer P t e) < 0
         then (Inl (Raise (Filesystem_error (err (answer P t e)) (hd (proc_args p)))), (p, t @ [e]))
         else if rc f = -1 then (Inr (), (p, t @ [e, Sys_fork]))
         else if rc f = 0
         then (Inl (if rc (answer P (t @ [e, Sys_fork]) x) = -1 then Exited 1 else Image_replaced),
               (p, t @ [e, Sys_fork, x]))
         else (Inr (), (p\<lparr>proc_pid := rc f\<rparr>, t @ [e, Sys_fork])))"
  by (auto simp: process_defs config_defs act_simps Let_def)

text \<open>
  C40. A process that was moved is killed twice.  The moved-from object keeps the pid.  When both are
  destroyed, the first destructor kills the process and waits for it, and the second sends
  \<open>SIGKILL\<close> to the same pid, which by then may belong to somebody else: what \<open>no_kill_after_reap\<close>
  promises for one object fails for an object and its source.
\<close>

theorem moved_process_killed_again:
  assumes "started p" and "\<not> terminated p"
    and kill: "rc (answer P t (Sys_kill (proc_pid p) (sigkill P))) \<noteq> -1"
    and wait: "reaps P (t @ [Sys_kill (proc_pid p) (sigkill P)]) (Sys_waitpid (proc_pid p))"
  shows "\<exists>s' u. block [zoom fst (\<lambda>v s. (v, snd s)) (process_delete P), zoom snd (\<lambda>v s. (fst s, v)) (process_delete P)]
      (process_move p, t) =
    (Inr (), (s', t @ [Sys_kill (proc_pid p) (sigkill P), Sys_waitpid (proc_pid p),
       Sys_kill (proc_pid p) (sigkill P)] @ u)) \<and>
    \<not> kills_only_living P (t @ [Sys_kill (proc_pid p) (sigkill P), Sys_waitpid (proc_pid p),
       Sys_kill (proc_pid p) (sigkill P)] @ u)"
proof -
  let ?kill = "Sys_kill (proc_pid p) (sigkill P)" and ?wait = "Sys_waitpid (proc_pid p)"
  let ?t = "t @ [?kill, ?wait]"
  let ?u = "if rc (answer P ?t ?kill) = -1 then [] else [?wait]"
  have "\<exists>s'. block [zoom fst (\<lambda>v s. (v, snd s)) (process_delete P), zoom snd (\<lambda>v s. (fst s, v)) (process_delete P)]
      (process_move p, t) = (Inr (), (s', ?t @ [?kill] @ ?u))"
    using assms by (auto simp: process_move_def process_defs act_simps)
  moreover have "\<not> kills_only_living P (?t @ [?kill])"
  proof -
    have "reaped P ((t @ [?kill]) @ [?wait])" using wait by (simp del: append_assoc)
    then have "reaped P ?t" by simp
    then show ?thesis by (simp only: kills_only_living_snoc) simp
  qed
  then have "\<not> kills_only_living P (?t @ [?kill] @ ?u)"
    using kills_only_living_snoc [of P "?t @ [?kill]" ?wait] by (auto simp del: kills_only_living_snoc)
  ultimately show ?thesis by (metis append.assoc append_Cons append_Nil)
qed

theorem moved_process_killed_again_witness:
  "\<exists>s' u. block [zoom fst (\<lambda>v s. (v, snd s)) (process_delete good_platform),
       zoom snd (\<lambda>v s. (fst s, v)) (process_delete good_platform)]
      (process_move \<lparr>proc_args = [''/bin/true''], proc_pid = 7, proc_status = 0, proc_terminated = False\<rparr>, []) =
    (Inr (), (s', [Sys_kill 7 9, Sys_waitpid 7, Sys_kill 7 9] @ u)) \<and>
    \<not> kills_only_living good_platform ([Sys_kill 7 9, Sys_waitpid 7, Sys_kill 7 9] @ u)"
proof -
  let ?p = "\<lparr>proc_args = [''/bin/true''], proc_pid = 7, proc_status = 0, proc_terminated = False\<rparr>"
  have "started ?p" "\<not> terminated ?p" by (simp_all add: started_def terminated_def)
  moreover have "rc (answer good_platform [] (Sys_kill (proc_pid ?p) (sigkill good_platform))) \<noteq> -1" by simp
  moreover have "reaps good_platform ([] @ [Sys_kill (proc_pid ?p) (sigkill good_platform)]) (Sys_waitpid (proc_pid ?p))"
    by (simp add: good_platform_def)
  ultimately show ?thesis
    using moved_process_killed_again [of ?p good_platform "[]"] by (simp add: good_platform_def)
qed

end
