(* ===== verification/Sync_Process.thy ===== *)
theory Sync_Process
  imports Pipe Process
begin

text \<open>
  \<open>class sync_process\<close> of \<open>util/process\<close>: a process whose command is held back until
  \<open>start()\<close>, by two pipes between parent and child.  The configuration callbacks installed by
  the constructor are closures over the object itself.
\<close>

record sync_process =
  sp_process :: process
  sp_go :: pipe
  sp_ready :: pipe

definition put_process :: "process \<Rightarrow> sync_process \<Rightarrow> sync_process" where
  "put_process v s = s\<lparr>sp_process := v\<rparr>"

definition put_go :: "pipe \<Rightarrow> sync_process \<Rightarrow> sync_process" where
  "put_go v s = s\<lparr>sp_go := v\<rparr>"

definition put_ready :: "pipe \<Rightarrow> sync_process \<Rightarrow> sync_process" where
  "put_ready v s = s\<lparr>sp_ready := v\<rparr>"

definition on_process :: "(process, 'a) sys \<Rightarrow> (sync_process, 'a) sys" where
  "on_process = zoom sp_process put_process"

definition on_go :: "(pipe, 'a) sys \<Rightarrow> (sync_process, 'a) sys" where
  "on_go = zoom sp_go put_go"

definition on_ready :: "(pipe, 'a) sys \<Rightarrow> (sync_process, 'a) sys" where
  "on_ready = zoom sp_ready put_ready"

lemmas member_defs = on_process_def on_go_def on_ready_def put_process_def put_go_def put_ready_def

interpretation process_member: lens sp_process put_process
  by unfold_locales (simp_all add: put_process_def)

interpretation go_ready: lens_pair sp_go put_go sp_ready put_ready
  by unfold_locales (simp_all add: put_go_def put_ready_def)

interpretation process_go: lens_pair sp_process put_process sp_go put_go
  by unfold_locales (simp_all add: put_process_def put_go_def)

interpretation process_ready: lens_pair sp_process put_process sp_ready put_ready
  by unfold_locales (simp_all add: put_process_def put_ready_def)

section \<open>Operations\<close>

text \<open>
  The child, before \<open>exec\<close>.  The byte it writes is never initialised (\<open>junk\<close>); the results of
  \<open>setpgid\<close> and of the two transfers are not looked at.
\<close>

definition wait_for_parent :: "platform \<Rightarrow> byte \<Rightarrow> (sync_process, unit) sys" where
  "wait_for_parent P junk =
     block
       [discard (act_bind (call P Sys_getpid) (\<lambda>r. call P (Sys_setpgid (rc r) 0))),
        on_ready (pipe_close P READ_END),
        on_go (pipe_close P WRITE_END),
        on_ready (discard (pipe_write P [junk])),
        on_ready (pipe_close P WRITE_END),
        on_go (discard (pipe_read P 1))]"

definition wait_for_child :: "platform \<Rightarrow> (sync_process, unit) sys" where
  "wait_for_child P =
     block
       [on_ready (pipe_close P WRITE_END),
        on_go (pipe_close P READ_END),
        on_ready (discard (pipe_read P 1)),
        on_ready (pipe_close P READ_END)]"

definition sync_config :: "platform \<Rightarrow> byte \<Rightarrow> sync_process process_config" where
  "sync_config P junk =
     set_exec_error (Some (\<lambda>error_code. libc_error_code error_code ''Exec failed''))
       (set_fork_error (Some (\<lambda>error_code. libc_error_code error_code ''Error forking process''))
         (set_fork_success (Some (wait_for_child P))
           (set_exec_setup (Some (wait_for_parent P junk)) default_config)))"

text \<open>
  Construction.  The members are built in declaration order; when one of them throws, those
  already built are destroyed in reverse order before the exception goes on.
\<close>

definition sync_new :: "platform \<Rightarrow> string list \<Rightarrow> (sync_process, unit) sys" where
  "sync_new P args =
     block
       [on_process (process_new args),
        unwinding (on_go (pipe_new_flags P (o_cloexec P))) (on_process (process_delete P)),
        unwinding (on_ready (pipe_new P))
          (block [on_go (pipe_delete P), on_process (process_delete P)])]"

definition sync_prepare :: "platform \<Rightarrow> byte \<Rightarrow> (sync_process, unit) sys" where
  "sync_prepare P junk = process_start P (sync_config P junk) sp_process put_process"

definition sync_start :: "platform \<Rightarrow> (sync_process, unit) sys" where
  "sync_start P =
     block
       [assert_that (\<lambda>s. started (sp_process s)),
        on_go (discard (pipe_write P [0])),
        on_go (pipe_close P WRITE_END)]"

definition sync_wait :: "platform \<Rightarrow> (sync_process, unit) sys" where
  "sync_wait P = on_process (process_wait P)"

definition sync_started :: "sync_process \<Rightarrow> bool" where
  "sync_started s = started (sp_process s)"

definition sync_terminated :: "sync_process \<Rightarrow> bool" where
  "sync_terminated s = terminated (sp_process s)"

definition sync_pid :: "(sync_process, int) sys" where
  "sync_pid = on_process get_pid"

definition sync_termination_status :: "(sync_process, int) sys" where
  "sync_termination_status = on_process termination_status"

definition sync_kill :: "platform \<Rightarrow> kill_mode \<Rightarrow> (sync_process, unit) sys" where
  "sync_kill P mode = kill_process P sync_started sync_terminated sync_pid mode"

text \<open>The implicit destructor: the members in reverse order.\<close>

definition sync_delete :: "platform \<Rightarrow> (sync_process, unit) sys" where
  "sync_delete P =
     block [on_ready (pipe_delete P), on_go (pipe_delete P), on_process (process_delete P)]"

lemmas sync_defs = wait_for_parent_def wait_for_child_def sync_config_def sync_prepare_def
  sync_start_def sync_wait_def sync_started_def sync_terminated_def sync_pid_def sync_kill_def

section \<open>Descriptors\<close>

definition sync_held :: "sync_process \<Rightarrow> int \<Rightarrow> nat" where
  "sync_held s fd = held (sp_go s) fd + held (sp_ready s) fd"

lemma balanced_on_go [effects]: "balanced held m \<Longrightarrow> balanced sync_held (on_go m)"
  unfolding on_go_def
  by (rule balanced_zoom [where k = "\<lambda>s. held (sp_ready s)"])
    (simp_all add: sync_held_def put_go_def)

lemma balanced_on_ready [effects]: "balanced held m \<Longrightarrow> balanced sync_held (on_ready m)"
  unfolding on_ready_def
  by (rule balanced_zoom [where k = "\<lambda>s. held (sp_go s)"])
    (simp_all add: sync_held_def put_ready_def)

lemma balanced_on_process [effects]:
  "emits (- range Sys_close) m \<Longrightarrow> balanced sync_held (on_process m)"
  unfolding on_process_def
  by (rule balanced_zoom [OF balanced_no_close, where k = sync_held])
    (auto simp: sync_held_def put_process_def fun_eq_iff)

lemma no_close_process [effects]:
  "emits (- range Sys_close) (process_wait P)"
  "emits (- range Sys_close) (process_delete P)"
  "emits (- range Sys_close) get_pid"
  by (auto simp: process_wait_def process_delete_def kill_process_def get_pid_def util_kill_def
      intro!: effects)

lemma balanced_wait_for [effects]:
  assumes "close_succeeds P"
  shows "balanced sync_held (wait_for_child P)" and "balanced sync_held (wait_for_parent P junk)"
  using assms by (auto simp: wait_for_child_def wait_for_parent_def intro!: effects)

lemma balanced_sync_start [effects]: "close_succeeds P \<Longrightarrow> balanced sync_held (sync_start P)"
  by (auto simp: sync_start_def intro!: effects)

lemma balanced_sync_prepare [effects]:
  assumes "close_succeeds P"
  shows "balanced sync_held (sync_prepare P junk)"
proof -
  have "balanced sync_held (zoom sp_process put_process (modify f))" for f
    using balanced_on_process [of "modify f"] by (auto simp: on_process_def intro: effects)
  then show ?thesis
    using assms
    by (auto simp: sync_prepare_def process_start_def check_path_def start_child_def
        start_parent_def sync_config_def config_defs libc_error_code_def Let_def
        intro!: effects)
qed

text \<open>
  A client of one \<open>sync_process\<close>: any sequence of its operations, then its destructor.
\<close>

datatype sync_op = Sync_prepare byte | Sync_start | Sync_wait | Sync_kill kill_mode

fun sync_op_run :: "platform \<Rightarrow> sync_op \<Rightarrow> (sync_process, unit) sys" where
  "sync_op_run P (Sync_prepare junk) = sync_prepare P junk"
| "sync_op_run P Sync_start = sync_start P"
| "sync_op_run P Sync_wait = sync_wait P"
| "sync_op_run P (Sync_kill mode) = sync_kill P mode"

definition sync_session :: "platform \<Rightarrow> sync_op list \<Rightarrow> (sync_process, unit) sys" where
  "sync_session P ops =
     block (map (\<lambda>op. catching (sync_op_run P op) (\<lambda>_. ret ())) ops @ [sync_delete P])"

lemma balanced_sync_kill [effects]: "balanced sync_held (sync_kill P mode)"
  by (cases mode)
    (auto simp: sync_kill_def kill_process_def util_kill_def util_kill_group_def sync_pid_def
      intro!: effects)

lemma balanced_sync_op [effects]: "close_succeeds P \<Longrightarrow> balanced sync_held (sync_op_run P op)"
  by (cases op) (auto simp: sync_wait_def intro!: effects)

lemma balanced_sync_session:
  "close_succeeds P \<Longrightarrow> balanced sync_held (sync_session P ops)"
  by (auto simp: sync_session_def sync_delete_def intro!: effects)

lemma sync_delete_ok:
  assumes "close_succeeds P" and "sync_delete P (s, t) = (r, (s', t'))"
  shows "r = Inr () \<and> sp_go s' = closed_pipe \<and> sp_ready s' = closed_pipe"
proof -
  obtain t1 where 1: "pipe_delete P (sp_ready s, t) = (Inr (), (closed_pipe, t1))"
    using pipe_delete_ok [OF assms(1)] by blast
  obtain t2 where 2: "pipe_delete P (sp_go s, t1) = (Inr (), (closed_pipe, t2))"
    using pipe_delete_ok [OF assms(1)] by blast
  obtain p3 t3 where 3: "process_delete P (sp_process s, t2) = (Inr (), (p3, t3))"
    using returns_unitD [OF process_delete_returns] by blast
  from 1 2 3 assms(2) show ?thesis
    by (auto simp: sync_delete_def member_defs zoom_def)
qed

lemma sync_session_end:
  assumes "close_succeeds P" and "sync_session P ops (s, t) = (Inr (), (s', t'))"
  shows "sp_go s' = closed_pipe \<and> sp_ready s' = closed_pipe"
proof -
  let ?body = "block (map (\<lambda>op. catching (sync_op_run P op) (\<lambda>_. ret ())) ops) (s, t)"
  obtain r1 s1 t1 where body: "?body = (r1, (s1, t1))" by (metis prod.collapse)
  with assms(2) have "sync_delete P (s1, t1) = (Inr (), (s', t'))"
    by (auto simp: sync_session_def block_append act_bind_def split: sum.splits prod.splits)
  from sync_delete_ok [OF assms(1) this] show ?thesis by simp
qed

section \<open>Properties\<close>

definition fresh_sync :: "string list \<Rightarrow> int \<Rightarrow> int \<Rightarrow> int \<Rightarrow> int \<Rightarrow> int \<Rightarrow> sync_process" where
  "fresh_sync args junk a b c d =
     \<lparr>sp_process = \<lparr>proc_args = args, proc_pid = -1, proc_status = junk, proc_terminated = False\<rparr>,
      sp_go = \<lparr>fd_read = a, fd_write = b\<rparr>, sp_ready = \<lparr>fd_read = c, fd_write = d\<rparr>\<rparr>"

text \<open>
  C16. Descriptors of a \<open>sync_process\<close>.  From construction to destruction, whatever operations
  the client performs in between and whatever they throw, and on either side of the fork, a
  session that comes to its end has closed each of the four pipe descriptors exactly once.
\<close>

theorem sync_descriptors_closed_once:
  assumes "close_succeeds P"
    and "distinct [a, b, c, d]" and "-1 \<notin> {a, b, c, d}"
    and "sync_session P ops (fresh_sync args junk a b c d, []) = (Inr (), (s', t'))"
  shows "closes t' a = 1 \<and> closes t' b = 1 \<and> closes t' c = 1 \<and> closes t' d = 1"
proof -
  from sync_session_end [OF assms(1,4)] have "sp_go s' = closed_pipe" "sp_ready s' = closed_pipe"
    by simp_all
  then have "\<forall>fd. fd \<noteq> -1 \<longrightarrow> closes t' fd = sync_held (fresh_sync args junk a b c d) fd"
    using abidesD [OF balanced_sync_session [OF assms(1)] assms(4)]
    by (simp add: balanced_rel_def sync_held_def held_def closed_pipe_def)
  with assms(2,3) show ?thesis by (auto simp: sync_held_def held_def fresh_sync_def)
qed

theorem sync_descriptors_closed_once_witness:
  "\<exists>s' t'. sync_session good_platform [Sync_prepare 0, Sync_start, Sync_start, Sync_wait]
       (fresh_sync [''/bin/true''] 0 3 4 5 6, []) = (Inr (), (s', t')) \<and>
     closes t' 3 = 1 \<and> closes t' 4 = 1 \<and> closes t' 5 = 1 \<and> closes t' 6 = 1"
proof -
  let ?run = "sync_session good_platform [Sync_prepare 0, Sync_start, Sync_start, Sync_wait]
       (fresh_sync [''/bin/true''] 0 3 4 5 6, [])"
  have ok: "close_succeeds good_platform"
    by (simp add: close_succeeds_def)
  have "fst ?run = Inr ()" by code_simp
  then obtain s' t' where run: "?run = (Inr (), (s', t'))" by (metis prod.collapse)
  from sync_descriptors_closed_once [OF ok _ _ run] show ?thesis by (auto simp: run)
qed

text \<open>
  Preparing, in the parent.  When the path exists, the fork succeeds and the parent's ends
  close, \<open>prepare\<close> makes exactly these calls: the path test, the fork, closing its write end of
  the ready pipe and its read end of the go pipe, one one-byte read of the ready pipe, closing
  that end.  Afterwards the pid is known, the ready pipe is closed and only the write end of the
  go pipe is open.  The number of bytes the read delivered plays no role: end of file, which is
  what a child that died before it was ready produces, counts as ready.
\<close>

theorem sync_prepare_parent:
  assumes "close_succeeds P"
    and "0 < rc (answer P [] (Fs_exists cmd))"
    and "rc (answer P [Fs_exists cmd] Sys_fork) = pid" and "0 < pid"
    and "\<And>u. rc (answer P u (Sys_read c 1)) \<noteq> -1"
    and "a \<noteq> -1" and "b \<noteq> -1" and "c \<noteq> -1" and "d \<noteq> -1"
  shows "sync_prepare P byte (fresh_sync (cmd # args) junk a b c d, []) =
    (Inr (),
     ((fresh_sync (cmd # args) junk a b c d)
        \<lparr>sp_process := \<lparr>proc_args = cmd # args, proc_pid = pid, proc_status = junk,
                         proc_terminated = False\<rparr>,
         sp_go := \<lparr>fd_read = -1, fd_write = b\<rparr>, sp_ready := closed_pipe\<rparr>,
      [Fs_exists cmd, Sys_fork, Sys_close d, Sys_close a, Sys_read c 1, Sys_close c]))"
  using assms
  by (simp add: sync_defs config_defs process_defs member_defs fresh_sync_def closed_pipe_def
      pipe_close_def pipe_read_def is_open_def close_succeeds_def act_simps)

theorem sync_prepare_parent_witness:
  "snd (snd (sync_prepare good_platform 0 (fresh_sync [''/bin/true''] 0 3 4 5 6, []))) =
     [Fs_exists ''/bin/true'', Sys_fork, Sys_close 6, Sys_close 3, Sys_read 5 1, Sys_close 5]"
proof -
  have "close_succeeds good_platform"
    by (simp add: close_succeeds_def)
  from sync_prepare_parent [OF this, of "''/bin/true''" 1001 5 3 4 6 0 "[]" 0]
  show ?thesis by (simp)
qed

text \<open>
  Starting.  On a prepared process \<open>start\<close> writes one zero byte to the go pipe and closes
  its write end.  A second \<open>start\<close> throws, because the pipe is closed, and makes no call; before
  \<open>prepare\<close> it fails its assert.
\<close>

theorem sync_start_once:
  assumes "close_succeeds P" and "started (sp_process s)"
    and "is_open (sp_go s) WRITE_END"
    and "rc (answer P t (Sys_write (fd_write (sp_go s)) [0])) \<noteq> -1"
  shows "\<exists>s' t'. sync_start P (s, t) = (Inr (), (s', t')) \<and>
    t' = t @ [Sys_write (fd_write (sp_go s)) [0], Sys_close (fd_write (sp_go s))] \<and>
    s' = put_go (set_fd WRITE_END (-1) (sp_go s)) s \<and>
    sync_start P (s', t') =
      (Inl (Raise (Runtime_error ''Cannot write to closed pipe'')), (s', t'))"
  using assms
  by (simp add: sync_defs member_defs pipe_close_def pipe_write_def is_open_def
      close_succeeds_def act_simps)

theorem sync_start_once_witness:
  "\<exists>s' t'. sync_start good_platform
       (put_process \<lparr>proc_args = [''/bin/true''], proc_pid = 7, proc_status = 0,
          proc_terminated = False\<rparr> (fresh_sync [] 0 3 4 5 6), []) = (Inr (), (s', t')) \<and>
     sync_start good_platform (s', t') =
       (Inl (Raise (Runtime_error ''Cannot write to closed pipe'')), (s', t'))"
proof -
  let ?s = "put_process \<lparr>proc_args = [''/bin/true''], proc_pid = 7, proc_status = 0,
          proc_terminated = False\<rparr> (fresh_sync [] 0 3 4 5 6)"
  have "close_succeeds good_platform"
    by (simp add: close_succeeds_def)
  from sync_start_once [OF this, of ?s "[]"] show ?thesis
    by (auto simp: put_process_def fresh_sync_def started_def is_open_def)
qed

text \<open>
  C37. The child.  On the child's side of the fork the command is executed only after the
  child has put itself in its own process group, told the parent that it is ready and read the
  go pipe; the two ends it does not need are closed first.  The result of that last read is
  not examined.  If the command then cannot be executed, control does not reach \<open>exit(1)\<close>: the
  error callback throws, and the exception leaves \<open>prepare\<close> in the child.
\<close>

theorem sync_prepare_child:
  assumes "close_succeeds P"
    and "0 < rc (answer P [] (Fs_exists cmd))"
    and "rc (answer P [Fs_exists cmd] Sys_fork) = 0"
    and "\<And>u bs. rc (answer P u (Sys_write d bs)) \<noteq> -1"
    and "\<And>u n. rc (answer P u (Sys_read a n)) \<noteq> -1"
    and "a \<noteq> -1" and "b \<noteq> -1" and "c \<noteq> -1" and "d \<noteq> -1"
    and me: "rc (answer P [Fs_exists cmd, Sys_fork] Sys_getpid) = me"
    and t: "t = [Fs_exists cmd, Sys_fork, Sys_getpid, Sys_setpgid me 0, Sys_close c, Sys_close b,
              Sys_write d [byte], Sys_close d, Sys_read a 1]"
    and x: "x = answer P t (Sys_execvp cmd (cmd # args))"
  shows "\<exists>s'. sync_prepare P byte (fresh_sync (cmd # args) junk a b c d, []) =
    (Inl (if rc x = -1 then Raise (System_error (err x) ''Exec failed'') else Image_replaced),
     (s', t @ [Sys_execvp cmd (cmd # args)]))"
  using assms
  by (simp add: sync_defs config_defs process_defs member_defs fresh_sync_def closed_pipe_def
      pipe_defs is_open_def close_succeeds_def libc_error_code_def act_simps)

text \<open>A kernel on which the fork answers as in the child and \<open>execvp\<close> fails.\<close>

definition child_platform :: platform where
  "child_platform = good_platform\<lparr>answer := (\<lambda>t c. case c of
       Sys_fork \<Rightarrow> ok_reply
     | Sys_getpid \<Rightarrow> ok_reply\<lparr>rc := 77\<rparr>
     | Sys_execvp _ _ \<Rightarrow> ok_reply\<lparr>rc := -1, err := 13\<rparr>
     | _ \<Rightarrow> answer good_platform t c)\<rparr>"

theorem sync_prepare_child_witness:
  "fst (sync_prepare child_platform 0 (fresh_sync [''/etc''] 0 3 4 5 6, [])) =
     Inl (Raise (System_error 13 ''Exec failed''))"
proof -
  let ?t = "[Fs_exists ''/etc'', Sys_fork, Sys_getpid, Sys_setpgid 77 0, Sys_close 5, Sys_close 4,
      Sys_write 6 [0], Sys_close 6, Sys_read 3 1]"
  let ?x = "answer child_platform ?t (Sys_execvp ''/etc'' [''/etc''])"
  have ok: "close_succeeds child_platform"
    by (simp add: close_succeeds_def child_platform_def)
  have x: "?x = ok_reply\<lparr>rc := -1, err := 13\<rparr>" by (simp add: child_platform_def)
  have "\<exists>s'. sync_prepare child_platform 0 (fresh_sync [''/etc''] 0 3 4 5 6, []) =
      (Inl (if rc ?x = -1 then Raise (System_error (err ?x) ''Exec failed'') else Image_replaced),
       (s', ?t @ [Sys_execvp ''/etc'' [''/etc'']]))"
    by (rule sync_prepare_child [OF ok]) (simp_all add: child_platform_def)
  then show ?thesis unfolding x by auto
qed

text \<open>
  A constructor that fails half way.  When the go pipe has been made but the ready pipe
  cannot be, construction throws the system error of the second \<open>pipe\<close> call, and both
  descriptors of the go pipe have been closed again.
\<close>

theorem sync_new_unwinds:
  assumes "close_succeeds P" and "host P = Linux" and "args \<noteq> []"
    and "rc (answer P [] (Sys_pipe2 (o_cloexec P))) = 0"
    and "out_fds (answer P [] (Sys_pipe2 (o_cloexec P))) = (a, b)" and "a \<noteq> -1" and "b \<noteq> -1"
    and "rc (answer P [Sys_pipe2 (o_cloexec P)] Sys_pipe) \<noteq> 0"
    and "e = err (answer P [Sys_pipe2 (o_cloexec P)] Sys_pipe)"
  shows "\<exists>s'. sync_new P args (s, []) =
    (Inl (Raise (System_error e ''Error creating pipe'')),
     (s', [Sys_pipe2 (o_cloexec P), Sys_pipe, Sys_close a, Sys_close b]))"
  using assms
  by (simp add: sync_new_def unwinding_def process_defs member_defs os_defs
      pipe_defs is_open_def close_succeeds_def act_simps)

text \<open>A kernel that runs out of descriptors after the first pipe.\<close>

definition one_pipe_platform :: platform where
  "one_pipe_platform = good_platform\<lparr>answer := (\<lambda>t c. case c of
       Sys_pipe \<Rightarrow> ok_reply\<lparr>rc := -1, err := 24\<rparr>
     | _ \<Rightarrow> answer good_platform t c)\<rparr>"

theorem sync_new_unwinds_witness:
  "fst (sync_new one_pipe_platform [''/bin/true''] (fresh_sync [] 0 0 0 0 0, [])) =
     Inl (Raise (System_error 24 ''Error creating pipe''))"
proof -
  have ok: "close_succeeds one_pipe_platform"
    by (simp add: close_succeeds_def one_pipe_platform_def)
  have "\<exists>s'. sync_new one_pipe_platform [''/bin/true''] (fresh_sync [] 0 0 0 0 0, []) =
      (Inl (Raise (System_error 24 ''Error creating pipe'')),
       (s', [Sys_pipe2 (o_cloexec one_pipe_platform), Sys_pipe, Sys_close 3, Sys_close 4]))"
    by (rule sync_new_unwinds [OF ok]) (simp_all add: one_pipe_platform_def)
  then show ?thesis by auto
qed

end
