(* ===== verification/Handshake.thy ===== *)
theory Handshake
  imports Sync_Process
begin

text \<open>
  The two processes of a \<open>sync_process\<close> running side by side.  Parent and child each follow the
  script of calls that \<open>Sync_Process\<close> gives them; the two pipes carry byte counts, a read
  blocks while its pipe is empty and somebody still holds the write end, returns end of file
  when nobody does, and a write nobody can read kills the writer.  The scheduler is free.
\<close>

section \<open>Scripts\<close>

datatype pipe_name = Go | Ready

datatype instr =
    I_setpgid
  | I_close pipe_name end_point
  | I_write pipe_name
  | I_read pipe_name
  | I_exec
  | I_kill

text \<open>\<open>wait_for_parent\<close>, then \<open>execvp\<close>.\<close>

definition child_script :: "instr list" where
  "child_script =
     [I_setpgid, I_close Ready READ_END, I_close Go WRITE_END, I_write Ready,
      I_close Ready WRITE_END, I_read Go, I_exec]"

text \<open>\<open>wait_for_child\<close>, the parent's half of \<open>prepare\<close>.\<close>

definition prepare_script :: "instr list" where
  "prepare_script =
     [I_close Ready WRITE_END, I_close Go READ_END, I_read Ready, I_close Ready READ_END]"

definition start_script :: "instr list" where
  "start_script = [I_write Go, I_close Go WRITE_END]"

text \<open>Destruction of an object that was prepared and never started.\<close>

definition destroy_script :: "instr list" where
  "destroy_script = [I_close Go WRITE_END, I_kill]"

text \<open>The calls behind an instruction, for go pipe \<open>(a, b)\<close> and ready pipe \<open>(c, d)\<close>.\<close>

fun instr_calls :: "platform \<Rightarrow> int \<Rightarrow> int \<Rightarrow> int \<Rightarrow> int \<Rightarrow> byte \<Rightarrow> int \<Rightarrow> string list \<Rightarrow> instr \<Rightarrow> syscall list"
where
  "instr_calls P a b c d junk pid args I_setpgid = [Sys_getpid, Sys_setpgid pid 0]"
| "instr_calls P a b c d junk pid args (I_close Go READ_END) = [Sys_close a]"
| "instr_calls P a b c d junk pid args (I_close Go WRITE_END) = [Sys_close b]"
| "instr_calls P a b c d junk pid args (I_close Ready READ_END) = [Sys_close c]"
| "instr_calls P a b c d junk pid args (I_close Ready WRITE_END) = [Sys_close d]"
| "instr_calls P a b c d junk pid args (I_write Go) = [Sys_write b [0]]"
| "instr_calls P a b c d junk pid args (I_write Ready) = [Sys_write d [junk]]"
| "instr_calls P a b c d junk pid args (I_read Go) = [Sys_read a 1]"
| "instr_calls P a b c d junk pid args (I_read Ready) = [Sys_read c 1]"
| "instr_calls P a b c d junk pid args I_exec = [Sys_execvp (hd args) args]"
| "instr_calls P a b c d junk pid args I_kill = [Sys_kill pid (sigkill P)]"

section \<open>States and steps\<close>

datatype party = Parent | Child

record hs =
  parent_pc :: nat
  child_pc :: nat
  parent_ends :: "(pipe_name \<times> end_point) list"
  child_ends :: "(pipe_name \<times> end_point) list"
  go_bytes :: nat
  ready_bytes :: nat
  go_total :: nat
  killed :: bool
  dead :: "party list"

definition pc :: "hs \<Rightarrow> party \<Rightarrow> nat" where
  "pc s w = (case w of Parent \<Rightarrow> parent_pc s | Child \<Rightarrow> child_pc s)"

definition set_pc :: "party \<Rightarrow> nat \<Rightarrow> hs \<Rightarrow> hs" where
  "set_pc w n s = (case w of Parent \<Rightarrow> s\<lparr>parent_pc := n\<rparr> | Child \<Rightarrow> s\<lparr>child_pc := n\<rparr>)"

definition ends :: "hs \<Rightarrow> party \<Rightarrow> (pipe_name \<times> end_point) list" where
  "ends s w = (case w of Parent \<Rightarrow> parent_ends s | Child \<Rightarrow> child_ends s)"

definition set_ends :: "party \<Rightarrow> (pipe_name \<times> end_point) list \<Rightarrow> hs \<Rightarrow> hs" where
  "set_ends w e s = (case w of Parent \<Rightarrow> s\<lparr>parent_ends := e\<rparr> | Child \<Rightarrow> s\<lparr>child_ends := e\<rparr>)"

definition bytes :: "hs \<Rightarrow> pipe_name \<Rightarrow> nat" where
  "bytes s p = (case p of Go \<Rightarrow> go_bytes s | Ready \<Rightarrow> ready_bytes s)"

definition set_bytes :: "pipe_name \<Rightarrow> nat \<Rightarrow> hs \<Rightarrow> hs" where
  "set_bytes p n s = (case p of Go \<Rightarrow> s\<lparr>go_bytes := n\<rparr> | Ready \<Rightarrow> s\<lparr>ready_bytes := n\<rparr>)"

definition all_ends :: "(pipe_name \<times> end_point) list" where
  "all_ends = [(Go, READ_END), (Go, WRITE_END), (Ready, READ_END), (Ready, WRITE_END)]"

text \<open>Right after the fork both sides hold all four ends.\<close>

definition forked :: "hs \<Rightarrow> bool" where
  "forked s \<longleftrightarrow> s = \<lparr>parent_pc = 0, child_pc = 0, parent_ends = all_ends, child_ends = all_ends,
     go_bytes = 0, ready_bytes = 0, go_total = 0, killed = False, dead = []\<rparr>"

definition held_by_any :: "hs \<Rightarrow> pipe_name \<Rightarrow> end_point \<Rightarrow> bool" where
  "held_by_any s p ep \<longleftrightarrow> (p, ep) \<in> set (parent_ends s) \<or> (p, ep) \<in> set (child_ends s)"

definition advance :: "party \<Rightarrow> hs \<Rightarrow> hs" where
  "advance w s = set_pc w (Suc (pc s w)) s"

text \<open>A party that dies stays where it is in its script; the kernel closes its descriptors.\<close>

definition die :: "party \<Rightarrow> hs \<Rightarrow> hs" where
  "die w s = (set_ends w [] s)\<lparr>dead := w # dead s\<rparr>"

text \<open>One more byte in a pipe; \<open>go_total\<close> remembers what was ever written to the go pipe.\<close>

definition put_byte :: "pipe_name \<Rightarrow> hs \<Rightarrow> hs" where
  "put_byte p s = (let s' = set_bytes p (Suc (bytes s p)) s
     in if p = Go then s'\<lparr>go_total := Suc (go_total s)\<rparr> else s')"

text \<open>One instruction of party \<open>w\<close>; \<open>None\<close> when it has to wait.\<close>

fun do_instr :: "party \<Rightarrow> instr \<Rightarrow> hs \<Rightarrow> hs option" where
  "do_instr w I_setpgid s = Some (advance w s)"
| "do_instr w (I_close p ep) s =
     Some (advance w (set_ends w (removeAll (p, ep) (ends s w)) s))"
| "do_instr w (I_write p) s =
     (if held_by_any s p READ_END
      then Some (advance w (put_byte p s))
      else Some (die w s))"
| "do_instr w (I_read p) s =
     (if 0 < bytes s p then Some (advance w (set_bytes p (bytes s p - 1) s))
      else if held_by_any s p WRITE_END then None
      else Some (advance w s))"
| "do_instr w I_exec s =
     Some (advance w (set_ends w (removeAll (Go, READ_END) (ends s w)) s))"
| "do_instr w I_kill s = Some (advance w (s\<lparr>killed := True\<rparr>))"

definition script_of :: "instr list \<Rightarrow> party \<Rightarrow> instr list" where
  "script_of ps w = (case w of Parent \<Rightarrow> ps | Child \<Rightarrow> child_script)"

text \<open>What a party is about to do, unless it has finished, died or been killed.\<close>

definition next_instr :: "instr list \<Rightarrow> hs \<Rightarrow> party \<Rightarrow> instr option" where
  "next_instr ps s w =
     (let script = script_of ps w
      in if pc s w < length script \<and> w \<notin> set (dead s) \<and> \<not> (w = Child \<and> killed s)
         then Some (script ! pc s w) else None)"

definition move :: "instr list \<Rightarrow> party \<Rightarrow> hs \<Rightarrow> hs option" where
  "move ps w s =
     (case next_instr ps s w of None \<Rightarrow> None | Some instr \<Rightarrow> do_instr w instr s)"

inductive hs_step :: "instr list \<Rightarrow> hs \<Rightarrow> hs \<Rightarrow> bool" for ps where
  hs_move: "move ps w s = Some s' \<Longrightarrow> hs_step ps s s'"

inductive_simps hs_step_simps: "hs_step ps s s'"

lemma stuck_iff: "(\<forall>s'. \<not> hs_step ps s s') \<longleftrightarrow> move ps Parent s = None \<and> move ps Child s = None"
proof -
  have "(\<forall>s'. \<not> hs_step ps s s') \<longleftrightarrow> (\<forall>w. move ps w s = None)" by (metis hs_step_simps not_Some_eq)
  moreover have "(\<forall>w. Q w) \<longleftrightarrow> Q Parent \<and> Q Child" for Q by (metis party.exhaust)
  ultimately show ?thesis by simp
qed

text \<open>The milestones: what a party has done are the instructions before its program counter.\<close>

definition child_did :: "instr \<Rightarrow> hs \<Rightarrow> bool" where
  "child_did instr s \<longleftrightarrow> instr \<in> set (take (pc s Child) child_script)"

definition executed :: "hs \<Rightarrow> bool" where
  "executed s \<longleftrightarrow> child_did I_exec s"

definition own_group :: "hs \<Rightarrow> bool" where
  "own_group s \<longleftrightarrow> child_did I_setpgid s"

definition ready_written :: "hs \<Rightarrow> bool" where
  "ready_written s \<longleftrightarrow> child_did (I_write Ready) s"

definition prepared :: "hs \<Rightarrow> bool" where
  "prepared s \<longleftrightarrow> length prepare_script \<le> pc s Parent"

definition start_written :: "hs \<Rightarrow> bool" where
  "start_written s \<longleftrightarrow> 0 < go_total s"

definition other :: "party \<Rightarrow> party" where
  "other w = (case w of Parent \<Rightarrow> Child | Child \<Rightarrow> Parent)"

abbreviation normal :: "instr list" where
  "normal \<equiv> prepare_script @ start_script"

section \<open>Every reachable state of a normal run\<close>

text \<open>
  In a run without faults a state is determined by the two program counters, and these are
  coupled by the two rendezvous: the parent passes its read only after the child's write, and
  the child passes its read only after the parent's write.
\<close>

definition ends_at :: "instr list \<Rightarrow> nat \<Rightarrow> (pipe_name \<times> end_point) list" where
  "ends_at script n =
     filter (\<lambda>(p, ep). I_close p ep \<notin> set (take n script) \<and>
       \<not> (I_exec \<in> set (take n script) \<and> (p, ep) = (Go, READ_END))) all_ends"

definition state_at :: "nat \<Rightarrow> nat \<Rightarrow> hs" where
  "state_at i j =
     \<lparr>parent_pc = i, child_pc = j,
      parent_ends = ends_at normal i, child_ends = ends_at child_script j,
      go_bytes = (if 5 \<le> i \<and> j < 6 then 1 else 0),
      ready_bytes = (if 4 \<le> j \<and> i < 3 then 1 else 0),
      go_total = (if 5 \<le> i then 1 else 0), killed = False, dead = []\<rparr>"

lemma state_at_pcs [simp]: "parent_pc (state_at i j) = i" "child_pc (state_at i j) = j"
  by (simp_all add: state_at_def)

definition coupled :: "nat \<Rightarrow> nat \<Rightarrow> bool" where
  "coupled i j \<longleftrightarrow> i \<le> 6 \<and> j \<le> 7 \<and> (3 \<le> i \<longrightarrow> 4 \<le> j) \<and> (6 \<le> j \<longrightarrow> 5 \<le> i)"

definition hs_inv :: "hs \<Rightarrow> bool" where
  "hs_inv s \<longleftrightarrow> (\<exists>i j. coupled i j \<and> s = state_at i j)"

lemmas script_defs = child_script_def prepare_script_def start_script_def

lemma coupled_cases:
  assumes "coupled i j"
  shows "i \<in> set [0..<7] \<and> j \<in> set [0..<8]"
  using assms by (auto simp: coupled_def)

lemma move_state_at:
  "\<forall>i \<in> set [0..<7]. \<forall>j \<in> set [0..<8]. \<forall>w \<in> set [Parent, Child]. coupled i j \<longrightarrow>
     (case move normal w (state_at i j) of
        None \<Rightarrow> True
      | Some s' \<Rightarrow> coupled (parent_pc s') (child_pc s') \<and>
          s' = state_at (parent_pc s') (child_pc s') \<and>
          parent_pc s' + child_pc s' = Suc (i + j))"
  by code_simp

text \<open>Somebody can move unless both are done.\<close>

lemma progress_state_at:
  "\<forall>i \<in> set [0..<7]. \<forall>j \<in> set [0..<8]. coupled i j \<longrightarrow>
     move normal Parent (state_at i j) \<noteq> None \<or> move normal Child (state_at i j) \<noteq> None \<or>
     (i = 6 \<and> j = 7)"
  by code_simp

lemma hs_inv_step:
  assumes "hs_inv s" and "hs_step normal s s'"
  shows "hs_inv s' \<and> parent_pc s' + child_pc s' = Suc (parent_pc s + child_pc s)"
proof -
  from assms(1) obtain i j where c: "coupled i j" and s: "s = state_at i j"
    by (auto simp: hs_inv_def)
  from assms(2) obtain w where m: "move normal w s = Some s'" by (auto simp: hs_step_simps)
  have w: "w \<in> set [Parent, Child]" by (cases w) simp_all
  have "coupled (parent_pc s') (child_pc s') \<and> s' = state_at (parent_pc s') (child_pc s') \<and>
      parent_pc s' + child_pc s' = Suc (i + j)"
    using move_state_at [rule_format, of i j w] coupled_cases [OF c] c w m s by simp
  then show ?thesis unfolding hs_inv_def s state_at_pcs by blast
qed

interpretation handshake: invariant forked "hs_step normal" hs_inv
proof unfold_locales
  fix s
  assume "forked s"
  then have "s = state_at 0 0" by (simp add: forked_def state_at_def ends_at_def all_ends_def)
  then show "hs_inv s" unfolding hs_inv_def by (intro exI [of _ 0]) (simp add: coupled_def)
qed (use hs_inv_step in blast)

lemma reachable_coupled:
  assumes "reachable forked (hs_step normal) s"
  shows "\<exists>i j. coupled i j \<and> s = state_at i j"
  using handshake.reachable_inv [OF assms] by (simp add: hs_inv_def)

text \<open>A schedule: who moves, in order.\<close>

fun run_moves :: "instr list \<Rightarrow> party list \<Rightarrow> hs \<Rightarrow> hs option" where
  "run_moves ps [] s = Some s"
| "run_moves ps (w # ws) s = (case move ps w s of None \<Rightarrow> None | Some s' \<Rightarrow> run_moves ps ws s')"

definition fork_state :: hs where
  "fork_state = \<lparr>parent_pc = 0, child_pc = 0, parent_ends = all_ends, child_ends = all_ends,
     go_bytes = 0, ready_bytes = 0, go_total = 0, killed = False, dead = []\<rparr>"

lemma forked_fork_state [simp]: "forked fork_state"
  by (simp add: forked_def fork_state_def)

lemma run_moves_reachable:
  "reachable forked (hs_step ps) s \<Longrightarrow> run_moves ps ws s = Some s' \<Longrightarrow> reachable forked (hs_step ps) s'"
proof (induction ws arbitrary: s)
  case Nil
  then show ?case by simp
next
  case (Cons w ws)
  from Cons.prems(2) obtain s1 where m: "move ps w s = Some s1" and r: "run_moves ps ws s1 = Some s'"
    by (auto split: option.splits)
  from Cons.IH [OF reach_step [OF Cons.prems(1) hs_move [OF m]] r] show ?case .
qed

text \<open>A schedule that ends in a state with property \<open>Q\<close> shows that such a state is reachable.\<close>

lemma run_reaches:
  "(case run_moves ps ws fork_state of None \<Rightarrow> False | Some s' \<Rightarrow> Q s') \<Longrightarrow>
     \<exists>s'. reachable forked (hs_step ps) s' \<and> Q s'"
  using run_moves_reachable [OF reach_init [of forked, OF forked_fork_state]] by (auto split: option.splits)

lemma relpowp_measure:
  assumes "(hs_step normal ^^ n) s0 s" and "hs_inv s0"
  shows "hs_inv s \<and> parent_pc s + child_pc s = n + parent_pc s0 + child_pc s0"
  using assms
proof (induction n arbitrary: s)
  case 0
  then show ?case by simp
next
  case (Suc n)
  then obtain s1 where "(hs_step normal ^^ n) s0 s1" and st: "hs_step normal s1 s" by auto
  with Suc have "hs_inv s1" "parent_pc s1 + child_pc s1 = n + parent_pc s0 + child_pc s0" by auto
  with hs_inv_step [OF _ st] show ?case by auto
qed

section \<open>Properties\<close>

text \<open>What holds in every state of a normal run.\<close>

definition milestones_ok :: "hs \<Rightarrow> bool" where
  "milestones_ok s \<longleftrightarrow>
     (executed s \<longrightarrow> start_written s \<and> own_group s) \<and> (prepared s \<longrightarrow> ready_written s \<and> own_group s)"

definition never_stuck :: "instr list \<Rightarrow> hs \<Rightarrow> party \<Rightarrow> pipe_name \<Rightarrow> bool" where
  "never_stuck ps s w p \<longleftrightarrow>
     (next_instr ps s w = Some (I_read p) \<longrightarrow> (p, WRITE_END) \<notin> set (ends s w)) \<and>
     (next_instr ps s w = Some (I_write p) \<longrightarrow> (p, READ_END) \<in> set (ends s (other w)))"

lemma state_at_ok:
  "\<forall>i \<in> set [0..<7]. \<forall>j \<in> set [0..<8]. coupled i j \<longrightarrow> milestones_ok (state_at i j) \<and>
     (\<forall>w \<in> set [Parent, Child]. \<forall>p \<in> set [Go, Ready]. never_stuck normal (state_at i j) w p)"
  by code_simp

text \<open>
  C6. The command waits for \<open>start()\<close>.  In a run in which both processes keep running and the
  parent goes from \<open>prepare\<close> to \<open>start\<close>, under any scheduling: the child executes the command
  only after the parent has written the go byte, and in a process group of its own; \<open>prepare\<close> returns
  only after the child has written the ready byte and is in that group, so that killing its group cannot hit
  the parent; no side that is about to read a pipe holds the write end of it, which would make it wait for
  itself; and a side about to write is not killed by that, since the other side can read.
\<close>

theorem handshake_safe:
  assumes "reachable forked (hs_step normal) s"
  shows "(executed s \<longrightarrow> start_written s \<and> own_group s) \<and> (prepared s \<longrightarrow> ready_written s \<and> own_group s) \<and>
    (\<forall>w p. next_instr normal s w = Some (I_read p) \<longrightarrow> (p, WRITE_END) \<notin> set (ends s w)) \<and>
    (\<forall>w p. next_instr normal s w = Some (I_write p) \<longrightarrow> (p, READ_END) \<in> set (ends s (other w))) \<and>
    dead s = []"
proof -
  from reachable_coupled [OF assms] obtain i j where c: "coupled i j" and s: "s = state_at i j" by blast
  note ok = state_at_ok [rule_format, of i j] coupled_cases [OF c]
  have "never_stuck normal s w p" for w p using ok c s by (cases w; cases p) simp_all
  moreover have "milestones_ok s" using ok c s by simp
  ultimately show ?thesis by (simp add: milestones_ok_def never_stuck_def s) (simp add: state_at_def)
qed

theorem handshake_safe_witness:
  "\<exists>s. reachable forked (hs_step normal) s \<and> executed s \<and> prepared s \<and> start_written s \<and> own_group s"
proof -
  let ?ws = "[Child, Parent, Child, Parent, Child, Child, Parent, Parent, Parent, Child, Child,
    Parent, Child]"
  have "case run_moves normal ?ws fork_state of None \<Rightarrow> False | Some s \<Rightarrow> executed s \<and> prepared s"
    by code_simp
  from run_reaches [OF this]
  obtain s where r: "reachable forked (hs_step normal) s" and m: "executed s" "prepared s" by blast
  from handshake_safe [OF r] r m show ?thesis by blast
qed

text \<open>
  C7. The handshake ends.  Under any scheduling it never blocks: as long as the parent has not
  finished or the child has not executed the command, one of the two can move; and every run
  has at most thirteen steps, the thirteenth leading to the state where \<open>start\<close> has returned
  and the command runs.
\<close>

theorem handshake_terminates:
  assumes "(hs_step normal ^^ n) fork_state s"
  shows "n \<le> 13 \<and> (if n < 13 then \<exists>s'. hs_step normal s s' else parent_pc s = 6 \<and> executed s)"
proof -
  have "fork_state = state_at 0 0"
    by (simp add: fork_state_def state_at_def ends_at_def all_ends_def)
  moreover have "coupled 0 0" by (simp add: coupled_def)
  ultimately have inv0: "hs_inv fork_state" unfolding hs_inv_def by blast
  from relpowp_measure [OF assms inv0] have inv: "hs_inv s" and n: "parent_pc s + child_pc s = n"
    by (simp_all add: fork_state_def)
  from inv obtain i j where c: "coupled i j" and s: "s = state_at i j" by (auto simp: hs_inv_def)
  with n have nij: "n = i + j" by (simp add: state_at_def)
  show ?thesis
  proof (cases "i = 6 \<and> j = 7")
    case True
    moreover have "executed (state_at 6 7)" by code_simp
    ultimately show ?thesis using s nij by simp
  next
    case False
    with progress_state_at [rule_format, of i j] coupled_cases [OF c] c
    have "\<exists>s'. hs_step normal s s'" unfolding s by (auto intro: hs_move)
    with False nij c show ?thesis by (auto simp: coupled_def)
  qed
qed

theorem handshake_terminates_witness:
  "\<exists>s. (hs_step normal ^^ 1) fork_state s \<and> (\<exists>s'. hs_step normal s s')"
proof -
  have "move normal Parent fork_state \<noteq> None" by code_simp
  then obtain s where "move normal Parent fork_state = Some s" by blast
  then have r: "(hs_step normal ^^ 1) fork_state s" by (auto intro!: hs_move)
  from handshake_terminates [OF r] r show ?thesis by auto
qed

text \<open>
  From \<open>s\<close> on the parent does nothing, and the child comes to its end in at most \<open>n\<close> steps without the go
  byte ever being written; it executes the command exactly if \<open>ready\<close>.
\<close>

fun orphan_ends :: "nat \<Rightarrow> bool \<Rightarrow> hs \<Rightarrow> bool" where
  "orphan_ends n ready s \<longleftrightarrow> \<not> start_written s \<and> next_instr normal s Parent = None \<and> (executed s \<longrightarrow> ready) \<and>
     (case move normal Child s of
        None \<Rightarrow> executed s = ready
      | Some s' \<Rightarrow> (case n of 0 \<Rightarrow> False | Suc m \<Rightarrow> orphan_ends m ready s'))"

declare orphan_ends.simps [simp del]

lemma orphans:
  "\<forall>i \<in> set [0..<5]. \<forall>j \<in> set [0..<8]. coupled i j \<longrightarrow>
     orphan_ends 7 (ready_written (state_at i j)) (die Parent (state_at i j))"
  by code_simp

lemma orphan_steps:
  assumes "orphan_ends m ready s" and "(hs_step normal ^^ n) s s'"
  shows "n \<le> m \<and> (\<exists>k. orphan_ends k ready s')"
  using assms
proof (induction n arbitrary: m s)
  case 0
  then show ?case by auto
next
  case (Suc n)
  from Suc.prems(2) obtain s1 where st: "hs_step normal s s1" and rest: "(hs_step normal ^^ n) s1 s'"
    by (metis relpowp_Suc_D2)
  from st obtain w where w: "move normal w s = Some s1" by (auto simp: hs_step_simps)
  have "next_instr normal s Parent = None" using Suc.prems(1) by (simp add: orphan_ends.simps [of m])
  with w have "w = Child" by (cases w) (simp_all add: move_def)
  with w Suc.prems(1) obtain k where "m = Suc k" "orphan_ends k ready s1"
    by (auto simp: orphan_ends.simps [of m] split: nat.splits)
  with Suc.IH [OF _ rest] show ?case by auto
qed

text \<open>
  C38. Without a parent the command starts anyway.  Let the parent die anywhere between the fork and
  the go byte.  Then the child, on its own, makes at most seven more steps and never waits for ever; if it wrote
  the ready byte before, it goes on to execute the command whenever it comes to its end, although \<open>start()\<close>
  was never called, since it takes the end of file for the go byte; if it did not, its own write kills it and
  the command is not executed.
\<close>

theorem crash_starts_command:
  assumes "reachable forked (hs_step normal) s" and "\<not> start_written s"
    and "(hs_step normal ^^ n) (die Parent s) s'"
  shows "n \<le> 7 \<and> \<not> start_written s' \<and> (executed s' \<longrightarrow> ready_written s) \<and>
    ((\<nexists>s''. hs_step normal s' s'') \<longrightarrow> (executed s' \<longleftrightarrow> ready_written s))"
proof -
  from reachable_coupled [OF assms(1)] obtain i j where c: "coupled i j" and s: "s = state_at i j" by blast
  with assms(2) have i: "i \<in> set [0..<5]" by (auto simp: start_written_def state_at_def coupled_def split: if_splits)
  from coupled_cases [OF c] have j: "j \<in> set [0..<8]" by blast
  from orphan_steps [OF orphans [rule_format, OF i j c] assms(3) [unfolded s]] obtain k where
    n: "n \<le> 7" and k: "orphan_ends k (ready_written s) s'" unfolding s by blast
  from k have "\<not> start_written s'" "executed s' \<longrightarrow> ready_written s"
    "move normal Child s' = None \<longrightarrow> executed s' = ready_written s"
    by (auto simp: orphan_ends.simps [of k] split: option.splits)
  moreover have "(\<nexists>s''. hs_step normal s' s'') \<longrightarrow> move normal Child s' = None" by (simp add: stuck_iff)
  ultimately show ?thesis using n by auto
qed

theorem crash_starts_command_witness:
  "\<exists>s s'. (hs_step normal ^^ 3) (die Parent s) s' \<and> \<not> start_written s \<and> ready_written s \<and> executed s' \<and> \<not> start_written s'"
proof -
  let ?before = "[Child, Child, Child, Child, Parent, Parent, Parent]"
  have "case run_moves normal ?before fork_state of None \<Rightarrow> False | Some s \<Rightarrow> \<not> start_written s \<and> ready_written s \<and>
      (case move normal Child (die Parent s) of None \<Rightarrow> False | Some s1 \<Rightarrow>
        (case move normal Child s1 of None \<Rightarrow> False | Some s2 \<Rightarrow>
          (case move normal Child s2 of None \<Rightarrow> False | Some s3 \<Rightarrow>
            move normal Child s3 = None \<and> move normal Parent s3 = None)))"
    by code_simp
  from run_reaches [OF this] obtain s where r: "reachable forked (hs_step normal) s"
    and s: "\<not> start_written s" "ready_written s"
    and runs: "case move normal Child (die Parent s) of None \<Rightarrow> False | Some s1 \<Rightarrow>
        (case move normal Child s1 of None \<Rightarrow> False | Some s2 \<Rightarrow>
          (case move normal Child s2 of None \<Rightarrow> False | Some s3 \<Rightarrow>
            move normal Child s3 = None \<and> move normal Parent s3 = None))" by blast
  from runs obtain s1 s2 s3 where m: "move normal Child (die Parent s) = Some s1" "move normal Child s1 = Some s2"
    "move normal Child s2 = Some s3" and over: "move normal Child s3 = None" "move normal Parent s3 = None"
    by (auto split: option.splits)
  from m have three: "(hs_step normal ^^ 3) (die Parent s) s3"
    by (auto simp: numeral_3_eq_3 intro: hs_move)
  have "\<nexists>s''. hs_step normal s3 s''" using over by (simp add: stuck_iff)
  with crash_starts_command [OF r s(1) three] three s show ?thesis by blast
qed

text \<open>
  Destroying a prepared process races with its command.  The destructor of an object that
  was prepared but never started closes the go pipe before it kills the child, and the child
  takes the end of file for the go signal: under some scheduling it executes the command before
  the kill.
\<close>

theorem destroy_races_with_command:
  "\<exists>s. reachable forked (hs_step (prepare_script @ destroy_script)) s \<and>
     executed s \<and> \<not> start_written s \<and> \<not> killed s"
proof -
  let ?ps = "prepare_script @ destroy_script"
  let ?ws = "[Child, Child, Child, Child, Child, Parent, Parent, Parent, Parent, Parent, Child, Child]"
  have "case run_moves ?ps ?ws fork_state of None \<Rightarrow> False
      | Some s \<Rightarrow> executed s \<and> \<not> start_written s \<and> \<not> killed s"
    by code_simp
  from run_reaches [OF this] show ?thesis by blast
qed

section \<open>The scripts are the code\<close>

text \<open>The parent's object after \<open>prepare\<close>: ready pipe closed, only the go pipe's write end open.\<close>

definition prepared_object :: "sync_process \<Rightarrow> sync_process" where
  "prepared_object s = s\<lparr>sp_go := (sp_go s)\<lparr>fd_read := -1\<rparr>, sp_ready := closed_pipe\<rparr>"

definition transfers_succeed :: "platform \<Rightarrow> sync_process \<Rightarrow> bool" where
  "transfers_succeed P s \<longleftrightarrow> close_succeeds P \<and>
     (\<forall>ep. is_open (sp_go s) ep \<and> is_open (sp_ready s) ep) \<and>
     (\<forall>t fd bs. rc (answer P t (Sys_write fd bs)) \<noteq> -1) \<and>
     (\<forall>t fd n. rc (answer P t (Sys_read fd n)) \<noteq> -1)"

lemma transfers_openD:
  assumes "transfers_succeed P s"
  shows "fd_read (sp_go s) \<noteq> -1" "fd_write (sp_go s) \<noteq> -1"
    "fd_read (sp_ready s) \<noteq> -1" "fd_write (sp_ready s) \<noteq> -1"
  using assms unfolding transfers_succeed_def is_open_def by (metis fd_of_simps(1,2))+

text \<open>
  C8. The interleaving model follows the code.  When closes and transfers succeed, the parent's
  half of \<open>prepare\<close>, the child's half, \<open>start\<close> and the destruction of a prepared object leave
  exactly the calls of their scripts in the log, in order (the destructor then waits for the
  child it killed).
\<close>

theorem scripts_are_the_code:
  assumes ok: "transfers_succeed P s"
    and me: "rc (answer P t Sys_getpid) = me"
    and fds: "a = fd_read (sp_go s)" "b = fd_write (sp_go s)"
      "c = fd_read (sp_ready s)" "d = fd_write (sp_ready s)"
    and running: "started (sp_process s)" "\<not> terminated (sp_process s)"
    and kill: "\<And>u. rc (answer P u (Sys_kill (proc_pid (sp_process s)) (sigkill P))) \<noteq> -1"
  shows "wait_for_child P (s, t) =
      (Inr (), (prepared_object s,
        t @ concat (map (instr_calls P a b c d junk pid args) prepare_script))) \<and>
    snd (snd (wait_for_parent P junk (s, t))) =
      t @ concat (map (instr_calls P a b c d junk me args) (butlast child_script)) \<and>
    snd (snd (sync_start P (prepared_object s, t))) =
      t @ concat (map (instr_calls P a b c d junk pid args) start_script) \<and>
    snd (snd (sync_delete P (prepared_object s, t))) =
      t @ concat (map (instr_calls P a b c d junk (proc_pid (sp_process s)) args) destroy_script)
        @ [Sys_waitpid (proc_pid (sp_process s))]"
  using assms transfers_openD [OF ok]
  by (simp add: transfers_succeed_def wait_for_child_def wait_for_parent_def sync_start_def
      sync_delete_def prepared_object_def closed_pipe_def member_defs pipe_defs process_defs
      is_open_def close_succeeds_def script_defs destroy_script_def act_simps)

theorem scripts_are_the_code_witness:
  "snd (snd (sync_start good_platform (prepared_object (put_process
       \<lparr>proc_args = [], proc_pid = 7, proc_status = 0, proc_terminated = False\<rparr>
       (fresh_sync [] 0 3 4 5 6)), []))) = [Sys_write 4 [0], Sys_close 4]"
proof -
  let ?s = "put_process \<lparr>proc_args = [], proc_pid = 7, proc_status = 0, proc_terminated = False\<rparr>
       (fresh_sync [] 0 3 4 5 6)"
  have ok: "transfers_succeed good_platform ?s"
    by (simp add: transfers_succeed_def close_succeeds_def put_process_def fresh_sync_def
        is_open_def fd_of_def split: end_point.split)
  have run: "started (sp_process ?s)" "\<not> terminated (sp_process ?s)"
    by (simp_all add: put_process_def started_def terminated_def)
  show ?thesis
    using scripts_are_the_code [OF ok refl refl refl refl refl run, of "[]"]
    by (simp add: put_process_def fresh_sync_def start_script_def)
qed

end
