(* ===== verification/Concurrent_Queue.thy ===== *)
theory Concurrent_Queue
  imports Prelude
begin

text \<open>
  \<open>util/concurrent_queue\<close>: the operations as they take effect while the mutex is held, and the
  interface other components use them through.  How threads interleave inside the operations is
  the subject of \<open>Queue_Threads\<close>.
\<close>

record 'a cqueue =
  queue :: "'a list"

definition cq_empty :: "'a cqueue" where
  "cq_empty = \<lparr>queue = []\<rparr>"

definition cq_push :: "'a \<Rightarrow> 'a cqueue \<Rightarrow> 'a cqueue" where
  "cq_push value q = q\<lparr>queue := queue q @ [value]\<rparr>"

text \<open>The blocking \<open>pop\<close>; \<open>None\<close> while the caller has to wait.\<close>

definition cq_pop :: "'a cqueue \<Rightarrow> ('a \<times> 'a cqueue) option" where
  "cq_pop q = (case queue q of [] \<Rightarrow> None | value # rest \<Rightarrow> Some (value, q\<lparr>queue := rest\<rparr>))"

text \<open>
  The \<open>pop\<close> with a timeout, at the moment its wait is over: the pair it returns is
  value-initialised (\<open>dflt\<close>) and filled in if an element was found.
\<close>

definition cq_pop_timeout :: "'a \<Rightarrow> 'a cqueue \<Rightarrow> (bool \<times> 'a) \<times> 'a cqueue" where
  "cq_pop_timeout dflt q =
     (case queue q of
        [] \<Rightarrow> ((False, dflt), q)
      | value # rest \<Rightarrow> ((True, value), q\<lparr>queue := rest\<rparr>))"

section \<open>The interface\<close>

fun pop_n :: "('q \<Rightarrow> ('a \<times> 'q) option) \<Rightarrow> nat \<Rightarrow> 'q \<Rightarrow> ('a list \<times> 'q) option" where
  "pop_n pop 0 q = Some ([], q)"
| "pop_n pop (Suc n) q =
     (case pop q of
        None \<Rightarrow> None
      | Some (v, q') \<Rightarrow> (case pop_n pop n q' of None \<Rightarrow> None | Some (vs, q'') \<Rightarrow> Some (v # vs, q'')))"

locale fifo =
  fixes push :: "'a \<Rightarrow> 'q \<Rightarrow> 'q"
    and pop :: "'q \<Rightarrow> ('a \<times> 'q) option"
    and items :: "'q \<Rightarrow> 'a list"
  assumes items_push: "items (push v q) = items q @ [v]"
    and pop_blocks: "pop q = None \<longleftrightarrow> items q = []"
    and pop_front: "pop q = Some (v, q') \<Longrightarrow> items q = v # items q'"
begin

lemma items_push_all: "items (fold push vs q) = items q @ vs"
  by (induction vs arbitrary: q) (simp_all add: items_push)

lemma pop_some: "items q = v # vs \<Longrightarrow> \<exists>q'. pop q = Some (v, q') \<and> items q' = vs"
  using pop_blocks [of q] pop_front by (cases "pop q") fastforce+

lemma pop_n_front:
  "\<exists>q'. pop_n pop n q = Some (take n (items q), q') \<and> items q' = drop n (items q)"
  if "n \<le> length (items q)"
  using that
proof (induction n arbitrary: q)
  case 0
  then show ?case by simp
next
  case (Suc n)
  then obtain v vs where iq: "items q = v # vs" by (cases "items q") auto
  then obtain q1 where 1: "pop q = Some (v, q1)" "items q1 = vs" using pop_some by blast
  with Suc iq obtain q2 where "pop_n pop n q1 = Some (take n vs, q2)" "items q2 = drop n vs"
    by fastforce
  with 1 iq show ?case by simp
qed

lemma pop_n_blocks: "length (items q) < n \<Longrightarrow> pop_n pop n q = None"
proof (induction n arbitrary: q)
  case 0
  then show ?case by simp
next
  case (Suc n)
  show ?case
  proof (cases "pop q")
    case None
    then show ?thesis by simp
  next
    case (Some p)
    obtain v q1 where p: "p = (v, q1)" by (cases p)
    with Some pop_front have "items q = v # items q1" by blast
    with Suc have "pop_n pop n q1 = None" by simp
    with Some p show ?thesis by simp
  qed
qed

end

locale timed_fifo = fifo push pop items
  for push :: "'a \<Rightarrow> 'q \<Rightarrow> 'q" and pop :: "'q \<Rightarrow> ('a \<times> 'q) option" and items :: "'q \<Rightarrow> 'a list" +
  fixes try_pop :: "'a \<Rightarrow> 'q \<Rightarrow> (bool \<times> 'a) \<times> 'q"
  assumes try_pop_eq:
    "try_pop d q = (case pop q of None \<Rightarrow> ((False, d), q) | Some (v, q') \<Rightarrow> ((True, v), q'))"
begin

lemma try_pop_found: "try_pop d q = ((True, v), q') \<Longrightarrow> items q = v # items q'"
  by (auto simp: try_pop_eq dest: pop_front split: option.splits)

lemma try_pop_not_found: "try_pop d q = ((False, v), q') \<longleftrightarrow> items q = [] \<and> v = d \<and> q' = q"
  using pop_blocks [of q] by (auto simp: try_pop_eq split: option.splits)

lemma try_pop_shrinks: "try_pop d q = ((True, v), q') \<Longrightarrow> length (items q') < length (items q)"
  by (drule try_pop_found) simp

end

interpretation cq: timed_fifo cq_push cq_pop queue cq_pop_timeout
  by unfold_locales
    (auto simp: cq_push_def cq_pop_def cq_pop_timeout_def split: list.splits)

section \<open>Properties\<close>

text \<open>
  First in, first out.  After any values are pushed onto a queue, popping returns what was
  in it before and then these values, in that order; popping once more than there are elements
  blocks.
\<close>

theorem queue_fifo:
  "\<exists>q'. pop_n cq_pop (length (queue q @ vs)) (fold cq_push vs q) = Some (queue q @ vs, q') \<and>
     queue q' = [] \<and> pop_n cq_pop (Suc (length (queue q @ vs))) (fold cq_push vs q) = None"
  using cq.pop_n_front [of "length (queue q @ vs)" "fold cq_push vs q"]
    cq.pop_n_blocks [of "fold cq_push vs q" "Suc (length (queue q @ vs))"]
  by (simp add: cq.items_push_all)

end
