(* ===== verification/Queue_Threads.thy ===== *)
theory Queue_Threads
  imports Concurrent_Queue
begin

text \<open>
  Threads inside \<open>util/concurrent_queue\<close>.  Any number of threads push and pop, each step being
  one of the mutex and condition variable operations of the code: lock, change the queue,
  unlock, \<open>notify_one\<close>; lock, test, wait, be woken (by a notification, spuriously, or by the
  timeout), lock again, test again, take the front, unlock.
\<close>

section \<open>Threads\<close>

datatype 'a qpc =
    Idle
  | Push_lock 'a
  | Push_locked 'a
  | Push_unlock
  | Push_notify
  | Pop_lock bool
  | Pop_test bool
  | Pop_sleep bool
  | Pop_woken bool
  | Pop_timed_out
  | Pop_last_test
  | Pop_unlock "'a option"

text \<open>
  The flag of the \<open>Pop\<close> positions says whether the call has a timeout.  \<open>pushed\<close> and
  \<open>popped\<close> are histories, kept for the specification.
\<close>

record 'a qsys =
  items :: "'a list"
  owner :: "nat option"
  pcs :: "'a qpc list"
  pushed :: "'a list"
  popped :: "'a list"

definition at :: "'a qsys \<Rightarrow> nat \<Rightarrow> 'a qpc \<Rightarrow> bool" where
  "at s i pc \<longleftrightarrow> i < length (pcs s) \<and> pcs s ! i = pc"

definition goto :: "nat \<Rightarrow> 'a qpc \<Rightarrow> 'a qsys \<Rightarrow> 'a qsys" where
  "goto i pc s = s\<lparr>pcs := (pcs s)[i := pc]\<rparr>"

definition q_init :: "nat \<Rightarrow> 'a qsys \<Rightarrow> bool" where
  "q_init n s \<longleftrightarrow> s = \<lparr>items = [], owner = None, pcs = replicate n Idle, pushed = [], popped = []\<rparr>"

text \<open>What happens inside a call without help from outside.\<close>

inductive q_internal :: "'a qsys \<Rightarrow> 'a qsys \<Rightarrow> bool" where
  push_lock: "at s i (Push_lock v) \<Longrightarrow> owner s = None \<Longrightarrow>
    q_internal s (goto i (Push_locked v) (s\<lparr>owner := Some i\<rparr>))"
| push_do: "at s i (Push_locked v) \<Longrightarrow>
    q_internal s (goto i Push_unlock (s\<lparr>items := items s @ [v], pushed := pushed s @ [v]\<rparr>))"
| push_unlock: "at s i Push_unlock \<Longrightarrow>
    q_internal s (goto i Push_notify (s\<lparr>owner := None\<rparr>))"
| notify_nobody: "at s i Push_notify \<Longrightarrow> \<forall>j t. \<not> at s j (Pop_sleep t) \<Longrightarrow>
    q_internal s (goto i Idle s)"
| notify_one: "at s i Push_notify \<Longrightarrow> at s j (Pop_sleep t) \<Longrightarrow>
    q_internal s (goto j (Pop_woken t) (goto i Idle s))"
| pop_lock: "at s i (Pop_lock t) \<Longrightarrow> owner s = None \<Longrightarrow>
    q_internal s (goto i (Pop_test t) (s\<lparr>owner := Some i\<rparr>))"
| pop_wait: "at s i (Pop_test t) \<Longrightarrow> items s = [] \<Longrightarrow>
    q_internal s (goto i (Pop_sleep t) (s\<lparr>owner := None\<rparr>))"
| pop_relock: "at s i (Pop_woken t) \<Longrightarrow> owner s = None \<Longrightarrow>
    q_internal s (goto i (Pop_test t) (s\<lparr>owner := Some i\<rparr>))"
| pop_take: "at s i pc \<Longrightarrow> pc = Pop_test t \<or> pc = Pop_last_test \<Longrightarrow> items s = v # vs \<Longrightarrow>
    q_internal s (goto i (Pop_unlock (Some v)) (s\<lparr>items := vs, popped := popped s @ [v]\<rparr>))"
| pop_last_lock: "at s i Pop_timed_out \<Longrightarrow> owner s = None \<Longrightarrow>
    q_internal s (goto i Pop_last_test (s\<lparr>owner := Some i\<rparr>))"
| pop_give_up: "at s i Pop_last_test \<Longrightarrow> items s = [] \<Longrightarrow>
    q_internal s (goto i (Pop_unlock None) s)"
| pop_unlock: "at s i (Pop_unlock r) \<Longrightarrow>
    q_internal s (goto i Idle (s\<lparr>owner := None\<rparr>))"

text \<open>What comes from outside: new calls, spurious wakeups, the clock.\<close>

inductive q_external :: "'a qsys \<Rightarrow> 'a qsys \<Rightarrow> bool" where
  call_push: "at s i Idle \<Longrightarrow> q_external s (goto i (Push_lock v) s)"
| call_pop: "at s i Idle \<Longrightarrow> q_external s (goto i (Pop_lock t) s)"
| spurious: "at s i (Pop_sleep t) \<Longrightarrow> q_external s (goto i (Pop_woken t) s)"
| timeout: "at s i (Pop_sleep True) \<Longrightarrow> q_external s (goto i Pop_timed_out s)"

definition q_step :: "'a qsys \<Rightarrow> 'a qsys \<Rightarrow> bool" where
  "q_step s s' \<longleftrightarrow> q_internal s s' \<or> q_external s s'"

section \<open>Invariant\<close>

fun locked :: "'a qpc \<Rightarrow> bool" where
  "locked (Push_locked _) = True"
| "locked Push_unlock = True"
| "locked (Pop_test _) = True"
| "locked Pop_last_test = True"
| "locked (Pop_unlock _) = True"
| "locked _ = False"

fun asleep :: "'a qpc \<Rightarrow> bool" where
  "asleep (Pop_sleep _) = True"
| "asleep _ = False"

text \<open>Threads that still owe a notification, or that will look at the queue without needing one.\<close>

fun attentive :: "'a qpc \<Rightarrow> bool" where
  "attentive Push_unlock = True"
| "attentive Push_notify = True"
| "attentive (Pop_lock _) = True"
| "attentive (Pop_test _) = True"
| "attentive (Pop_woken _) = True"
| "attentive Pop_timed_out = True"
| "attentive Pop_last_test = True"
| "attentive _ = False"

definition lock_inv :: "'a qsys \<Rightarrow> bool" where
  "lock_inv s \<longleftrightarrow> mutex_ok locked (owner s) (pcs s)"

definition history_inv :: "'a qsys \<Rightarrow> bool" where
  "history_inv s \<longleftrightarrow> pushed s = popped s @ items s"

text \<open>
  While somebody sleeps, there are at least as many attentive threads as elements: this is what
  makes one \<open>notify_one\<close> per push enough.
\<close>

definition wakeup_inv :: "'a qsys \<Rightarrow> bool" where
  "wakeup_inv s \<longleftrightarrow>
     (0 < count_in asleep (pcs s) \<longrightarrow> length (items s) \<le> count_in attentive (pcs s))"

definition q_inv :: "'a qsys \<Rightarrow> bool" where
  "q_inv s \<longleftrightarrow> lock_inv s \<and> history_inv s \<and> wakeup_inv s"

lemma goto_simps [simp]:
  "items (goto i pc s) = items s" "owner (goto i pc s) = owner s"
  "pushed (goto i pc s) = pushed s" "popped (goto i pc s) = popped s"
  "pcs (goto i pc s) = (pcs s)[i := pc]"
  by (simp_all add: goto_def)

text \<open>Moving one thread changes a count by the difference of its two positions.\<close>

lemma count_goto:
  "at s i pc \<Longrightarrow> count_in Q ((pcs s)[i := pc']) + (if Q pc then 1 else 0) =
     count_in Q (pcs s) + (if Q pc' then 1 else 0)"
  using count_in_update [of i "pcs s" Q pc'] by (auto simp: at_def)

lemma lock_inv_move:
  assumes "lock_inv s" and "at s i pc" and "pcs s' = (pcs s)[i := pc']"
    and "if locked pc' then owner s' = Some i \<and> (locked pc \<or> owner s = None)
      else owner s' = (if locked pc then None else owner s)"
  shows "lock_inv s'"
  using assms mutex_move [of locked "owner s" "pcs s" i pc' "owner s'"]
  by (auto simp: lock_inv_def at_def)

lemma lock_inv_owner: "lock_inv s \<Longrightarrow> at s i pc \<Longrightarrow> locked pc \<Longrightarrow> owner s = Some i"
  using mutex_inside by (auto simp: lock_inv_def at_def)

lemma lock_inv_internal:
  assumes "q_internal s s'" and inv: "lock_inv s"
  shows "lock_inv s'"
  using assms(1)
proof cases
  case (notify_one i j t)
  then have "lock_inv (goto i Idle s)" and "at (goto i Idle s) j (Pop_sleep t)"
    using inv by (auto intro: lock_inv_move) (cases "i = j"; simp add: at_def)
  with notify_one show ?thesis by (auto intro: lock_inv_move)
qed (auto intro!: lock_inv_move [OF inv] dest: lock_inv_owner [OF inv])

lemma lock_inv_external:
  assumes "q_external s s'" and inv: "lock_inv s"
  shows "lock_inv s'"
  using assms(1) by cases (auto intro!: lock_inv_move [OF inv])

lemma history_inv_step: "history_inv s \<Longrightarrow> q_step s s' \<Longrightarrow> history_inv s'"
  unfolding q_step_def
  by (elim disjE q_internal.cases q_external.cases) (simp_all add: history_inv_def)

lemma wakeup_move:
  assumes "wakeup_inv s" and "at s i pc" and "pcs s' = (pcs s)[i := pc']"
    and "items s' = [] \<or> \<not> asleep pc' \<and>
      length (items s') + (if attentive pc then 1 else 0) \<le>
      length (items s) + (if attentive pc' then 1 else 0)"
  shows "wakeup_inv s'"
  using assms(1,4) count_goto [OF assms(2), of asleep pc'] count_goto [OF assms(2), of attentive pc']
  by (auto simp: wakeup_inv_def assms(3) split: if_splits)

lemma nobody_asleep: "\<forall>j t. \<not> at s j (Pop_sleep t) \<Longrightarrow> count_in asleep (pcs s) = 0"
  using count_in_witness [of asleep "pcs s"] by (auto simp: at_def elim!: asleep.elims)

lemma wakeup_notify_one:
  assumes "wakeup_inv s" and "at s i Push_notify" and "at s j (Pop_sleep t)"
  shows "wakeup_inv (goto j (Pop_woken t) (goto i Idle s))"
proof -
  from assms(2,3) have j: "at (goto i Idle s) j (Pop_sleep t)"
    by (cases "i = j") (simp_all add: at_def)
  have "0 < count_in asleep (pcs s)"
    using assms(3) by (auto simp: at_def intro!: count_in_pos)
  with assms(1) have "length (items s) \<le> count_in attentive (pcs s)" by (simp add: wakeup_inv_def)
  then show ?thesis
    using count_goto [OF assms(2), of attentive Idle] count_goto [OF j, of attentive "Pop_woken t"]
    by (simp add: wakeup_inv_def)
qed

lemma wakeup_inv_internal:
  assumes "q_internal s s'" and "wakeup_inv s"
  shows "wakeup_inv s'"
  using assms
proof cases
  case (notify_nobody i)
  with nobody_asleep [of s] count_goto [of s i Push_notify asleep Idle] show ?thesis
    by (auto simp: wakeup_inv_def)
next
  case (notify_one i j t)
  with assms(2) wakeup_notify_one show ?thesis by blast
qed (use assms(2) in \<open>auto intro: wakeup_move\<close>)

lemma wakeup_inv_external:
  assumes "q_external s s'" and "wakeup_inv s"
  shows "wakeup_inv s'"
  using assms by cases (auto intro: wakeup_move)

lemma q_inv_step: "q_inv s \<Longrightarrow> q_step s s' \<Longrightarrow> q_inv s'"
  using lock_inv_internal lock_inv_external history_inv_step wakeup_inv_internal wakeup_inv_external
  unfolding q_inv_def q_step_def by blast

interpretation queue_threads: invariant "q_init n" q_step q_inv for n
proof unfold_locales
  fix s :: "'a qsys"
  assume "q_init n s"
  then show "q_inv s"
    by (auto simp: q_init_def q_inv_def lock_inv_def history_inv_def wakeup_inv_def count_in_def
        intro: mutex_start)
qed (rule q_inv_step)

section \<open>Progress\<close>

text \<open>A thread that holds the lock can always go on.\<close>

lemma pop_test_can_step: "at s i pc \<Longrightarrow> pc = Pop_test t \<or> pc = Pop_last_test \<Longrightarrow> \<exists>s'. q_internal s s'"
  using pop_wait [of s i] pop_give_up [of s i] pop_take [of s i pc t]
  by (cases "items s") blast+

lemma locked_can_step:
  assumes "i < length (pcs s)" and "locked (pcs s ! i)"
  shows "\<exists>s'. q_internal s s'"
proof -
  from assms(1) have "at s i (pcs s ! i)" by (simp add: at_def)
  with assms(2) show ?thesis
    by (cases "pcs s ! i") (auto dest: push_do push_unlock pop_unlock pop_test_can_step)
qed

lemma notify_can_step: "at s i Push_notify \<Longrightarrow> \<exists>s'. q_internal s s'"
  using notify_nobody [of s i] notify_one [of s i] by blast

lemma attentive_can_step:
  assumes "lock_inv s" and "i < length (pcs s)" and "attentive (pcs s ! i)"
  shows "\<exists>s'. q_internal s s'"
proof (cases "owner s")
  case (Some j)
  with assms(1) have "j < length (pcs s)" "locked (pcs s ! j)"
    by (auto simp: lock_inv_def dest: mutex_owner)
  then show ?thesis by (rule locked_can_step)
next
  case None
  from assms(2) have "at s i (pcs s ! i)" by (simp add: at_def)
  with None assms(3) locked_can_step [OF assms(2)] show ?thesis
    by (cases "pcs s ! i") (auto dest: pop_lock pop_relock pop_last_lock notify_can_step)
qed

section \<open>Properties\<close>

text \<open>
  C11. Mutual exclusion and order.  However the threads interleave, at most one of them is
  inside the critical section, and the values popped so far followed by the values still
  queued are exactly the values pushed, in the order of the pushes: nothing is lost, duplicated
  or reordered.
\<close>

theorem queue_threads_linear:
  assumes "reachable (q_init n) q_step s"
  shows "pushed s = popped s @ items s \<and>
    (\<forall>i < length (pcs s). \<forall>j < length (pcs s).
       locked (pcs s ! i) \<and> locked (pcs s ! j) \<longrightarrow> i = j)"
  using queue_threads.reachable_inv [OF assms]
  by (auto simp: q_inv_def history_inv_def lock_inv_def dest: mutex_excl)

text \<open>
  C12. No lost wakeup.  Whenever the queue holds an element while some thread sleeps in
  \<open>pop\<close>, some thread is on its way to notify it or to take the element itself, and the threads
  can make a step without any help from outside (no new call, no spurious wakeup, no timeout).
\<close>

theorem queue_no_lost_wakeup:
  assumes "reachable (q_init n) q_step s"
    and "items s \<noteq> []" and "at s i (Pop_sleep t)"
  shows "(\<exists>j < length (pcs s). attentive (pcs s ! j)) \<and> (\<exists>s'. q_internal s s')"
proof -
  from queue_threads.reachable_inv [OF assms(1)] have inv: "lock_inv s" "wakeup_inv s"
    by (simp_all add: q_inv_def)
  from assms(3) have "0 < count_in asleep (pcs s)" by (auto simp: at_def intro!: count_in_pos)
  with inv(2) assms(2) have "0 < count_in attentive (pcs s)"
    by (auto simp: wakeup_inv_def Suc_le_eq dest: order_less_le_trans [rotated])
  then obtain j where "j < length (pcs s)" "attentive (pcs s ! j)"
    using count_in_witness by blast
  with attentive_can_step [OF inv(1)] show ?thesis by blast
qed

text \<open>
  A concrete run for the hypotheses: thread 0 goes to sleep in \<open>pop\<close>, thread 1 pushes 5 and has
  released the lock but not yet notified.
\<close>

definition sleeping_example :: "nat qsys" where
  "sleeping_example = \<lparr>items = [5], owner = None, pcs = [Pop_sleep False, Push_notify],
     pushed = [5], popped = []\<rparr>"

lemma stepI: "q_internal s s' \<Longrightarrow> q_step s s'" "q_external s s' \<Longrightarrow> q_step s s'"
  by (simp_all add: q_step_def)

lemma sleeping_example_reachable: "reachable (q_init 2) q_step sleeping_example"
proof -
  let ?s = "\<lambda>it ow p pu. \<lparr>items = it, owner = ow, pcs = p, pushed = pu, popped = ([]::nat list)\<rparr>"
  have "reachable (q_init 2) q_step (?s [] None [Idle, Idle] [])"
    by (rule reach_init) (simp add: q_init_def numeral_2_eq_2)
  from reach_step [OF this stepI(2) [OF call_pop [of _ 0 False]]]
  have "reachable (q_init 2) q_step (?s [] None [Pop_lock False, Idle] [])"
    by (simp add: at_def goto_def)
  from reach_step [OF this stepI(1) [OF pop_lock [of _ 0 False]]]
  have "reachable (q_init 2) q_step (?s [] (Some 0) [Pop_test False, Idle] [])"
    by (simp add: at_def goto_def)
  from reach_step [OF this stepI(1) [OF pop_wait [of _ 0 False]]]
  have "reachable (q_init 2) q_step (?s [] None [Pop_sleep False, Idle] [])"
    by (simp add: at_def goto_def)
  from reach_step [OF this stepI(2) [OF call_push [of _ 1 5]]]
  have "reachable (q_init 2) q_step (?s [] None [Pop_sleep False, Push_lock 5] [])"
    by (simp add: at_def goto_def)
  from reach_step [OF this stepI(1) [OF push_lock [of _ 1 5]]]
  have "reachable (q_init 2) q_step (?s [] (Some 1) [Pop_sleep False, Push_locked 5] [])"
    by (simp add: at_def goto_def)
  from reach_step [OF this stepI(1) [OF push_do [of _ 1 5]]]
  have "reachable (q_init 2) q_step (?s [5] (Some 1) [Pop_sleep False, Push_unlock] [5])"
    by (simp add: at_def goto_def)
  from reach_step [OF this stepI(1) [OF push_unlock [of _ 1]]]
  show ?thesis by (simp add: at_def goto_def sleeping_example_def)
qed

theorem queue_threads_linear_witness:
  "reachable (q_init 2) q_step sleeping_example \<and>
     pushed sleeping_example = popped sleeping_example @ items sleeping_example"
  using queue_threads_linear [OF sleeping_example_reachable] sleeping_example_reachable by blast

theorem queue_no_lost_wakeup_witness:
  "items sleeping_example \<noteq> [] \<and> at sleeping_example 0 (Pop_sleep False) \<and>
     (\<exists>s'. q_internal sleeping_example s')"
proof -
  have h: "items sleeping_example \<noteq> []" "at sleeping_example 0 (Pop_sleep False)"
    by (simp_all add: sleeping_example_def at_def)
  from queue_no_lost_wakeup [OF sleeping_example_reachable h] h show ?thesis by blast
qed

end
