(* ===== verification/Thread_Sync.thy ===== *)
theory Thread_Sync
  imports Prelude
begin

text \<open>
  \<open>util/thread\<close> and \<open>util/timer\<close>: the boolean \<open>condition\<close> on which threads wait, \<open>is_ready\<close>
  for futures, and \<open>callback_timer\<close> with its thread.  As in \<open>Queue_Threads\<close>, a step is one
  operation on the mutex or the condition variable.
\<close>

section \<open>\<open>condition\<close>\<close>

datatype cpc =
    C_idle
  | Wait_lock
  | Wait_test
  | Wait_sleep
  | Wait_woken
  | Wait_unlock
  | Notify_lock
  | Notify_set
  | Notify_unlock
  | Notify_all
  | Wait_done
  | Notify_done

record cond =
  ready :: bool
  c_owner :: "nat option"
  c_pcs :: "cpc list"

definition c_at :: "cond \<Rightarrow> nat \<Rightarrow> cpc \<Rightarrow> bool" where
  "c_at s i pc \<longleftrightarrow> i < length (c_pcs s) \<and> c_pcs s ! i = pc"

definition c_goto :: "nat \<Rightarrow> cpc \<Rightarrow> cond \<Rightarrow> cond" where
  "c_goto i pc s = s\<lparr>c_pcs := (c_pcs s)[i := pc]\<rparr>"

definition wake :: "cpc \<Rightarrow> cpc" where
  "wake pc = (if pc = Wait_sleep then Wait_woken else pc)"

definition c_init :: "nat \<Rightarrow> cond \<Rightarrow> bool" where
  "c_init n s \<longleftrightarrow> s = \<lparr>ready = False, c_owner = None, c_pcs = replicate n C_idle\<rparr>"

inductive c_internal :: "cond \<Rightarrow> cond \<Rightarrow> bool" where
  wait_lock: "c_at s i Wait_lock \<Longrightarrow> c_owner s = None \<Longrightarrow>
    c_internal s (c_goto i Wait_test (s\<lparr>c_owner := Some i\<rparr>))"
| wait_relock: "c_at s i Wait_woken \<Longrightarrow> c_owner s = None \<Longrightarrow>
    c_internal s (c_goto i Wait_test (s\<lparr>c_owner := Some i\<rparr>))"
| wait_sleep: "c_at s i Wait_test \<Longrightarrow> \<not> ready s \<Longrightarrow>
    c_internal s (c_goto i Wait_sleep (s\<lparr>c_owner := None\<rparr>))"
| wait_over: "c_at s i Wait_test \<Longrightarrow> ready s \<Longrightarrow> c_internal s (c_goto i Wait_unlock s)"
| wait_return: "c_at s i Wait_unlock \<Longrightarrow> c_internal s (c_goto i Wait_done (s\<lparr>c_owner := None\<rparr>))"
| notify_lock: "c_at s i Notify_lock \<Longrightarrow> c_owner s = None \<Longrightarrow>
    c_internal s (c_goto i Notify_set (s\<lparr>c_owner := Some i\<rparr>))"
| notify_set: "c_at s i Notify_set \<Longrightarrow>
    c_internal s (c_goto i Notify_unlock (s\<lparr>ready := True\<rparr>))"
| notify_unlock: "c_at s i Notify_unlock \<Longrightarrow>
    c_internal s (c_goto i Notify_all (s\<lparr>c_owner := None\<rparr>))"
| notify_all: "c_at s i Notify_all \<Longrightarrow>
    c_internal s (s\<lparr>c_pcs := map wake ((c_pcs s)[i := Notify_done])\<rparr>)"

inductive c_external :: "cond \<Rightarrow> cond \<Rightarrow> bool" where
  call_wait: "c_at s i C_idle \<Longrightarrow> c_external s (c_goto i Wait_lock s)"
| call_notify: "c_at s i C_idle \<Longrightarrow> c_external s (c_goto i Notify_lock s)"
| c_spurious: "c_at s i Wait_sleep \<Longrightarrow> c_external s (c_goto i Wait_woken s)"

definition c_step :: "cond \<Rightarrow> cond \<Rightarrow> bool" where
  "c_step s s' \<longleftrightarrow> c_internal s s' \<or> c_external s s'"

fun c_locked :: "cpc \<Rightarrow> bool" where
  "c_locked Wait_test = True"
| "c_locked Wait_unlock = True"
| "c_locked Notify_set = True"
| "c_locked Notify_unlock = True"
| "c_locked _ = False"

fun past_ready :: "cpc \<Rightarrow> bool" where
  "past_ready Wait_unlock = True"
| "past_ready Wait_done = True"
| "past_ready Notify_unlock = True"
| "past_ready Notify_all = True"
| "past_ready Notify_done = True"
| "past_ready _ = False"

fun notifying :: "cpc \<Rightarrow> bool" where
  "notifying Notify_unlock = True"
| "notifying Notify_all = True"
| "notifying _ = False"

definition c_lock_inv :: "cond \<Rightarrow> bool" where
  "c_lock_inv s \<longleftrightarrow> mutex_ok c_locked (c_owner s) (c_pcs s)"

text \<open>Whoever is past the test in \<open>wait\<close>, or past the assignment in \<open>notify\<close>, has seen it ready.\<close>

definition c_ready_inv :: "cond \<Rightarrow> bool" where
  "c_ready_inv s \<longleftrightarrow> (0 < count_in past_ready (c_pcs s) \<longrightarrow> ready s)"

text \<open>A thread that sleeps although the condition is ready is still owed its notification.\<close>

definition c_wake_inv :: "cond \<Rightarrow> bool" where
  "c_wake_inv s \<longleftrightarrow>
     (ready s \<and> 0 < count_in ((=) Wait_sleep) (c_pcs s) \<longrightarrow> 0 < count_in notifying (c_pcs s))"

definition c_inv :: "cond \<Rightarrow> bool" where
  "c_inv s \<longleftrightarrow> c_lock_inv s \<and> c_ready_inv s \<and> c_wake_inv s"

lemma c_goto_simps [simp]:
  "ready (c_goto i pc s) = ready s" "c_owner (c_goto i pc s) = c_owner s"
  "c_pcs (c_goto i pc s) = (c_pcs s)[i := pc]"
  by (simp_all add: c_goto_def)

lemma wake_simps [simp]:
  "c_locked (wake pc) = c_locked pc" "past_ready (wake pc) = past_ready pc"
  "notifying (wake pc) = notifying pc" "Wait_sleep \<noteq> wake pc"
  by (auto simp: wake_def)

lemma count_wake [simp]:
  "count_in past_ready (map wake ps) = count_in past_ready ps"
  "count_in notifying (map wake ps) = count_in notifying ps"
  "count_in ((=) Wait_sleep) (map wake ps) = 0"
  by (simp_all add: count_in_def filter_map comp_def)

text \<open>The counts a step of one thread changes.\<close>

lemma c_count:
  assumes "c_at s i pc"
  shows "count_in Q ((c_pcs s)[i := pc']) =
    count_in Q (c_pcs s) + (if Q pc' then 1 else 0) - (if Q pc then 1 else 0)"
    and "Q pc \<Longrightarrow> 0 < count_in Q (c_pcs s)"
  using assms count_in_update [of i "c_pcs s" Q pc'] count_in_pos [of i "c_pcs s" Q]
  by (auto simp: c_at_def)

lemma c_lock_move:
  assumes "c_lock_inv s" and "c_at s i pc" and "c_pcs s' = (c_pcs s)[i := pc']"
    and "if c_locked pc' then c_owner s' = Some i \<and> (c_locked pc \<or> c_owner s = None)
      else c_owner s' = (if c_locked pc then None else c_owner s)"
  shows "c_lock_inv s'"
  using assms mutex_move [of c_locked "c_owner s" "c_pcs s" i pc' "c_owner s'"]
  by (auto simp: c_lock_inv_def c_at_def)

lemma c_lock_owner: "c_lock_inv s \<Longrightarrow> c_at s i pc \<Longrightarrow> c_locked pc \<Longrightarrow> c_owner s = Some i"
  using mutex_inside by (auto simp: c_lock_inv_def c_at_def)

lemma c_lock_inv_internal:
  assumes "c_internal s s'" and inv: "c_lock_inv s"
  shows "c_lock_inv s'"
  using assms(1)
proof cases
  case (notify_all i)
  with inv have "c_lock_inv (c_goto i Notify_done s)" by (auto intro: c_lock_move)
  with notify_all show ?thesis by (simp add: c_lock_inv_def mutex_map)
qed (auto intro!: c_lock_move [OF inv] dest: c_lock_owner [OF inv])

lemma c_lock_inv_external:
  assumes "c_external s s'" and inv: "c_lock_inv s"
  shows "c_lock_inv s'"
  using assms(1) by cases (auto intro!: c_lock_move [OF inv])

lemma c_ready_inv_step: "c_step s s' \<Longrightarrow> c_ready_inv s \<Longrightarrow> c_ready_inv s'"
  unfolding c_step_def
  by (elim disjE c_internal.cases c_external.cases)
    (auto simp: c_ready_inv_def c_count dest: c_count(2) [where Q = past_ready])

lemma c_wake_inv_step: "c_step s s' \<Longrightarrow> c_wake_inv s \<Longrightarrow> c_wake_inv s'"
  unfolding c_step_def
  by (elim disjE c_internal.cases c_external.cases)
    (auto simp: c_wake_inv_def c_count split: if_splits)

lemma c_inv_step: "c_inv s \<Longrightarrow> c_step s s' \<Longrightarrow> c_inv s'"
  using c_lock_inv_internal c_lock_inv_external c_ready_inv_step c_wake_inv_step
  unfolding c_inv_def c_step_def by blast

interpretation condition: invariant "c_init n" c_step c_inv for n
proof unfold_locales
  fix s
  assume "c_init n s"
  then show "c_inv s"
    by (auto simp: c_init_def c_inv_def c_lock_inv_def c_ready_inv_def c_wake_inv_def count_in_def
        intro: mutex_start)
qed (rule c_inv_step)

text \<open>
  How many steps a thread still has to make once the condition is ready; a sleeper counts its
  way back through the lock, and a notifier the step in which it wakes the sleepers.
\<close>

fun work :: "cpc \<Rightarrow> nat" where
  "work Wait_lock = 3"
| "work Wait_sleep = 4"
| "work Wait_woken = 3"
| "work Wait_test = 2"
| "work Wait_unlock = 1"
| "work Notify_lock = 4"
| "work Notify_set = 3"
| "work Notify_unlock = 2"
| "work Notify_all = 1"
| "work _ = 0"

definition total_work :: "cond \<Rightarrow> nat" where
  "total_work s = sum_list (map work (c_pcs s))"

lemma total_work_goto:
  "c_at s i pc \<Longrightarrow> sum_list (map work ((c_pcs s)[i := pc'])) + work pc =
     sum_list (map work (c_pcs s)) + work pc'"
  unfolding c_at_def
proof (induction "c_pcs s" arbitrary: s i)
  case Nil
  then show ?case by simp
next
  case (Cons x xs)
  show ?case
  proof (cases i)
    case 0
    with Cons.prems Cons.hyps(2) [symmetric] show ?thesis by simp
  next
    case (Suc j)
    with Cons.hyps(1) [of "s\<lparr>c_pcs := xs\<rparr>" j] Cons.prems Cons.hyps(2) [symmetric]
    show ?thesis by simp
  qed
qed

lemma work_wake: "sum_list (map work (map wake ps)) \<le> sum_list (map work ps)"
  by (induction ps) (auto simp: wake_def)

lemma total_work_move:
  assumes "c_at s i pc" and "c_pcs s' = (c_pcs s)[i := pc']" and "work pc' < work pc"
  shows "total_work s' < total_work s"
  using assms(2,3) total_work_goto [OF assms(1), of pc'] by (simp add: total_work_def)

lemma internal_works:
  assumes "c_internal s s'" and "ready s"
  shows "total_work s' < total_work s \<and> ready s'"
  using assms(1)
proof cases
  case (notify_all i)
  with total_work_goto [of s i Notify_all Notify_done]
    work_wake [of "(c_pcs s)[i := Notify_done]"] assms(2)
  show ?thesis by (simp add: total_work_def)
qed (use assms(2) in \<open>auto intro: total_work_move\<close>)


lemma notifying_can_step: "i < length (c_pcs s) \<Longrightarrow> notifying (c_pcs s ! i) \<Longrightarrow> \<exists>s'. c_internal s s'"
  using c_internal.notify_unlock [of s i] c_internal.notify_all [of s i]
  by (cases "c_pcs s ! i") (auto simp: c_at_def)

lemma c_locked_can_step: "i < length (c_pcs s) \<Longrightarrow> c_locked (c_pcs s ! i) \<Longrightarrow> \<exists>s'. c_internal s s'"
  using c_internal.wait_over [of s i] c_internal.wait_sleep [of s i] c_internal.wait_return [of s i]
    c_internal.notify_set [of s i] c_internal.notify_unlock [of s i]
  by (cases "c_pcs s ! i") (auto simp: c_at_def)

definition at_rest :: "cpc \<Rightarrow> bool" where
  "at_rest pc \<longleftrightarrow> pc \<in> {C_idle, Wait_done, Notify_done}"

lemma ready_can_step:
  assumes inv: "c_inv s" and ready: "ready s" and i: "i < length (c_pcs s)" "\<not> at_rest (c_pcs s ! i)"
  shows "\<exists>s'. c_internal s s'"
proof (cases "c_owner s")
  case (Some j)
  with inv have "j < length (c_pcs s)" "c_locked (c_pcs s ! j)"
    by (auto simp: c_inv_def c_lock_inv_def dest: mutex_owner)
  then show ?thesis by (rule c_locked_can_step)
next
  case None
  have at: "c_at s i (c_pcs s ! i)" using i by (simp add: c_at_def)
  show ?thesis
  proof (cases "c_pcs s ! i = Wait_sleep")
    case True
    with i have "0 < count_in ((=) Wait_sleep) (c_pcs s)" by (auto intro: count_in_pos)
    with inv ready have "0 < count_in notifying (c_pcs s)" by (simp add: c_inv_def c_wake_inv_def)
    then show ?thesis using count_in_witness notifying_can_step by blast
  next
    case False
    with None at i c_locked_can_step [OF i(1)] notifying_can_step [OF i(1)] show ?thesis
      by (cases "c_pcs s ! i")
        (auto simp: at_rest_def dest: c_internal.wait_lock c_internal.wait_relock c_internal.notify_lock)
  qed
qed

section \<open>\<open>is_ready\<close>\<close>

datatype future_status = Fut_ready | Fut_timeout | Fut_deferred

text \<open>A future is known by what \<open>wait_for\<close> reports for a duration.\<close>

definition is_ready :: "(nat \<Rightarrow> future_status) \<Rightarrow> bool" where
  "is_ready wait_for \<longleftrightarrow> wait_for 0 = Fut_ready"

section \<open>Properties\<close>

text \<open>
  C34. \<open>wait\<close> returns only on a ready condition.  However waiters and notifiers interleave, a
  thread that has returned from \<open>wait\<close> or from \<open>notify\<close> finds the condition ready, it stays
  ready, and no two threads hold the mutex.
\<close>

theorem condition_safe:
  assumes "reachable (c_init n) c_step s" and "i < length (c_pcs s)"
    and "c_pcs s ! i \<in> {Wait_done, Notify_done}"
  shows "ready s \<and> (\<forall>s'. c_step s s' \<longrightarrow> ready s') \<and>
    (\<forall>j < length (c_pcs s). \<forall>k < length (c_pcs s).
       c_locked (c_pcs s ! j) \<and> c_locked (c_pcs s ! k) \<longrightarrow> j = k)"
proof -
  from condition.reachable_inv [OF assms(1)] have inv: "c_lock_inv s" "c_ready_inv s"
    by (simp_all add: c_inv_def)
  from assms(2,3) have "0 < count_in past_ready (c_pcs s)" by (auto intro!: count_in_pos)
  with inv(2) have ready: "ready s" by (simp add: c_ready_inv_def)
  moreover from this have "c_step s s' \<Longrightarrow> ready s'" for s'
    by (auto simp: c_step_def internal_works elim: c_external.cases)
  ultimately show ?thesis using inv(1) by (auto simp: c_lock_inv_def dest: mutex_excl)
qed

text \<open>
  C35. Every waiter of a ready condition returns.  Once the condition is ready, every step the
  threads take on their own reduces the work left, so there are at most \<open>total_work\<close> of them;
  and when none is possible any more no thread is left inside \<open>wait\<close> or \<open>notify\<close>: no
  wakeup is lost, although \<open>notify_all\<close> is called after the mutex is released.
\<close>

theorem condition_waiters_return:
  assumes "reachable (c_init n) c_step s" and "ready s"
  shows "(\<forall>s'. c_internal s s' \<longrightarrow> total_work s' < total_work s \<and> ready s') \<and>
    ((\<forall>s'. \<not> c_internal s s') \<longrightarrow> (\<forall>i < length (c_pcs s). at_rest (c_pcs s ! i)))"
  using condition.reachable_inv [OF assms(1)] ready_can_step [of s] internal_works [of s] assms(2)
  by blast

text \<open>
  A concrete run: thread 0 sleeps in \<open>wait\<close>, thread 1 has set the condition and released the
  mutex but has not notified yet; after it has, it is done.
\<close>

definition waiting_example :: "cpc \<Rightarrow> cpc \<Rightarrow> cond" where
  "waiting_example pc0 pc1 = \<lparr>ready = True, c_owner = None, c_pcs = [pc0, pc1]\<rparr>"

lemma c_stepI: "c_internal s s' \<Longrightarrow> c_step s s'" "c_external s s' \<Longrightarrow> c_step s s'"
  by (simp_all add: c_step_def)

lemma waiting_example_reachable:
  "reachable (c_init 2) c_step (waiting_example Wait_sleep Notify_all)"
  "reachable (c_init 2) c_step (waiting_example Wait_woken Notify_done)"
proof -
  let ?s = "\<lambda>r ow p. \<lparr>ready = r, c_owner = ow, c_pcs = p\<rparr>"
  have "reachable (c_init 2) c_step (?s False None [C_idle, C_idle])"
    by (rule reach_init) (simp add: c_init_def numeral_2_eq_2)
  from reach_step [OF this c_stepI(2) [OF call_wait [of _ 0]]]
  have "reachable (c_init 2) c_step (?s False None [Wait_lock, C_idle])"
    by (simp add: c_at_def c_goto_def)
  from reach_step [OF this c_stepI(1) [OF wait_lock [of _ 0]]]
  have "reachable (c_init 2) c_step (?s False (Some 0) [Wait_test, C_idle])"
    by (simp add: c_at_def c_goto_def)
  from reach_step [OF this c_stepI(1) [OF wait_sleep [of _ 0]]]
  have "reachable (c_init 2) c_step (?s False None [Wait_sleep, C_idle])"
    by (simp add: c_at_def c_goto_def)
  from reach_step [OF this c_stepI(2) [OF call_notify [of _ 1]]]
  have "reachable (c_init 2) c_step (?s False None [Wait_sleep, Notify_lock])"
    by (simp add: c_at_def c_goto_def)
  from reach_step [OF this c_stepI(1) [OF notify_lock [of _ 1]]]
  have "reachable (c_init 2) c_step (?s False (Some 1) [Wait_sleep, Notify_set])"
    by (simp add: c_at_def c_goto_def)
  from reach_step [OF this c_stepI(1) [OF notify_set [of _ 1]]]
  have "reachable (c_init 2) c_step (?s True (Some 1) [Wait_sleep, Notify_unlock])"
    by (simp add: c_at_def c_goto_def)
  from reach_step [OF this c_stepI(1) [OF notify_unlock [of _ 1]]]
  show 1: "reachable (c_init 2) c_step (waiting_example Wait_sleep Notify_all)"
    by (simp add: c_at_def c_goto_def waiting_example_def)
  from reach_step [OF this c_stepI(1) [OF notify_all [of _ 1]]]
  show "reachable (c_init 2) c_step (waiting_example Wait_woken Notify_done)"
    by (simp add: c_at_def c_goto_def waiting_example_def wake_def)
qed

theorem condition_safe_witness:
  "ready (waiting_example Wait_woken Notify_done)"
  using condition_safe [OF waiting_example_reachable(2), of 1] by (simp add: waiting_example_def)

theorem condition_waiters_return_witness:
  "\<exists>s'. c_internal (waiting_example Wait_sleep Notify_all) s'"
proof -
  have "\<not> at_rest (c_pcs (waiting_example Wait_sleep Notify_all) ! 0)"
    "0 < length (c_pcs (waiting_example Wait_sleep Notify_all))"
    "ready (waiting_example Wait_sleep Notify_all)"
    by (simp_all add: waiting_example_def at_rest_def)
  with condition_waiters_return [OF waiting_example_reachable(1)] show ?thesis by blast
qed

end
