(* ===== verification/Timer.thy ===== *)
theory Timer
  imports Prelude
begin

text \<open>
  \<open>util/timer\<close>: \<open>callback_timer\<close>, an object whose constructor starts a thread that waits on a
  condition variable with a timeout and then calls back, and whose destructor cancels it and
  joins the thread.  As in \<open>Queue_Threads\<close> a step is one operation on the mutex or the
  condition variable; \<open>wait_for(lock, duration, pred)\<close> is the library's loop
  \<open>while (!pred()) if (wait_until(lock, end) == timeout) return pred(); return true;\<close>.
\<close>

section \<open>The two threads\<close>

datatype timer_pc =
    T_lock
  | T_test
  | T_sleep
  | T_woken
  | T_timed_out
  | T_last_test
  | T_callback
  | T_unlock
  | T_done

datatype owner_pc = O_live | O_lock | O_set | O_unlock | O_notify | O_join | O_gone

datatype timer_thread = By_timer | By_owner

record callback_timer =
  canceled :: bool
  t_mutex :: "timer_thread option"
  t_pc :: timer_pc
  o_pc :: owner_pc
  elapsed :: bool
  calls :: nat

text \<open>The constructor has returned, or is about to: its last member is the thread.\<close>

definition timer_started :: "callback_timer \<Rightarrow> bool" where
  "timer_started s \<longleftrightarrow> s = \<lparr>canceled = False, t_mutex = None, t_pc = T_lock, o_pc = O_live,
     elapsed = False, calls = 0\<rparr>"

text \<open>\<open>run()\<close>.\<close>

inductive timer_run :: "callback_timer \<Rightarrow> callback_timer \<Rightarrow> bool" where
  run_lock: "t_pc s \<in> {T_lock, T_woken} \<Longrightarrow> t_mutex s = None \<Longrightarrow>
    timer_run s (s\<lparr>t_pc := T_test, t_mutex := Some By_timer\<rparr>)"
| run_test_true: "t_pc s = T_test \<Longrightarrow> canceled s \<Longrightarrow> timer_run s (s\<lparr>t_pc := T_unlock\<rparr>)"
| run_test_false: "t_pc s = T_test \<Longrightarrow> \<not> canceled s \<Longrightarrow>
    timer_run s (s\<lparr>t_pc := T_sleep, t_mutex := None\<rparr>)"
| run_timeout: "t_pc s = T_sleep \<Longrightarrow> elapsed s \<Longrightarrow> timer_run s (s\<lparr>t_pc := T_timed_out\<rparr>)"
| run_relock: "t_pc s = T_timed_out \<Longrightarrow> t_mutex s = None \<Longrightarrow>
    timer_run s (s\<lparr>t_pc := T_last_test, t_mutex := Some By_timer\<rparr>)"
| run_last_test: "t_pc s = T_last_test \<Longrightarrow>
    timer_run s (s\<lparr>t_pc := if canceled s then T_unlock else T_callback\<rparr>)"
| run_callback: "t_pc s = T_callback \<Longrightarrow>
    timer_run s (s\<lparr>t_pc := T_unlock, calls := calls s + 1\<rparr>)"
| run_return: "t_pc s = T_unlock \<Longrightarrow> timer_run s (s\<lparr>t_pc := T_done, t_mutex := None\<rparr>)"

text \<open>\<open>~callback_timer()\<close>, once it has been called.\<close>

inductive timer_destroy :: "callback_timer \<Rightarrow> callback_timer \<Rightarrow> bool" where
  destroy_lock: "o_pc s = O_lock \<Longrightarrow> t_mutex s = None \<Longrightarrow>
    timer_destroy s (s\<lparr>o_pc := O_set, t_mutex := Some By_owner\<rparr>)"
| destroy_set: "o_pc s = O_set \<Longrightarrow> timer_destroy s (s\<lparr>o_pc := O_unlock, canceled := True\<rparr>)"
| destroy_unlock: "o_pc s = O_unlock \<Longrightarrow> timer_destroy s (s\<lparr>o_pc := O_notify, t_mutex := None\<rparr>)"
| destroy_notify: "o_pc s = O_notify \<Longrightarrow>
    timer_destroy s (s\<lparr>o_pc := O_join, t_pc := if t_pc s = T_sleep then T_woken else t_pc s\<rparr>)"
| destroy_join: "o_pc s = O_join \<Longrightarrow> t_pc s = T_done \<Longrightarrow> timer_destroy s (s\<lparr>o_pc := O_gone\<rparr>)"

text \<open>What neither of them decides: the clock, a spurious wakeup, and when the owner destroys it.\<close>

inductive timer_external :: "callback_timer \<Rightarrow> callback_timer \<Rightarrow> bool" where
  clock: "timer_external s (s\<lparr>elapsed := True\<rparr>)"
| timer_spurious: "t_pc s = T_sleep \<Longrightarrow> timer_external s (s\<lparr>t_pc := T_woken\<rparr>)"
| call_destroy: "o_pc s = O_live \<Longrightarrow> timer_external s (s\<lparr>o_pc := O_lock\<rparr>)"

definition timer_internal :: "callback_timer \<Rightarrow> callback_timer \<Rightarrow> bool" where
  "timer_internal s s' \<longleftrightarrow> timer_run s s' \<or> timer_destroy s s'"

definition timer_step :: "callback_timer \<Rightarrow> callback_timer \<Rightarrow> bool" where
  "timer_step s s' \<longleftrightarrow> timer_internal s s' \<or> timer_external s s'"

lemmas timer_cases = timer_run.cases timer_destroy.cases timer_external.cases
lemmas timer_step_defs = timer_step_def timer_internal_def

section \<open>Invariant\<close>

fun timer_holds :: "timer_pc \<Rightarrow> bool" where
  "timer_holds T_test = True"
| "timer_holds T_last_test = True"
| "timer_holds T_callback = True"
| "timer_holds T_unlock = True"
| "timer_holds _ = False"

fun owner_holds :: "owner_pc \<Rightarrow> bool" where
  "owner_holds O_set = True"
| "owner_holds O_unlock = True"
| "owner_holds _ = False"

fun has_canceled :: "owner_pc \<Rightarrow> bool" where
  "has_canceled O_live = False"
| "has_canceled O_lock = False"
| "has_canceled O_set = False"
| "has_canceled _ = True"

fun has_notified :: "owner_pc \<Rightarrow> bool" where
  "has_notified O_join = True"
| "has_notified O_gone = True"
| "has_notified _ = False"

fun over :: "timer_pc \<Rightarrow> bool" where
  "over T_unlock = True"
| "over T_done = True"
| "over _ = False"

fun after_timeout :: "timer_pc \<Rightarrow> bool" where
  "after_timeout T_timed_out = True"
| "after_timeout T_last_test = True"
| "after_timeout T_callback = True"
| "after_timeout _ = False"

definition timer_lock_inv :: "callback_timer \<Rightarrow> bool" where
  "timer_lock_inv s \<longleftrightarrow>
     timer_holds (t_pc s) = (t_mutex s = Some By_timer) \<and>
     owner_holds (o_pc s) = (t_mutex s = Some By_owner)"

definition timer_cancel_inv :: "callback_timer \<Rightarrow> bool" where
  "timer_cancel_inv s \<longleftrightarrow>
     canceled s = has_canceled (o_pc s) \<and>
     \<not> (canceled s \<and> t_pc s = T_callback) \<and>
     \<not> (has_notified (o_pc s) \<and> t_pc s = T_sleep)"

definition timer_call_inv :: "callback_timer \<Rightarrow> bool" where
  "timer_call_inv s \<longleftrightarrow>
     (calls s = 0 \<or> calls s = 1 \<and> elapsed s \<and> over (t_pc s)) \<and>
     \<not> (after_timeout (t_pc s) \<and> \<not> elapsed s) \<and>
     \<not> (over (t_pc s) \<and> calls s = 0 \<and> \<not> canceled s) \<and>
     \<not> (o_pc s = O_gone \<and> t_pc s \<noteq> T_done)"

definition timer_inv :: "callback_timer \<Rightarrow> bool" where
  "timer_inv s \<longleftrightarrow> timer_lock_inv s \<and> timer_cancel_inv s \<and> timer_call_inv s"

lemmas timer_inv_defs = timer_inv_def timer_lock_inv_def timer_cancel_inv_def timer_call_inv_def

lemma notified_canceled: "has_notified pc \<Longrightarrow> has_canceled pc"
  by (cases pc) simp_all

lemma timer_lock_inv_step: "timer_step s s' \<Longrightarrow> timer_lock_inv s \<Longrightarrow> timer_lock_inv s'"
  unfolding timer_step_defs by (elim disjE timer_cases) (auto simp: timer_lock_inv_def)

lemma timer_cancel_inv_step:
  "timer_step s s' \<Longrightarrow> timer_lock_inv s \<Longrightarrow> timer_cancel_inv s \<Longrightarrow> timer_cancel_inv s'"
  unfolding timer_step_defs
  by (elim disjE timer_cases) (auto simp: timer_cancel_inv_def timer_lock_inv_def dest: notified_canceled)

lemma timer_call_inv_step: "timer_step s s' \<Longrightarrow> timer_call_inv s \<Longrightarrow> timer_call_inv s'"
  unfolding timer_step_defs by (elim disjE timer_cases) (auto simp: timer_call_inv_def)

interpretation timer: invariant timer_started timer_step timer_inv
proof unfold_locales
  fix s
  assume "timer_started s"
  then show "timer_inv s" by (simp add: timer_started_def timer_inv_defs)
next
  fix s s'
  assume "timer_inv s" and "timer_step s s'"
  then show "timer_inv s'"
    unfolding timer_inv_def by (metis timer_lock_inv_step timer_cancel_inv_step timer_call_inv_step)
qed

section \<open>Progress\<close>

fun timer_work :: "timer_pc \<Rightarrow> nat" where
  "timer_work T_lock = 8"
| "timer_work T_woken = 8"
| "timer_work T_test = 7"
| "timer_work T_sleep = 6"
| "timer_work T_timed_out = 5"
| "timer_work T_last_test = 4"
| "timer_work T_callback = 3"
| "timer_work T_unlock = 2"
| "timer_work T_done = 0"

fun owner_work :: "owner_pc \<Rightarrow> nat" where
  "owner_work O_live = 0"
| "owner_work O_lock = 10"
| "owner_work O_set = 9"
| "owner_work O_unlock = 8"
| "owner_work O_notify = 7"
| "owner_work O_join = 3"
| "owner_work O_gone = 0"

definition work_left :: "callback_timer \<Rightarrow> nat" where
  "work_left s = timer_work (t_pc s) + owner_work (o_pc s)"

lemma timer_internal_works: "timer_internal s s' \<Longrightarrow> work_left s' < work_left s"
  unfolding timer_internal_def
  by (auto simp: work_left_def elim!: timer_run.cases timer_destroy.cases)

lemma timer_stuck:
  assumes inv: "timer_inv s" and stuck: "\<And>s'. \<not> timer_internal s s'"
  shows "if o_pc s = O_live then t_pc s = T_done \<or> (t_pc s = T_sleep \<and> \<not> elapsed s)
    else o_pc s = O_gone"
proof -
  have run: "\<not> timer_run s s'" and destroy: "\<not> timer_destroy s s'" for s'
    using stuck by (auto simp: timer_internal_def)
  from run have "\<not> timer_holds (t_pc s)"
    using timer_run.intros [of s] by (cases "t_pc s"; cases "canceled s") auto
  moreover from destroy have "\<not> owner_holds (o_pc s)"
    using timer_destroy.intros [of s] by (cases "o_pc s") auto
  ultimately have free: "t_mutex s = None"
    using inv by (cases "t_mutex s") (auto simp: timer_inv_def timer_lock_inv_def intro: timer_thread.exhaust)
  with run have "t_pc s = T_done \<or> t_pc s = T_sleep \<and> \<not> elapsed s"
    using timer_run.intros [of s] \<open>\<not> timer_holds (t_pc s)\<close> by (cases "t_pc s") auto
  moreover from destroy free have "o_pc s = O_live \<or> o_pc s = O_gone \<or> o_pc s = O_join \<and> t_pc s \<noteq> T_done"
    using timer_destroy.intros [of s] by (cases "o_pc s") auto
  ultimately show ?thesis using inv by (auto simp: timer_inv_def timer_cancel_inv_def)
qed

section \<open>Properties\<close>

text \<open>
  C32. The callback runs at most once, only after the duration has elapsed, and never once the
  timer has been cancelled: if the destructor has set \<open>canceled_\<close> before the callback started,
  no later step calls it.  When the destructor has returned the thread is over, so the callback
  cannot run on a destroyed timer.
\<close>

theorem timer_callback_once:
  assumes "reachable timer_started timer_step s"
  shows "calls s \<le> 1 \<and> (calls s = 1 \<longrightarrow> elapsed s) \<and>
    (canceled s \<longrightarrow> (\<forall>s'. timer_step s s' \<longrightarrow> canceled s' \<and> calls s' = calls s)) \<and>
    (o_pc s = O_gone \<longrightarrow> t_pc s = T_done \<and> (\<forall>s'. \<not> timer_run s s'))"
proof -
  from timer.reachable_inv [OF assms] have inv: "timer_inv s" .
  then have "canceled s \<Longrightarrow> timer_step s s' \<Longrightarrow> canceled s' \<and> calls s' = calls s" for s'
    unfolding timer_step_defs
    by (elim disjE timer_cases) (auto simp: timer_inv_def timer_cancel_inv_def)
  moreover have "t_pc s = T_done \<Longrightarrow> \<not> timer_run s s'" for s'
    by (auto elim: timer_run.cases)
  ultimately show ?thesis using inv by (auto simp: timer_inv_def timer_call_inv_def)
qed

text \<open>
  C33. The timer fires and can be destroyed.  Every step the two threads take on their own
  reduces the work left, so they stop after finitely many; and they can stop only with the
  destructor finished, or, on a timer nobody destroys, with the callback made, or asleep
  because the duration has not elapsed.  No notification of the destructor is lost.
\<close>

theorem timer_fires:
  assumes "reachable timer_started timer_step s"
  shows "(\<forall>s'. timer_internal s s' \<longrightarrow> work_left s' < work_left s) \<and>
    ((\<forall>s'. \<not> timer_internal s s') \<longrightarrow>
      (if o_pc s = O_live then (if elapsed s then t_pc s = T_done \<and> calls s = 1
         else t_pc s = T_sleep \<and> calls s = 0)
       else o_pc s = O_gone \<and> t_pc s = T_done))"
proof -
  from timer.reachable_inv [OF assms] have inv: "timer_inv s" .
  with timer_stuck [of s] timer_internal_works [of s] show ?thesis
    by (auto simp: timer_inv_def timer_call_inv_def timer_cancel_inv_def)
qed

text \<open>A run in which the timer expires and the callback is made, and one destroyed while asleep.\<close>

definition timer_at :: "bool \<Rightarrow> timer_thread option \<Rightarrow> timer_pc \<Rightarrow> owner_pc \<Rightarrow> bool \<Rightarrow> nat \<Rightarrow> callback_timer" where
  "timer_at c m t ow e n = \<lparr>canceled = c, t_mutex = m, t_pc = t, o_pc = ow, elapsed = e, calls = n\<rparr>"

lemma timer_stepI:
  "timer_run s s' \<Longrightarrow> timer_step s s'" "timer_destroy s s' \<Longrightarrow> timer_step s s'"
  "timer_external s s' \<Longrightarrow> timer_step s s'"
  by (simp_all add: timer_step_defs)

lemma timer_sleeps:
  "reachable timer_started timer_step (timer_at False None T_sleep O_live False 0)"
proof -
  have "reachable timer_started timer_step (timer_at False None T_lock O_live False 0)"
    by (rule reach_init) (simp add: timer_started_def timer_at_def)
  from reach_step [OF this timer_stepI(1) [OF run_lock]]
  have "reachable timer_started timer_step (timer_at False (Some By_timer) T_test O_live False 0)"
    by (simp add: timer_at_def)
  from reach_step [OF this timer_stepI(1) [OF run_test_false]]
  show ?thesis by (simp add: timer_at_def)
qed

lemma timer_fired:
  "reachable timer_started timer_step (timer_at False None T_done O_live True 1)"
proof -
  from reach_step [OF timer_sleeps timer_stepI(3) [OF clock]]
  have "reachable timer_started timer_step (timer_at False None T_sleep O_live True 0)"
    by (simp add: timer_at_def)
  from reach_step [OF this timer_stepI(1) [OF run_timeout]]
  have "reachable timer_started timer_step (timer_at False None T_timed_out O_live True 0)"
    by (simp add: timer_at_def)
  from reach_step [OF this timer_stepI(1) [OF run_relock]]
  have "reachable timer_started timer_step (timer_at False (Some By_timer) T_last_test O_live True 0)"
    by (simp add: timer_at_def)
  from reach_step [OF this timer_stepI(1) [OF run_last_test]]
  have "reachable timer_started timer_step (timer_at False (Some By_timer) T_callback O_live True 0)"
    by (simp add: timer_at_def)
  from reach_step [OF this timer_stepI(1) [OF run_callback]]
  have "reachable timer_started timer_step (timer_at False (Some By_timer) T_unlock O_live True 1)"
    by (simp add: timer_at_def)
  from reach_step [OF this timer_stepI(1) [OF run_return]]
  show ?thesis by (simp add: timer_at_def)
qed

lemma timer_canceled_asleep:
  "reachable timer_started timer_step (timer_at True None T_sleep O_notify False 0)"
proof -
  from reach_step [OF timer_sleeps timer_stepI(3) [OF call_destroy]]
  have "reachable timer_started timer_step (timer_at False None T_sleep O_lock False 0)"
    by (simp add: timer_at_def)
  from reach_step [OF this timer_stepI(2) [OF destroy_lock]]
  have "reachable timer_started timer_step (timer_at False (Some By_owner) T_sleep O_set False 0)"
    by (simp add: timer_at_def)
  from reach_step [OF this timer_stepI(2) [OF destroy_set]]
  have "reachable timer_started timer_step (timer_at True (Some By_owner) T_sleep O_unlock False 0)"
    by (simp add: timer_at_def)
  from reach_step [OF this timer_stepI(2) [OF destroy_unlock]]
  show ?thesis by (simp add: timer_at_def)
qed

theorem timer_callback_once_witness:
  "calls (timer_at False None T_done O_live True 1) = 1 \<and>
     elapsed (timer_at False None T_done O_live True 1)"
  using timer_callback_once [OF timer_fired] by (simp add: timer_at_def)

theorem timer_fires_witness:
  "\<exists>s'. timer_internal (timer_at True None T_sleep O_notify False 0) s'"
  using timer_fires [OF timer_canceled_asleep] by (auto simp: timer_at_def)

end
