(* ===== verification/Std_Map.thy ===== *)
theory Std_Map
  imports Prelude
begin

text \<open>
  \<open>std::map\<close> of the C++ library as the program uses it: a container of pairs with distinct
  keys, iterated in ascending key order.  It is modelled as a list of pairs, strictly
  ascending in the keys; \<open>smap_put\<close> is \<open>m[k] = v\<close>, \<open>smap_emplace\<close> is
  \<open>emplace\<close> with its success flag, \<open>smap_del\<close> is \<open>erase\<close>, and \<open>map_of\<close> is
  \<open>find\<close>.  The interface the components rely on is the locale \<open>ordered_map\<close>.
\<close>

type_synonym ('k, 'v) smap = "('k \<times> 'v) list"

fun smap_put :: "'k::linorder \<Rightarrow> 'v \<Rightarrow> ('k, 'v) smap \<Rightarrow> ('k, 'v) smap" where
  "smap_put k v [] = [(k, v)]"
| "smap_put k v ((a, b) # m) =
     (if k < a then (k, v) # (a, b) # m
      else if k = a then (k, v) # m
      else (a, b) # smap_put k v m)"

fun smap_del :: "'k::linorder \<Rightarrow> ('k, 'v) smap \<Rightarrow> ('k, 'v) smap" where
  "smap_del k [] = []"
| "smap_del k ((a, b) # m) = (if k = a then m else (a, b) # smap_del k m)"

definition smap_emplace ::
    "'k::linorder \<Rightarrow> 'v \<Rightarrow> ('k, 'v) smap \<Rightarrow> bool \<times> ('k, 'v) smap" where
  "smap_emplace k v m =
     (case map_of m k of None \<Rightarrow> (True, smap_put k v m) | Some _ \<Rightarrow> (False, m))"

definition smap_ok :: "('k::linorder, 'v) smap \<Rightarrow> bool" where
  "smap_ok m \<longleftrightarrow> sorted_wrt (<) (map fst m)"

lemma smap_ok_Nil [simp]: "smap_ok []"
  by (simp add: smap_ok_def)

lemma smap_ok_Cons [simp]: "smap_ok (p # m) \<longleftrightarrow> (\<forall>q \<in> set m. fst p < fst q) \<and> smap_ok m"
  by (auto simp: smap_ok_def)

lemma smap_ok_distinct: "smap_ok m \<Longrightarrow> distinct (map fst m)"
  by (induction m) fastforce+

lemma set_smap_put: "set (smap_put k v m) \<subseteq> insert (k, v) (set m)"
  by (induction k v m rule: smap_put.induct) auto

lemma set_smap_del: "set (smap_del k m) \<subseteq> set m"
  by (induction k m rule: smap_del.induct) auto

lemma smap_ok_put [simp]: "smap_ok m \<Longrightarrow> smap_ok (smap_put k v m)"
proof (induction k v m rule: smap_put.induct)
  case (2 k v a b m)
  then show ?case
    using set_smap_put [of k v m] by (fastforce simp: not_less_iff_gr_or_eq)
qed simp

lemma smap_ok_del [simp]: "smap_ok m \<Longrightarrow> smap_ok (smap_del k m)"
proof (induction k m rule: smap_del.induct)
  case (2 k a b m)
  then show ?case using set_smap_del [of k m] by auto
qed simp

lemma map_of_smap_put: "smap_ok m \<Longrightarrow> map_of (smap_put k v m) = (map_of m)(k \<mapsto> v)"
  by (induction k v m rule: smap_put.induct) (auto simp: fun_eq_iff)

lemma map_of_None_above: "\<forall>q \<in> set m. a < fst q \<Longrightarrow> map_of m (a::'k::linorder) = None"
  by (auto simp: map_of_eq_None_iff)

lemma map_of_smap_del: "smap_ok m \<Longrightarrow> map_of (smap_del k m) = (map_of m)(k := None)"
  by (induction k m rule: smap_del.induct) (auto simp: fun_eq_iff map_of_None_above)

lemma smap_ok_emplace [simp]: "smap_ok m \<Longrightarrow> smap_ok (snd (smap_emplace k v m))"
  by (simp add: smap_emplace_def split: option.split)

lemma keys_smap_put: "fst ` set (smap_put k v m) = insert k (fst ` set m)"
  by (induction k v m rule: smap_put.induct) auto

lemma smap_put_present:
  "smap_ok m \<Longrightarrow> k \<in> fst ` set m \<Longrightarrow> map fst (smap_put k v m) = map fst m"
  by (induction k v m rule: smap_put.induct) auto

lemma length_smap_put:
  "smap_ok m \<Longrightarrow> length (smap_put k v m) = (if k \<in> fst ` set m then length m else Suc (length m))"
  by (induction k v m rule: smap_put.induct) auto

text \<open>Two ordered maps with the same lookup are the same container.\<close>

lemma smap_rebuild: "smap_ok m \<Longrightarrow> map (\<lambda>k. (k, the (map_of m k))) (map fst m) = m"
  using smap_ok_distinct [of m] by (auto intro!: map_idI)

lemma smap_ext:
  assumes "smap_ok m" and "smap_ok m'" and "map_of m = map_of m'"
  shows "m = m'"
proof -
  have "set (map fst m) = set (map fst m')"
    using assms(3) by (metis dom_map_of_conv_image_fst set_map)
  then have "map fst m = map fst m'"
    using assms(1,2) strict_sorted_equal unfolding smap_ok_def by blast
  then show ?thesis
    using smap_rebuild [OF assms(1)] smap_rebuild [OF assms(2)] assms(3) by metis
qed

section \<open>The interface\<close>

locale ordered_map =
  fixes lookup :: "'m \<Rightarrow> 'k \<Rightarrow> 'v option"
    and update :: "'k \<Rightarrow> 'v \<Rightarrow> 'm \<Rightarrow> 'm"
    and delete :: "'k \<Rightarrow> 'm \<Rightarrow> 'm"
    and invar :: "'m \<Rightarrow> bool"
  assumes lookup_update: "invar m \<Longrightarrow> lookup (update k v m) = (lookup m)(k \<mapsto> v)"
    and lookup_delete: "invar m \<Longrightarrow> lookup (delete k m) = (lookup m)(k := None)"
    and invar_update: "invar m \<Longrightarrow> invar (update k v m)"
    and invar_delete: "invar m \<Longrightarrow> invar (delete k m)"
    and invar_ext: "invar m \<Longrightarrow> invar m' \<Longrightarrow> lookup m = lookup m' \<Longrightarrow> m = m'"
begin

lemma update_all_invar:
  "invar m \<Longrightarrow> invar (fold (\<lambda>(k, v). update k v) kvs m)"
  by (induction kvs arbitrary: m) (auto intro: invar_update)

lemma lookup_update_all:
  "invar m \<Longrightarrow> lookup (fold (\<lambda>(k, v). update k v) kvs m) = lookup m ++ map_of (rev kvs)"
proof (induction kvs arbitrary: m)
  case Nil
  then show ?case by simp
next
  case (Cons kv kvs)
  obtain k v where kv: "kv = (k, v)" by (cases kv)
  with Cons show ?case
    by (simp add: invar_update lookup_update map_add_def fun_eq_iff split: option.split)
qed

lemma delete_update_fresh:
  assumes "invar m" and "lookup m k = None"
  shows "delete k (update k v m) = m"
  using assms
  by (intro invar_ext) (auto simp: invar_update invar_delete lookup_update lookup_delete)

lemma update_comm:
  assumes "invar m" and "j \<noteq> k"
  shows "update j v (update k w m) = update k w (update j v m)"
  using assms
  by (intro invar_ext) (auto simp: invar_update lookup_update)

end

interpretation smap: ordered_map map_of smap_put smap_del smap_ok
  by unfold_locales (simp_all add: map_of_smap_put map_of_smap_del smap_ext)

end
