(* ===== verification/Factory.thy ===== *)
theory Factory
  imports Std_Map "HOL-Library.List_Lexorder" "HOL-Library.Char_ord" "HOL-Library.Multiset"
begin

text \<open>
  \<open>util/factory\<close>: the table of creators by name, its registration from static objects of
  several translation units, and the creation of an object by name.  A creator is what the
  \<open>creator_interface\<close> object does when called, an action from the constructor arguments
  \<open>'a\<close> to whatever it creates.  Names are ordered as \<open>std::string\<close> orders them,
  lexicographically by byte.
\<close>

record 'a factory =
  creators :: "(string, 'a) smap"

text \<open>\<open>instance()\<close> starts from an empty table the first time it is asked for.\<close>

definition factory_instance :: "'a factory" where
  "factory_instance = \<lparr>creators = []\<rparr>"

definition register_creator :: "string \<Rightarrow> 'a \<Rightarrow> ('a factory, 'c, unit) act" where
  "register_creator ident c st =
     (let res = smap_emplace ident c (creators (fst st))
      in block [modify (\<lambda>f. f\<lparr>creators := snd res\<rparr>), assert_that (\<lambda>_. fst res)] st)"

definition factory_create ::
    "('a \<Rightarrow> ('s, 'c, 'b) act) factory \<Rightarrow> string \<Rightarrow> 'a \<Rightarrow> ('s, 'c, 'b) act" where
  "factory_create f ident args =
     (case map_of (creators f) ident of
        None \<Rightarrow> raise (Invalid_argument (''Invalid id: '' @ ident))
      | Some c \<Rightarrow> c args)"

text \<open>The constructors of the \<open>registar\<close> objects of a program, in the order they happen to run.\<close>

definition registar :: "string \<Rightarrow> 'a \<Rightarrow> ('a factory, 'c, unit) act" where
  "registar ident c = register_creator ident c"

definition run_registars :: "(string \<times> 'a) list \<Rightarrow> ('a factory, 'c, unit) act" where
  "run_registars regs = block (map (\<lambda>(ident, c). registar ident c) regs)"

definition factory_ok :: "'a factory \<Rightarrow> bool" where
  "factory_ok f \<longleftrightarrow> smap_ok (creators f)"

section \<open>Lemmas\<close>

lemma register_creator_run:
  "register_creator ident c (f, t) =
     (if map_of (creators f) ident = None then (Inr (), (f\<lparr>creators := smap_put ident c (creators f)\<rparr>, t))
      else (Inl Assert_failed, (f, t)))"
  by (cases f) (auto simp: register_creator_def smap_emplace_def act_simps split: option.split)

lemma run_registars_table:
  assumes "factory_ok f" and "distinct (map fst regs)"
    and "\<And>i. i \<in> fst ` set regs \<Longrightarrow> map_of (creators f) i = None"
  shows "run_registars regs (f, t) =
    (Inr (), (f\<lparr>creators := fold (\<lambda>(k, v). smap_put k v) regs (creators f)\<rparr>, t))"
  using assms
proof (induction regs arbitrary: f)
  case Nil
  then show ?case by (simp add: run_registars_def)
next
  case (Cons r regs)
  obtain i c where r: "r = (i, c)" by (cases r)
  let ?f = "f\<lparr>creators := smap_put i c (creators f)\<rparr>"
  have fresh: "map_of (creators f) i = None" using Cons.prems(3) r by simp
  have "factory_ok ?f" using Cons.prems(1) by (simp add: factory_ok_def)
  moreover have "map_of (creators ?f) j = None" if "j \<in> fst ` set regs" for j
    using that Cons.prems r by (auto simp: factory_ok_def map_of_smap_put)
  ultimately have "run_registars regs (?f, t) =
      (Inr (), (?f\<lparr>creators := fold (\<lambda>(k, v). smap_put k v) regs (creators ?f)\<rparr>, t))"
    using Cons.prems(2) by (intro Cons.IH) auto
  then show ?case by (simp add: run_registars_def registar_def register_creator_run r fresh)
qed

lemma map_of_perm:
  assumes "mset xs = mset ys" and "distinct (map fst xs)"
  shows "map_of xs = map_of ys"
proof -
  have "mset (map fst xs) = mset (map fst ys)" using assms(1) by simp
  then have "distinct (map fst ys)" using assms(2) mset_eq_imp_distinct_iff by blast
  then show ?thesis
    using assms map_of_inject_set [of xs ys] mset_eq_setD [OF assms(1)] by simp
qed

lemma table_order_irrelevant:
  assumes "mset regs = mset regs'" and "distinct (map fst regs)" and "smap_ok m"
  shows "fold (\<lambda>(k, v). smap_put k v) regs m = fold (\<lambda>(k, v). smap_put k v) regs' m"
proof (rule smap_ext)
  have "distinct (map fst (rev regs))" "mset (rev regs) = mset (rev regs')"
    using assms(1,2) by (simp_all flip: rev_map)
  then show "map_of (fold (\<lambda>(k, v). smap_put k v) regs m) = map_of (fold (\<lambda>(k, v). smap_put k v) regs' m)"
    using map_of_perm [of "rev regs" "rev regs'"] by (simp add: smap.lookup_update_all assms(3))
qed (use assms(3) smap.update_all_invar in auto)

lemma run_registars_lookup:
  assumes "factory_ok f" and "distinct (map fst regs)"
    and "\<And>i. i \<in> fst ` set regs \<Longrightarrow> map_of (creators f) i = None"
  shows "\<exists>f'. run_registars regs (f, t) = (Inr (), (f', t)) \<and> factory_ok f' \<and>
    map_of (creators f') = map_of (creators f) ++ map_of regs"
proof -
  let ?m = "fold (\<lambda>(k, v). smap_put k v) regs (creators f)"
  have ok: "smap_ok (creators f)" using assms(1) by (simp add: factory_ok_def)
  have "map_of (rev regs) = map_of regs"
    using assms(2) by (intro map_of_perm) (simp_all flip: rev_map)
  then have "map_of ?m = map_of (creators f) ++ map_of regs"
    using smap.lookup_update_all [OF ok, of regs] by simp
  with run_registars_table [OF assms] smap.update_all_invar [OF ok, of regs] show ?thesis
    by (intro exI [of _ "f\<lparr>creators := ?m\<rparr>"]) (simp add: factory_ok_def)
qed

section \<open>Properties\<close>

text \<open>
  C25. What is registered can be created, whatever the order of the static initialisers.  If the
  names of all registered classes are distinct, then running the registrations in any order
  aborts nowhere and builds the same table, in which every registered name creates through the
  creator registered for it and every other name throws \<open>invalid_argument\<close> and creates nothing.
\<close>

theorem factory_registration:
  assumes "distinct (map fst regs)" and "mset regs' = mset regs"
  shows "\<exists>f. run_registars regs' (factory_instance, t) = (Inr (), (f, t)) \<and>
    run_registars regs (factory_instance, t) = (Inr (), (f, t)) \<and>
    (\<forall>ident args st. factory_create f ident args st =
       (case map_of regs ident of
          Some c \<Rightarrow> c args st
        | None \<Rightarrow> (Inl (Raise (Invalid_argument (''Invalid id: '' @ ident))), st)))"
proof -
  have ok: "factory_ok factory_instance" by (simp add: factory_ok_def factory_instance_def)
  have "mset (map fst regs) = mset (map fst regs')" using assms(2) by simp
  then have d': "distinct (map fst regs')" using assms(1) mset_eq_imp_distinct_iff by blast
  have fresh: "map_of (creators factory_instance) i = None" for i
    by (simp add: factory_instance_def)
  obtain f where f: "run_registars regs (factory_instance, t) = (Inr (), (f, t))"
      "map_of (creators f) = map_of regs"
    using run_registars_lookup [OF ok assms(1) fresh, where t = t] by (auto simp: factory_instance_def)
  have "run_registars regs' (factory_instance, t) = run_registars regs (factory_instance, t)"
    by (simp add: run_registars_table [OF ok assms(1) fresh] run_registars_table [OF ok d' fresh]
        table_order_irrelevant [OF assms(2) d'] ok [unfolded factory_ok_def])
  with f show ?thesis
    by (intro exI [of _ f]) (auto simp: factory_create_def act_simps split: option.split)
qed

text \<open>
  A name registered twice aborts the program before \<open>main\<close>, wherever the second
  registration comes and however many others there are.
\<close>

theorem factory_duplicate_aborts:
  assumes "\<not> distinct (map fst regs)"
  shows "fst (run_registars regs (factory_instance, t)) = Inl Assert_failed"
proof -
  have aborts: "\<not> distinct (map fst rs) \<or> (\<exists>j \<in> fst ` set rs. map_of (creators f) j \<noteq> None) \<Longrightarrow>
      factory_ok f \<Longrightarrow> fst (run_registars rs (f, t)) = Inl Assert_failed" for rs f
  proof (induction rs arbitrary: f)
    case Nil
    then show ?case by simp
  next
    case (Cons r rs)
    obtain j c where r: "r = (j, c)" by (cases r)
    show ?case
    proof (cases "map_of (creators f) j")
      case (Some c')
      with r show ?thesis by (simp add: run_registars_def registar_def register_creator_run)
    next
      case None
      let ?f = "f\<lparr>creators := smap_put j c (creators f)\<rparr>"
      from Cons.prems have ok: "factory_ok ?f" "smap_ok (creators f)" by (simp_all add: factory_ok_def)
      have "map_of (creators ?f) = (map_of (creators f))(j \<mapsto> c)" using ok by (simp add: map_of_smap_put)
      with Cons.prems r None
      have "\<not> distinct (map fst rs) \<or> (\<exists>k \<in> fst ` set rs. map_of (creators ?f) k \<noteq> None)"
        by (auto split: if_splits)
      from Cons.IH [OF this ok(1)] None r show ?thesis
        by (simp add: run_registars_def registar_def register_creator_run)
    qed
  qed
  show ?thesis
    by (rule aborts) (simp_all add: assms factory_ok_def factory_instance_def)
qed

text \<open>The names the program registers for execution monitors on Linux, in two orders.\<close>

theorem factory_registration_witness:
  "\<exists>f. run_registars [(''simple'', ret), (''cpu-hopper'', \<lambda>_. ret 1)] (factory_instance, [] :: nat list) =
         (Inr (), (f, [])) \<and>
     factory_create f ''cpu-hopper'' (0::nat) ((), [] :: nat list) = (Inr 1, ((), [])) \<and>
     fst (factory_create f ''no-such'' 0 ((), [] :: nat list)) =
       Inl (Raise (Invalid_argument ''Invalid id: no-such''))"
proof -
  let ?r = "[(''cpu-hopper'', \<lambda>_. ret 1), (''simple'', ret)] :: (string \<times> (nat \<Rightarrow> (unit, nat, nat) act)) list"
  let ?r' = "[(''simple'', ret), (''cpu-hopper'', \<lambda>_. ret 1)] :: (string \<times> (nat \<Rightarrow> (unit, nat, nat) act)) list"
  have "distinct (map fst ?r)" by simp
  moreover have "mset ?r' = mset ?r" by simp
  ultimately obtain f where f: "run_registars ?r' (factory_instance, [] :: nat list) = (Inr (), (f, []))"
      "\<And>ident args st. factory_create f ident args st =
       (case map_of ?r ident of Some c \<Rightarrow> c args st
        | None \<Rightarrow> (Inl (Raise (Invalid_argument (''Invalid id: '' @ ident))), st))"
    using factory_registration [of ?r ?r' "[]"] by blast
  from f(1) show ?thesis by (intro exI [of _ f] conjI) (simp_all add: f(2) act_simps)
qed

theorem factory_duplicate_aborts_witness:
  "fst (run_registars [(''simple'', 1::nat), (''cpu-hopper'', 2), (''simple'', 3)]
     (factory_instance, [] :: nat list)) = Inl Assert_failed"
  by (rule factory_duplicate_aborts) simp

end
