(* ===== verification/Property_Tree.thy ===== *)
theory Property_Tree
  imports Platform
begin

text \<open>
  What the program uses of \<open>boost::property_tree\<close> and \<open>boost::split\<close>, neither of which is
  part of the repository.  The operations are fields of the argument \<open>T\<close>, on trees of an
  arbitrary type \<open>'pt\<close>; a typed \<open>get\<close> answers with the value or with the exception it throws
  (no such path, or not convertible).
\<close>

record 'pt ptree_ops =
  get_string :: "'pt \<Rightarrow> string \<Rightarrow> exn + string"
  get_unsigned :: "'pt \<Rightarrow> string \<Rightarrow> exn + 32 word"
  get_child :: "'pt \<Rightarrow> string \<Rightarrow> exn + 'pt"
  children :: "'pt \<Rightarrow> (string \<times> 'pt) list"
  boost_split :: "(char \<Rightarrow> bool) \<Rightarrow> string \<Rightarrow> string list"

definition lift_get :: "exn + 'a \<Rightarrow> ('s, 'a) sys" where
  "lift_get r = (case r of Inl e \<Rightarrow> raise e | Inr v \<Rightarrow> ret v)"

lemma keeps_lift_get [effects]: "keeps I (lift_get r)"
  and emits_lift_get [effects]: "emits C (lift_get r)"
  by (auto simp: lift_get_def intro!: effects split: sum.split)

section \<open>An implementation, for concrete inputs\<close>

text \<open>Tokens between separators, without compression.\<close>

fun split_tokens :: "(char \<Rightarrow> bool) \<Rightarrow> string \<Rightarrow> string list" where
  "split_tokens sep [] = [[]]"
| "split_tokens sep (c # cs) =
     (if sep c then [] # split_tokens sep cs
      else (c # hd (split_tokens sep cs)) # tl (split_tokens sep cs))"

text \<open>Trees of two levels: a list of named subtrees, and string values at the leaves.\<close>

datatype tree = Leaf string | Node "(string \<times> tree) list"

fun leaf_of :: "tree option \<Rightarrow> exn + string" where
  "leaf_of (Some (Leaf s)) = Inr s"
| "leaf_of _ = Inl (Bad_path ''No such node'')"

fun subtrees :: "tree \<Rightarrow> (string \<times> tree) list" where
  "subtrees (Leaf _) = []"
| "subtrees (Node ts) = ts"

definition tree_ops :: "tree ptree_ops" where
  "tree_ops = \<lparr>get_string = (\<lambda>t path. leaf_of (map_of (subtrees t) path)),
     get_unsigned = (\<lambda>t path. Inr 500),
     get_child = (\<lambda>t path. case map_of (subtrees t) path of
        None \<Rightarrow> Inl (Bad_path ''No such node'') | Some u \<Rightarrow> Inr u),
     children = subtrees, boost_split = split_tokens\<rparr>"

end
