(* ===== verification/Benchmark.thy ===== *)
theory Benchmark
  imports Property_Tree
begin

text \<open>
  \<open>core/benchmark\<close> and \<open>util/parse\<close>: reading the benchmarks of a configuration, and splitting
  a command line into arguments.
\<close>

record benchmark =
  bench_id :: "32 word"
  bench_name :: string
  bench_args :: "string list"

definition parse_cmd :: "'pt ptree_ops \<Rightarrow> string \<Rightarrow> string list" where
  "parse_cmd T cmd = boost_split T (\<lambda>c. c \<in> set '' '') cmd"

definition parse :: "'pt ptree_ops \<Rightarrow> 'pt \<Rightarrow> ('s, benchmark) sys" where
  "parse T pt =
     act_bind (lift_get (get_string T pt ''name'')) (\<lambda>name.
       act_bind (lift_get (get_string T pt ''cmd'')) (\<lambda>cmd.
         ret \<lparr>bench_id = 0, bench_name = name, bench_args = parse_cmd T cmd\<rparr>))"

definition parse_vector :: "'pt ptree_ops \<Rightarrow> 'pt \<Rightarrow> ('s, benchmark list) sys" where
  "parse_vector T pt = transform (\<lambda>elem. parse T (snd elem)) (children T pt)"

section \<open>Splitting\<close>

text \<open>
  How the documentation of \<open>boost::split\<close> describes it without token compression: the input is cut at its first
  separator and the rest is split; an input without separators is one token.
\<close>

definition splits_documented :: "'pt ptree_ops \<Rightarrow> bool" where
  "splits_documented T \<longleftrightarrow>
     (\<forall>sep s. (\<forall>c \<in> set s. \<not> sep c) \<longrightarrow> boost_split T sep s = [s]) \<and>
     (\<forall>sep s c rest. (\<forall>c \<in> set s. \<not> sep c) \<and> sep c \<longrightarrow> boost_split T sep (s @ c # rest) = s # boost_split T sep rest)"

text \<open>Tokens put together again.\<close>

fun join_by :: "char \<Rightarrow> string list \<Rightarrow> string" where
  "join_by sep [] = []"
| "join_by sep [t] = t"
| "join_by sep (t # ts) = t @ sep # join_by sep ts"

lemma split_tokens_nonempty: "split_tokens sep cs \<noteq> []"
  by (cases cs) auto

lemma split_tokens_clean: "t \<in> set (split_tokens sep cs) \<Longrightarrow> c \<in> set t \<Longrightarrow> \<not> sep c"
proof (induction cs arbitrary: t)
  case Nil
  then show ?case by simp
next
  case (Cons d cs)
  show ?case
  proof (cases "sep d \<or> t \<in> set (tl (split_tokens sep cs))")
    case True
    with Cons show ?thesis
      by (cases "split_tokens sep cs") (auto split: if_splits)
  next
    case False
    with Cons.prems have "t = d # hd (split_tokens sep cs)" by auto
    with Cons.IH [of "hd (split_tokens sep cs)"] Cons.prems(2) False split_tokens_nonempty [of sep cs]
    show ?thesis by auto
  qed
qed

lemma join_by_Cons: "ts \<noteq> [] \<Longrightarrow> join_by sep (t # ts) = t @ sep # join_by sep ts"
  by (cases ts) auto

lemma join_split_tokens: "join_by sep (split_tokens (\<lambda>c. c = sep) cs) = cs"
proof (induction cs)
  case Nil
  then show ?case by simp
next
  case (Cons c cs)
  obtain t ts where s: "split_tokens (\<lambda>c. c = sep) cs = t # ts"
    using split_tokens_nonempty [of "\<lambda>c. c = sep" cs] by (cases "split_tokens (\<lambda>c. c = sep) cs") auto
  with Cons show ?case
    by (cases ts) (auto simp: join_by_Cons)
qed

lemma split_tokens_one: "\<forall>c \<in> set s. \<not> sep c \<Longrightarrow> split_tokens sep s = [s]"
  by (induction s) simp_all

lemma split_tokens_cut:
  "\<forall>c \<in> set s. \<not> sep c \<Longrightarrow> sep c \<Longrightarrow> split_tokens sep (s @ c # rest) = s # split_tokens sep rest"
  by (induction s) simp_all

lemma split_is_tokens:
  assumes "splits_documented T"
  shows "boost_split T sep s = split_tokens sep s"
proof (induction s rule: length_induct)
  case (1 s)
  show ?case
  proof (cases "\<exists>c \<in> set s. sep c")
    case False
    then show ?thesis using assms by (simp add: splits_documented_def split_tokens_one)
  next
    case True
    then obtain a c rest where "s = a @ c # rest" "sep c" "\<forall>c \<in> set a. \<not> sep c"
      by (rule split_list_first_propE)
    with 1 assms show ?thesis by (simp add: splits_documented_def split_tokens_cut)
  qed
qed

lemma parse_cmd_tokens: "splits_documented T \<Longrightarrow> parse_cmd T cmd = split_tokens (\<lambda>c. c = CHR '' '') cmd"
  by (simp add: parse_cmd_def split_is_tokens)

lemma length_split_tokens: "length (split_tokens sep cs) = Suc (length (filter sep cs))"
  using split_tokens_nonempty by (induction cs) auto

lemma in_tl: "x \<in> set (tl xs) \<Longrightarrow> x \<in> set xs"
  by (cases xs) simp_all

lemma split_tokens_empty_token:
  "sep c \<Longrightarrow> sep d \<Longrightarrow> [] \<in> set (tl (split_tokens sep (xs @ c # d # ys)))"
proof (induction xs)
  case Nil
  then show ?case by simp
next
  case (Cons x xs)
  then have "[] \<in> set (tl (split_tokens sep (xs @ c # d # ys)))" by simp
  then show ?case by (auto dest: in_tl)
qed

section \<open>Parsing the list of benchmarks\<close>

definition good_bench :: "'pt ptree_ops \<Rightarrow> 'pt \<Rightarrow> bool" where
  "good_bench T pt \<longleftrightarrow>
     (\<exists>n. get_string T pt ''name'' = Inr n) \<and> (\<exists>c. get_string T pt ''cmd'' = Inr c)"

lemma parse_good:
  "get_string T pt ''name'' = Inr n \<Longrightarrow> get_string T pt ''cmd'' = Inr c \<Longrightarrow>
     parse T pt st = (Inr \<lparr>bench_id = 0, bench_name = n, bench_args = parse_cmd T c\<rparr>, st)"
  by (simp add: parse_def lift_get_def act_simps)

lemma parse_bad: "\<not> good_bench T pt \<Longrightarrow> \<exists>e. parse T pt st = (Inl (Raise e), st)"
  by (auto simp: parse_def good_bench_def lift_get_def act_simps split: sum.splits)

definition bench_of :: "'pt ptree_ops \<Rightarrow> 'pt \<Rightarrow> benchmark" where
  "bench_of T pt = \<lparr>bench_id = 0,
     bench_name = (case get_string T pt ''name'' of Inr n \<Rightarrow> n),
     bench_args = (case get_string T pt ''cmd'' of Inr c \<Rightarrow> parse_cmd T c)\<rparr>"

lemma parse_good_bench: "good_bench T pt \<Longrightarrow> parse T pt st = (Inr (bench_of T pt), st)"
  by (auto simp: good_bench_def bench_of_def parse_good)

section \<open>What parsing delivers\<close>

text \<open>
  Command lines.  A command is cut exactly at its spaces: the argument list is never empty,
  no argument contains a space, there is one more argument than there are spaces, and joined by
  spaces the arguments are the command again.  Two spaces in a row therefore
  produce an empty argument, which is passed on to the program that is run.
\<close>

lemma parse_cmd_splits:
  assumes "splits_documented T"
  shows "parse_cmd T cmd \<noteq> [] \<and> (\<forall>arg \<in> set (parse_cmd T cmd). CHR '' '' \<notin> set arg) \<and>
    length (parse_cmd T cmd) = Suc (length (filter (\<lambda>c. c = CHR '' '') cmd)) \<and>
    join_by CHR '' '' (parse_cmd T cmd) = cmd \<and>
    (\<forall>xs ys. cmd = xs @ '' '' @ '' '' @ ys \<longrightarrow> [] \<in> set (parse_cmd T cmd))"
proof -
  have "cmd = xs @ '' '' @ '' '' @ ys \<Longrightarrow> [] \<in> set (parse_cmd T cmd)" for xs ys
    using split_tokens_empty_token [of "\<lambda>c. c = CHR '' ''" "CHR '' ''" "CHR '' ''" xs ys]
    by (auto simp: parse_cmd_tokens [OF assms] dest: in_tl)
  then show ?thesis
    using split_tokens_clean [of _ "\<lambda>c. c = CHR '' ''" cmd]
    by (auto simp: parse_cmd_tokens [OF assms] split_tokens_nonempty length_split_tokens join_split_tokens)
qed

text \<open>
  Parsing the benchmarks.  They are returned in the order of the configuration; the first
  one that lacks a name or a command makes the whole call throw the exception of that lookup,
  whatever follows it.
\<close>

lemma parse_vector_order:
  assumes "\<forall>x \<in> set xs. good_bench T (snd x)"
  shows "(children T pt = xs \<longrightarrow> parse_vector T pt st = (Inr (map (bench_of T \<circ> snd) xs), st)) \<and>
    (\<forall>y ys. children T pt = xs @ y # ys \<and> \<not> good_bench T (snd y) \<longrightarrow>
       (\<exists>e. parse_vector T pt st = (Inl (Raise e), st) \<and> parse T (snd y) st = (Inl (Raise e), st)))"
proof -
  have good: "parse T (snd x) st' = (Inr ((bench_of T \<circ> snd) x), st')" if "x \<in> set xs" for x st'
    using that assms by (simp add: parse_good_bench)
  have "\<exists>e. parse_vector T pt st = (Inl (Raise e), st) \<and> parse T (snd y) st = (Inl (Raise e), st)"
    if c: "children T pt = xs @ y # ys" and bad: "\<not> good_bench T (snd y)" for y ys
  proof -
    obtain e where "parse T (snd y) st = (Inl (Raise e), st)" using parse_bad [OF bad] by blast
    with transform_first_bad [where f = "\<lambda>x. parse T (snd x)" and y = y, OF good] c
    show ?thesis by (simp add: parse_vector_def)
  qed
  moreover have "children T pt = xs \<Longrightarrow> parse_vector T pt st = (Inr (map (bench_of T \<circ> snd) xs), st)"
    using transform_all [where f = "\<lambda>x. parse T (snd x)" and xs = xs, OF good] by (simp add: parse_vector_def comp_def)
  ultimately show ?thesis by blast
qed

lemma tree_ops_split: "splits_documented tree_ops"
  by (simp add: splits_documented_def tree_ops_def split_tokens_one split_tokens_cut)

lemma parse_vector_order_witness:
  "parse_vector tree_ops (Node [([], Node [(''name'', Leaf ''a''), (''cmd'', Leaf ''x y'')])]) ((), []) =
     (Inr [\<lparr>bench_id = 0, bench_name = ''a'', bench_args = [''x'', ''y'']\<rparr>], ((), []))"
proof -
  let ?t = "Node [(''name'', Leaf ''a''), (''cmd'', Leaf ''x y'')]"
  have "\<forall>x \<in> set [([], ?t)]. good_bench tree_ops (snd x)"
    by (simp add: good_bench_def tree_ops_def)
  from parse_vector_order [OF this, of "Node [([], ?t)]" "((), [])"]
  show ?thesis by (simp add: bench_of_def tree_ops_def parse_cmd_def)
qed

end
