(* ===== verification/Exec_Monitor.thy ===== *)
theory Exec_Monitor
  imports Std_Map Concurrent_Queue Platform "HOL-Library.Sublist"
begin

text \<open>
  \<open>core/exec_event\<close> and \<open>core/exec_monitor\<close>: the base class of execution monitors.  The virtual
  member functions of the derived class are a record of actions on the derived object \<open>'m\<close>;
  event handlers are closures over it.  The thread of the monitor is the action \<open>monitor_run\<close>, whose
  argument says which turns of its loop are scheduled and what the other threads do meanwhile: one
  entry per turn, and in it one list of events per \<open>pop\<close>, the events enqueued since the \<open>pop\<close>
  before.  The guard of the loop is read from the manager by the caller of \<open>monitor_run\<close>, since
  only the main thread ever sets it.
\<close>

section \<open>Events\<close>

datatype event_type = PROCESS_CREATED

text \<open>The order \<open>std::map\<close> uses for the keys, that of the underlying integers.\<close>

instantiation event_type :: linorder
begin

definition less_eq_event_type :: "event_type \<Rightarrow> event_type \<Rightarrow> bool" where
  "less_eq_event_type a b \<longleftrightarrow> True"

definition less_event_type :: "event_type \<Rightarrow> event_type \<Rightarrow> bool" where
  "less_event_type a b \<longleftrightarrow> False"

instance
proof
  fix x y :: event_type
  show "x = y" by (cases x; cases y) simp
qed (simp_all add: less_eq_event_type_def less_event_type_def)

end

record exec_event =
  ev_type :: event_type
  ev_pid :: int

definition no_event :: exec_event where
  "no_event = \<lparr>ev_type = PROCESS_CREATED, ev_pid = 0\<rparr>"

section \<open>The monitor\<close>

record 'm monitor_class =
  initialize_impl :: "('m, unit) sys"
  finalize_impl :: "('m, unit) sys"
  prepare_impl :: "('m, unit) sys"
  loop_impl :: "('m, unit) sys"

text \<open>A derived class that only overrides \<open>loop_impl\<close>.\<close>

definition plain_class :: "('m, unit) sys \<Rightarrow> 'm monitor_class" where
  "plain_class loop = \<lparr>initialize_impl = ret (), finalize_impl = ret (), prepare_impl = ret (),
     loop_impl = loop\<rparr>"

record 'm monitor =
  initialized :: bool
  thread_joinable :: bool
  event_queue :: "exec_event cqueue"
  event_handlers :: "(event_type, exec_event \<Rightarrow> ('m, unit) sys) smap"
  impl :: 'm

definition put_impl :: "'m \<Rightarrow> 'm monitor \<Rightarrow> 'm monitor" where
  "put_impl v s = s\<lparr>impl := v\<rparr>"

definition on_impl :: "('m, 'a) sys \<Rightarrow> ('m monitor, 'a) sys" where
  "on_impl = zoom impl put_impl"

definition exec_monitor_new :: "'m \<Rightarrow> 'm monitor" where
  "exec_monitor_new m = \<lparr>initialized = False, thread_joinable = False, event_queue = cq_empty,
     event_handlers = [], impl = m\<rparr>"

definition monitor_initialize :: "'m monitor_class \<Rightarrow> ('m monitor, unit) sys" where
  "monitor_initialize V =
     block
       [assert_that (\<lambda>s. \<not> initialized s),
        on_impl (initialize_impl V),
        modify (\<lambda>s. s\<lparr>initialized := True\<rparr>)]"

definition monitor_finalize :: "'m monitor_class \<Rightarrow> ('m monitor, unit) sys" where
  "monitor_finalize V = block [assert_that initialized, on_impl (finalize_impl V)]"

definition monitor_prepare :: "'m monitor_class \<Rightarrow> ('m monitor, unit) sys" where
  "monitor_prepare V = block [assert_that initialized, on_impl (prepare_impl V)]"

text \<open>Assigning to a \<open>std::thread\<close> that is still joinable ends the program.\<close>

definition monitor_start :: "('m monitor, unit) sys" where
  "monitor_start =
     block
       [assert_that initialized,
        branch thread_joinable (halt Terminated) (modify (\<lambda>s. s\<lparr>thread_joinable := True\<rparr>))]"

definition enqueue_event :: "exec_event \<Rightarrow> ('m monitor, unit) sys" where
  "enqueue_event event = modify (\<lambda>s. s\<lparr>event_queue := cq_push event (event_queue s)\<rparr>)"

definition register_event_handler ::
    "event_type \<Rightarrow> (exec_event \<Rightarrow> ('m, unit) sys) \<Rightarrow> ('m monitor, unit) sys" where
  "register_event_handler type func st =
     (let res = smap_emplace type func (event_handlers (fst st))
      in block [modify (\<lambda>s. s\<lparr>event_handlers := snd res\<rparr>), assert_that (\<lambda>_. fst res)] st)"

definition event_handler :: "exec_event \<Rightarrow> ('m monitor, unit) sys" where
  "event_handler event st =
     (case map_of (event_handlers (fst st)) (ev_type event) of
        None \<Rightarrow> (Inr (), st)
      | Some func \<Rightarrow> on_impl (func event) st)"

text \<open>Other threads enqueue events.\<close>

definition arrive :: "exec_event list \<Rightarrow> 'm monitor \<Rightarrow> 'm monitor" where
  "arrive evs s = s\<lparr>event_queue := fold cq_push evs (event_queue s)\<rparr>"

lemma on_impl_queue: "event_queue (fst (snd (on_impl m st))) = event_queue (fst st)"
  by (simp add: on_impl_def zoom_def put_impl_def split: prod.split)

lemma event_handler_queue: "event_queue (fst (snd (event_handler e st))) = event_queue (fst st)"
  by (simp add: event_handler_def on_impl_queue split: option.split)

lemma pop_found_shrinks:
  "fst (fst (cq_pop_timeout d q)) \<Longrightarrow>
     length (queue (snd (cq_pop_timeout d q))) < length (queue q)"
  by (auto simp: cq_pop_timeout_def split: list.splits)

lemma shorter_unless_empty: "length xs - Suc 0 < length xs \<longleftrightarrow> xs \<noteq> []"
  by (cases xs) simp_all

function process_events :: "exec_event list list \<Rightarrow> ('m monitor, unit) sys" where
  "process_events arrivals st =
     (let s = arrive (concat (take 1 arrivals)) (fst st);
          res = cq_pop_timeout no_event (event_queue s)
      in if \<not> fst (fst res) then (Inr (), (arrive (concat (drop 1 arrivals)) s, snd st))
         else case event_handler (snd (fst res)) (s\<lparr>event_queue := snd res\<rparr>, snd st) of
             (Inl e, st') \<Rightarrow> (Inl e, st')
           | (Inr _, st') \<Rightarrow> process_events (drop 1 arrivals) st')"
  by auto

termination
  by (relation "measures [\<lambda>(arr, st). length arr, \<lambda>(arr, st). length (queue (event_queue (fst st)))]")
    (auto simp: arrive_def pop_found_shrinks event_handler_queue shorter_unless_empty
      dest!: arg_cong [where f = "\<lambda>p. event_queue (fst (snd p))"])

declare process_events.simps [simp del]

text \<open>
  The body of the thread, as far as the turns go.  \<open>over\<close> is what \<open>is_execution_over\<close> answers while
  they are scheduled: before each turn the guard is tested, and when it is over the loop is left.
\<close>

fun monitor_loop :: "'m monitor_class \<Rightarrow> bool \<Rightarrow> exec_event list list list \<Rightarrow> ('m monitor, unit) sys" where
  "monitor_loop V over [] = ret ()"
| "monitor_loop V over (arrivals # turns) =
     (if over then ret ()
      else block [on_impl (loop_impl V), process_events arrivals, monitor_loop V over turns])"

definition monitor_thread ::
    "'m monitor_class \<Rightarrow> bool \<Rightarrow> exec_event list list list \<Rightarrow> ('m monitor, unit) sys" where
  "monitor_thread V over turns = noexcept (monitor_loop V over turns)"

text \<open>
  The thread, if there is one, has some turns.  Between \<open>start\<close> and \<open>join\<close> nobody else touches the
  monitor, except for the queue.
\<close>

definition monitor_run ::
    "'m monitor_class \<Rightarrow> bool \<Rightarrow> exec_event list list list \<Rightarrow> ('m monitor, unit) sys" where
  "monitor_run V over turns = branch thread_joinable (monitor_thread V over turns) (ret ())"

text \<open>
  \<open>join\<close> returns once the thread has left its loop, which it does at the next test of the guard if the
  execution is over; otherwise it goes on for ever, and \<open>join\<close> waits for ever.  Joining
  twice throws.
\<close>

definition monitor_join :: "bool \<Rightarrow> ('m monitor, unit) sys" where
  "monitor_join over =
     block
       [assert_that initialized,
        branch thread_joinable
          (block [if over then ret () else halt Blocked, modify (\<lambda>s. s\<lparr>thread_joinable := False\<rparr>)])
          (raise (System_error 22 ''Invalid argument''))]"

text \<open>The implicit destructor: destroying a joinable \<open>std::thread\<close> ends the program.\<close>

definition monitor_delete :: "('m monitor, unit) sys" where
  "monitor_delete = branch thread_joinable (halt Terminated) (ret ())"

interpretation impl_member: lens impl put_impl
  by unfold_locales (simp_all add: put_impl_def)

section \<open>What the thread does\<close>

definition registered :: "(exec_event \<Rightarrow> ('m, unit) sys) \<Rightarrow> 'm monitor \<Rightarrow> bool" where
  "registered h s \<longleftrightarrow> event_handlers s = [(PROCESS_CREATED, h)]"

lemma registered_frame [simp]:
  "registered h (s\<lparr>event_queue := q\<rparr>) = registered h s" "registered h (arrive evs s) = registered h s"
  "registered h (put_impl v s) = registered h s" "registered h (s\<lparr>initialized := b\<rparr>) = registered h s"
  "registered h (s\<lparr>thread_joinable := b\<rparr>) = registered h s"
  by (simp_all add: registered_def arrive_def put_impl_def)

lemma arrive_simps [simp]:
  "queue (event_queue (arrive evs s)) = queue (event_queue s) @ evs" "impl (arrive evs s) = impl s"
  by (simp_all add: arrive_def cq.items_push_all)

lemma handler_of_registered:
  "registered h s \<Longrightarrow> event_handler e (s, t) = on_impl (h e) (s, t)"
  by (cases "ev_type e") (simp add: registered_def event_handler_def)

lemma put_impl_simps [simp]:
  "put_impl (impl s) s = s" "impl (put_impl m s) = m" "event_queue (put_impl m s) = event_queue s"
  "initialized (put_impl m s) = initialized s" "thread_joinable (put_impl m s) = thread_joinable s"
  by (simp_all add: put_impl_def)

text \<open>One \<open>pop\<close> of the loop.\<close>

lemma process_events_step:
  assumes "registered h s"
  shows "process_events arr (s, t) =
    (case queue (event_queue s) @ concat (take 1 arr) of
       [] \<Rightarrow> (Inr (), (arrive (concat (drop 1 arr)) s, t))
     | e # rest \<Rightarrow>
       (case h e (impl s, t) of
          (Inl x, (m, t')) \<Rightarrow> (Inl x, (put_impl m (s\<lparr>event_queue := \<lparr>queue = rest\<rparr>\<rparr>), t'))
        | (Inr _, (m, t')) \<Rightarrow>
            process_events (drop 1 arr) (put_impl m (s\<lparr>event_queue := \<lparr>queue = rest\<rparr>\<rparr>), t')))"
proof (cases "queue (event_queue s) @ concat (take 1 arr)")
  case Nil
  then have none: "concat (take 1 arr) = []" "queue (event_queue s) = []"
    by (simp_all only: append_is_Nil_conv)
  have "arrive [] s = s" by (simp add: arrive_def)
  with none show ?thesis
    by (subst process_events.simps, unfold none) (simp add: cq_pop_timeout_def Let_def none)
next
  case (Cons e rest)
  let ?s = "s\<lparr>event_queue := \<lparr>queue = rest\<rparr>\<rparr>"
  have "queue (event_queue (arrive (concat (take 1 arr)) s)) = e # rest" using Cons by simp
  then have pop: "cq_pop_timeout no_event (event_queue (arrive (concat (take 1 arr)) s)) =
      ((True, e), \<lparr>queue = rest\<rparr>)"
    by (simp add: cq_pop_timeout_def)
  have "(arrive (concat (take 1 arr)) s)\<lparr>event_queue := \<lparr>queue = rest\<rparr>\<rparr> = ?s"
    by (simp add: arrive_def)
  moreover have "event_handler e (?s, t) = on_impl (h e) (?s, t)"
    using assms by (intro handler_of_registered) simp
  ultimately show ?thesis using Cons pop
    by (subst process_events.simps)
      (auto simp: Let_def on_impl_def zoom_def split: prod.split sum.split)
qed

lemma process_events_none:
  "registered h s \<Longrightarrow> queue (event_queue s) @ concat (take 1 arr) = [] \<Longrightarrow>
     process_events arr (s, t) = (Inr (), (arrive (concat (drop 1 arr)) s, t))"
  by (simp only: process_events_step list.case)

lemma process_events_some:
  "registered h s \<Longrightarrow> queue (event_queue s) @ concat (take 1 arr) = e # rest \<Longrightarrow>
     h e (impl s, t) = (x, (m, t1)) \<Longrightarrow>
     process_events arr (s, t) =
       (let s1 = put_impl m (s\<lparr>event_queue := \<lparr>queue = rest\<rparr>\<rparr>)
        in case x of Inl y \<Rightarrow> (Inl y, (s1, t1)) | Inr _ \<Rightarrow> process_events (drop 1 arr) (s1, t1))"
  by (simp only: process_events_step list.case Let_def) (simp split: sum.split)

lemma process_events_frame:
  "registered h s \<Longrightarrow> process_events arr (s, t) = (r, (s', t')) \<Longrightarrow>
     registered h s' \<and> initialized s' = initialized s \<and> thread_joinable s' = thread_joinable s"
proof (induction "length arr + length (queue (event_queue s) @ concat arr)" arbitrary: arr s t rule: less_induct)
  case less
  let ?next = "\<lambda>m rest. put_impl m (s\<lparr>event_queue := \<lparr>queue = rest\<rparr>\<rparr>)"
  show ?case
  proof (cases "queue (event_queue s) @ concat (take 1 arr)")
    case Nil
    with less.prems show ?thesis
      using process_events_none [OF less.prems(1) Nil, of t] by (auto simp: arrive_def)
  next
    case (Cons e rest)
    have len: "length (drop 1 arr) + length (rest @ concat (drop 1 arr)) <
        length arr + length (queue (event_queue s) @ concat arr)"
      using arg_cong [OF Cons, of length] by (cases arr) auto
    obtain x m t1 where h: "h e (impl s, t) = (x, (m, t1))" by (metis prod.collapse)
    note run = process_events_some [OF less.prems(1) Cons h]
    show ?thesis
    proof (cases x)
      case (Inl y)
      with less.prems run show ?thesis by auto
    next
      case (Inr y)
      with less.prems run have "process_events (drop 1 arr) (?next m rest, t1) = (r, (s', t'))"
        by simp
      with less.hyps [of "drop 1 arr" "?next m rest" t1] len less.prems(1) show ?thesis
        by simp
    qed
  qed
qed

text \<open>A queue an event is taken from is shorter, whatever arrives.\<close>

lemma served_shrinks:
  "q @ concat (take 1 arr) = e # rest \<Longrightarrow>
     length (drop 1 arr) + length (rest @ concat (drop 1 arr)) < length arr + length (q @ concat arr)"
proof -
  assume "q @ concat (take 1 arr) = e # rest"
  then have "length q + length (concat (take 1 arr)) = Suc (length rest)" by (metis length_append length_Cons)
  then show ?thesis by (cases arr) simp_all
qed

text \<open>
  Which events a call of \<open>process_events\<close> handles depends only on what is queued and what arrives:
  \<open>served q arr\<close> are these events and what is left in the queue.
\<close>

function served :: "exec_event list \<Rightarrow> exec_event list list \<Rightarrow> exec_event list \<times> exec_event list" where
  "served q arr =
     (case q @ concat (take 1 arr) of
        [] \<Rightarrow> ([], concat (drop 1 arr))
      | e # rest \<Rightarrow> (let res = served rest (drop 1 arr) in (e # fst res, snd res)))"
  by auto

termination
proof (relation "measure (\<lambda>(q, arr). length arr + length (q @ concat arr))")
  show "((rest, drop 1 arr), q, arr) \<in> measure (\<lambda>(q, arr). length arr + length (q @ concat arr))"
    if "q @ concat (take 1 arr) = e # rest" for q arr e rest
    using served_shrinks [OF that] by simp
qed simp

declare served.simps [simp del]

lemma served_none: "q @ concat (take 1 arr) = [] \<Longrightarrow> served q arr = ([], concat (drop 1 arr))"
  by (simp only: served.simps [of q arr] list.case)

lemma served_some:
  "q @ concat (take 1 arr) = e # rest \<Longrightarrow>
     served q arr = (e # fst (served rest (drop 1 arr)), snd (served rest (drop 1 arr)))"
  by (simp only: served.simps [of q arr] list.case Let_def)

fun served_turns :: "exec_event list \<Rightarrow> exec_event list list list \<Rightarrow> exec_event list list \<times> exec_event list" where
  "served_turns q [] = ([], q)"
| "served_turns q (arr # turns) =
     (let now = served q arr; later = served_turns (snd now) turns in (fst now # fst later, snd later))"

lemma served_all: "fst (served q arr) @ snd (served q arr) = q @ concat arr \<and> prefix q (fst (served q arr))"
proof (induction q arr rule: served.induct)
  case (1 q arr)
  have all: "q @ concat arr = (q @ concat (take 1 arr)) @ concat (drop 1 arr)" by (cases arr) simp_all
  show ?case
  proof (cases "q @ concat (take 1 arr)")
    case Nil
    with all show ?thesis unfolding served_none [OF Nil] by simp
  next
    case (Cons e rest)
    from Cons have "prefix q (e # rest)" by (metis prefixI)
    with 1 [OF Cons] have "prefix q (e # fst (served rest (drop 1 arr)))"
      using prefix_order.trans [of q "e # rest"] by simp
    with 1 [OF Cons] all Cons show ?thesis unfolding served_some [OF Cons] by simp
  qed
qed

lemma served_turns_all:
  "length (fst (served_turns q turns)) = length turns \<and>
   concat (fst (served_turns q turns)) @ snd (served_turns q turns) = q @ concat (concat turns) \<and>
   (\<forall>evs evss'. fst (served_turns q turns) = evs # evss' \<longrightarrow> prefix q evs)"
proof (induction turns arbitrary: q)
  case Nil
  then show ?case by simp
next
  case (Cons arr turns)
  from Cons.IH [of "snd (served q arr)"] served_all [of q arr] show ?case
    by (simp add: Let_def)
qed

text \<open>Processing events is running the handler on the events that are served, one after the other.\<close>

lemma process_events_is_handling:
  assumes "registered h s"
  shows "case process_events arr (s, t) of (r, (s', t')) \<Rightarrow>
    block (map h (fst (served (queue (event_queue s)) arr))) (impl s, t) = (r, (impl s', t')) \<and>
    (r = Inr () \<longrightarrow> queue (event_queue s') = snd (served (queue (event_queue s)) arr))"
  using assms
proof (induction "queue (event_queue s)" arr arbitrary: s t rule: served.induct)
  case (1 arr)
  show ?case
  proof (cases "queue (event_queue s) @ concat (take 1 arr)")
    case Nil
    then show ?thesis
      unfolding process_events_none [OF 1(2) Nil, of t] served_none [OF Nil] by (simp add: ret_def)
  next
    case (Cons e rest)
    let ?next = "\<lambda>m. put_impl m (s\<lparr>event_queue := \<lparr>queue = rest\<rparr>\<rparr>)"
    obtain x m t1 where h: "h e (impl s, t) = (x, (m, t1))" by (rule prod_cases3)
    note run = process_events_some [OF 1(2) Cons h]
    note res = served_some [OF Cons]
    show ?thesis
    proof (cases x)
      case (Inl y)
      with run h show ?thesis unfolding res by simp
    next
      case (Inr y)
      have "queue (event_queue s) @ concat (take 1 arr) = e # queue (event_queue (?next m))" "registered h (?next m)"
        using 1(2) Cons by simp_all
      from 1(1) [OF this, of t1] run h Inr show ?thesis unfolding res by (simp split: prod.splits)
    qed
  qed
qed

text \<open>The thread has its turns, or nothing happens.\<close>

lemma monitor_run_effect:
  assumes "monitor_run V over turns (m, t) = (r, (m', t'))" and "monitor_loop V False turns (m, t) = (r1, (m1, t1))"
  shows "(m' = m \<and> t' = t) \<or> (m' = m1 \<and> t' = t1)"
proof (cases over)
  case True
  then have "monitor_loop V over turns (m, t) = (Inr (), (m, t))" by (cases turns) (simp_all add: ret_def)
  with assms(1) show ?thesis
    by (auto simp: monitor_run_def monitor_thread_def noexcept_def catching_def act_simps split: if_splits)
next
  case False
  with assms show ?thesis
    by (auto simp: monitor_run_def monitor_thread_def noexcept_def catching_def act_simps
        split: if_splits sum.splits stop.splits)
qed

text \<open>Joining a thread whose execution is over, and one whose execution is not.\<close>

lemma join_over:
  "initialized s \<Longrightarrow> thread_joinable s \<Longrightarrow> monitor_join True (s, t) = (Inr (), (s\<lparr>thread_joinable := False\<rparr>, t))"
  and join_not_over: "initialized s \<Longrightarrow> thread_joinable s \<Longrightarrow> monitor_join False (s, t) = (Inl Blocked, (s, t))"
  by (simp_all add: monitor_join_def act_simps)

lemma block_append_run:
  "block as st = (Inr (), st1) \<Longrightarrow> block (as @ bs) st = block bs st1"
  "block as st = (Inl e, st1) \<Longrightarrow> block (as @ bs) st = (Inl e, st1)"
  by (simp_all add: block_append act_bind_def)

text \<open>The turns of the thread; \<open>evss\<close> are the events each of them handles.\<close>

definition turn_of :: "'m monitor_class \<Rightarrow> (exec_event \<Rightarrow> ('m, unit) sys) \<Rightarrow> exec_event list \<Rightarrow> ('m, unit) sys list"
  where "turn_of V h evs = loop_impl V # map h evs"

lemma monitor_loop_served:
  assumes "registered h s"
  defines "q \<equiv> queue (event_queue s)"
  shows "case monitor_loop V False turns (s, t) of (r, (s', t')) \<Rightarrow>
    block (concat (map (turn_of V h) (fst (served_turns q turns)))) (impl s, t) = (r, (impl s', t')) \<and>
    registered h s' \<and> initialized s' = initialized s \<and> thread_joinable s' = thread_joinable s \<and>
    (r = Inr () \<longrightarrow> queue (event_queue s') = snd (served_turns q turns))"
  using assms(1) unfolding q_def
proof (induction turns arbitrary: s t)
  case Nil
  then show ?case by (simp add: ret_def)
next
  case (Cons arr turns)
  let ?q = "queue (event_queue s)"
  obtain x m t1 where loop: "loop_impl V (impl s, t) = (x, (m, t1))" by (rule prod_cases3)
  let ?s1 = "put_impl m s"
  have on: "on_impl (loop_impl V) (s, t) = (x, (?s1, t1))" by (simp add: on_impl_def zoom_def loop)
  have reg1: "registered h ?s1" using Cons.prems by simp
  obtain y s2 t2 where pe: "process_events arr (?s1, t1) = (y, (s2, t2))" by (rule prod_cases3)
  have ev: "block (map h (fst (served ?q arr))) (m, t1) = (y, (impl s2, t2))"
      "y = Inr () \<Longrightarrow> queue (event_queue s2) = snd (served ?q arr)"
    using process_events_is_handling [OF reg1, of arr t1] pe by auto
  note frame = process_events_frame [OF reg1 pe]
  show ?case
  proof (cases x)
    case (Inl e)
    with on loop Cons.prems show ?thesis by (simp add: turn_of_def Let_def)
  next
    case xr: (Inr u)
    show ?thesis
    proof (cases y)
      case (Inl e)
      with ev(1) block_append_run(2) [of "map h (fst (served ?q arr))" "(m, t1)"] on pe xr frame loop show ?thesis
        by (simp add: turn_of_def Let_def)
    next
      case (Inr u')
      obtain r s' t' where rest: "monitor_loop V False turns (s2, t2) = (r, (s', t'))" by (rule prod_cases3)
      have y: "y = Inr ()" using Inr by simp
      note now = block_append_run(1) [OF ev(1) [unfolded y]]
      from Cons.IH [OF conjunct1 [OF frame], of t2] now rest frame ev(2) [OF y] on pe xr loop y
      show ?thesis by (simp add: turn_of_def Let_def split: sum.split)
    qed
  qed
qed

lemma monitor_loop_turns:
  assumes "registered h s"
  shows "\<exists>evss rest. length evss = length turns \<and>
    concat evss @ rest = queue (event_queue s) @ concat (concat turns) \<and>
    (case monitor_loop V False turns (s, t) of (r, (s', t')) \<Rightarrow>
       block (concat (map (turn_of V h) evss)) (impl s, t) = (r, (impl s', t')) \<and>
       registered h s' \<and> initialized s' = initialized s \<and> thread_joinable s' = thread_joinable s \<and>
       (r = Inr () \<longrightarrow> queue (event_queue s') = rest \<and>
          (\<forall>evs evss'. evss = evs # evss' \<longrightarrow> prefix (queue (event_queue s)) evs)))"
proof -
  obtain r s' t' where run: "monitor_loop V False turns (s, t) = (r, (s', t'))" by (rule prod_cases3)
  show ?thesis
    using monitor_loop_served [OF assms, of V turns t] served_turns_all [of "queue (event_queue s)" turns]
    unfolding run by (intro exI conjI) auto
qed

lemma monitor_loop_returned:
  assumes "registered h s" and "monitor_loop V False turns (s, t) = (Inr (), (s', t'))"
  shows "\<exists>evss. length evss = length turns \<and>
    concat evss @ queue (event_queue s') = queue (event_queue s) @ concat (concat turns) \<and>
    block (concat (map (turn_of V h) evss)) (impl s, t) = (Inr (), (impl s', t')) \<and>
    (\<forall>es evss'. evss = es # evss' \<longrightarrow> prefix (queue (event_queue s)) es)"
  using monitor_loop_turns [OF assms(1), of turns V t] unfolding assms(2) by auto

section \<open>What a derived monitor has to guarantee\<close>

text \<open>
  \<open>J\<close> is kept by the two things the thread runs, whatever happens.  Then it holds when the
  thread ends, however it ends.
\<close>

locale monitor_impl =
  fixes V :: "'m monitor_class"
    and h :: "exec_event \<Rightarrow> ('m, unit) sys"
    and J :: "'m \<times> syscall list \<Rightarrow> bool"
  assumes loop_keeps: "maintains J (loop_impl V)"
    and handler_keeps: "maintains J (h e)"
begin

lemma turns_keep: "maintains J (block (concat (map (turn_of V h) evss)))"
  by (intro effects) (auto simp: turn_of_def loop_keeps handler_keeps split: if_splits)

lemma loop_keeps_inv:
  assumes "registered h s" and "J (impl s, t)" and run: "monitor_loop V False turns (s, t) = (r, (s', t'))"
  shows "J (impl s', t')"
proof -
  from monitor_loop_turns [OF assms(1), of turns V t] run obtain evss
    where "block (concat (map (turn_of V h) evss)) (impl s, t) = (r, (impl s', t'))" by auto
  from maintainsD [OF turns_keep this assms(2)] show ?thesis .
qed

lemma thread_keeps_inv:
  assumes "registered h s" and "J (impl s, t)" and "monitor_thread V False turns (s, t) = (r, (s', t'))"
  shows "J (impl s', t')"
proof -
  obtain r' s2 t2 where "monitor_loop V False turns (s, t) = (r', (s2, t2))" by (metis prod.collapse)
  with loop_keeps_inv [OF assms(1,2) this] assms(3) show ?thesis
    by (auto simp: monitor_thread_def noexcept_def catching_def halt_def split: sum.splits stop.splits)
qed

end

text \<open>
  \<open>J evs\<close> is kept and lets both return normally, where \<open>evs\<close> are the events still to be handled.
  Then the thread does not end the program, whatever arrives when.
\<close>

locale monitor_total =
  fixes V :: "'m monitor_class"
    and h :: "exec_event \<Rightarrow> ('m, unit) sys"
    and J :: "exec_event list \<Rightarrow> 'm \<times> syscall list \<Rightarrow> bool"
  assumes loop_returns: "J evs (m, t) \<Longrightarrow> \<exists>m' t'. loop_impl V (m, t) = (Inr (), (m', t')) \<and> J evs (m', t')"
    and handler_returns: "J (e # evs) (m, t) \<Longrightarrow> \<exists>m' t'. h e (m, t) = (Inr (), (m', t')) \<and> J evs (m', t')"
begin

lemma handlers_return:
  "J (evs @ late) (m, t) \<Longrightarrow> \<exists>m' t'. block (map h evs) (m, t) = (Inr (), (m', t')) \<and> J late (m', t')"
proof (induction evs arbitrary: m t)
  case Nil
  then show ?case by simp
next
  case (Cons e evs)
  then obtain m1 t1 where "h e (m, t) = (Inr (), (m1, t1))" "J (evs @ late) (m1, t1)"
    using handler_returns by fastforce
  with Cons.IH show ?case by simp
qed

lemma turn_returns:
  "J (evs @ late) (m, t) \<Longrightarrow> \<exists>m' t'. block (turn_of V h evs) (m, t) = (Inr (), (m', t')) \<and> J late (m', t')"
  using loop_returns [of "evs @ late" m t] handlers_return [of evs late] by (fastforce simp: turn_of_def)

lemma turns_return:
  "J (concat evss @ late) (m, t) \<Longrightarrow>
     \<exists>m' t'. block (concat (map (turn_of V h) evss)) (m, t) = (Inr (), (m', t')) \<and> J late (m', t')"
proof (induction evss arbitrary: m t)
  case Nil
  then show ?case by simp
next
  case (Cons evs evss)
  then obtain m1 t1 where "block (turn_of V h evs) (m, t) = (Inr (), (m1, t1))"
      "J (concat evss @ late) (m1, t1)"
    using turn_returns [of evs "concat evss @ late" m t] by auto
  with Cons.IH [of m1 t1] show ?case by (simp add: block_append_run(1))
qed

lemma thread_returns:
  assumes "registered h s" and J: "J (queue (event_queue s) @ concat (concat turns)) (impl s, t)"
  shows "\<exists>s' t'. monitor_thread V False turns (s, t) = (Inr (), (s', t')) \<and>
    J (queue (event_queue s')) (impl s', t') \<and> registered h s' \<and>
    initialized s' = initialized s \<and> thread_joinable s' = thread_joinable s"
proof -
  obtain r s' t' where run: "monitor_loop V False turns (s, t) = (r, (s', t'))" by (metis prod.collapse)
  from monitor_loop_turns [OF assms(1), of turns V t] run obtain evss late
    where e: "concat evss @ late = queue (event_queue s) @ concat (concat turns)"
      "block (concat (map (turn_of V h) evss)) (impl s, t) = (r, (impl s', t'))"
      "registered h s' \<and> initialized s' = initialized s \<and> thread_joinable s' = thread_joinable s"
      "r = Inr () \<Longrightarrow> queue (event_queue s') = late" by auto
  obtain m' t2 where "block (concat (map (turn_of V h) evss)) (impl s, t) = (Inr (), (m', t2))"
      "J late (m', t2)"
    using turns_return [of evss late "impl s" t] J e(1) by metis
  with e run show ?thesis
    by (auto simp: monitor_thread_def noexcept_def catching_def)
qed

lemma run_returns:
  assumes "registered h s" and "initialized s" and "thread_joinable s"
    and "J (queue (event_queue s) @ concat (concat turns)) (impl s, t)"
  shows "\<exists>s' t'. monitor_run V False turns (s, t) = (Inr (), (s', t')) \<and> initialized s' \<and>
    thread_joinable s' \<and> J (queue (event_queue s')) (impl s', t') \<and> registered h s'"
  using thread_returns [OF assms(1,4)] assms(2,3) by (auto simp: monitor_run_def act_simps)

end

section \<open>Properties\<close>

text \<open>
  C17. Events are handled in order, exactly once.  Whenever events arrive while the monitor's thread
  runs, what the thread does before the execution is over is: in every turn the derived class's loop,
  and then the handler on the events of that turn.  Taken together these events are a prefix of what
  was queued before and what arrived, in the order of arrival; if nothing fails the rest is still
  queued, and everything that was enqueued before the thread started is handled in the first
  turn.  Once the execution is over it does nothing any more.
\<close>

theorem monitor_handles_in_order:
  assumes "registered h s"
  shows "\<exists>evss rest. length evss = length turns \<and>
    concat evss @ rest = queue (event_queue s) @ concat (concat turns) \<and>
    (case monitor_loop V False turns (s, t) of (r, (s', t')) \<Rightarrow>
       block (concat (map (\<lambda>evs. loop_impl V # map h evs) evss)) (impl s, t) = (r, (impl s', t')) \<and>
       (r = Inr () \<longrightarrow> queue (event_queue s') = rest \<and>
          (\<forall>evs evss'. evss = evs # evss' \<longrightarrow> prefix (queue (event_queue s)) evs))) \<and>
    monitor_loop V True turns (s, t) = (Inr (), (s, t))"
proof -
  have over: "monitor_loop V True turns (s, t) = (Inr (), (s, t))" by (cases turns) (simp_all add: ret_def)
  obtain r s' t' where run: "monitor_loop V False turns (s, t) = (r, (s', t'))" by (metis prod.collapse)
  obtain evss late where e: "length evss = length turns"
      "concat evss @ late = queue (event_queue s) @ concat (concat turns)"
      "block (concat (map (turn_of V h) evss)) (impl s, t) = (r, (impl s', t'))"
      "r = Inr () \<Longrightarrow> queue (event_queue s') = late \<and>
        (\<forall>evs evss'. evss = evs # evss' \<longrightarrow> prefix (queue (event_queue s)) evs)"
    using monitor_loop_turns [OF assms, of turns V t] run by auto
  have "turn_of V h = (\<lambda>evs. loop_impl V # map h evs)" by (simp add: turn_of_def fun_eq_iff)
  with e run over show ?thesis by (intro exI [of _ evss] exI [of _ late]) simp
qed

text \<open>A monitor that notes the pids it hears of, with one event queued and one arriving late.\<close>

definition noting_monitor :: "int list monitor" where
  "noting_monitor = (exec_monitor_new [])\<lparr>initialized := True,
     event_queue := \<lparr>queue = [no_event\<lparr>ev_pid := 7\<rparr>]\<rparr>,
     event_handlers := [(PROCESS_CREATED, \<lambda>e. modify (\<lambda>m. m @ [ev_pid e]))]\<rparr>"

theorem monitor_handles_in_order_witness:
  "\<exists>evss rest. length evss = 2 \<and>
     concat evss @ rest = [no_event\<lparr>ev_pid := 7\<rparr>, no_event\<lparr>ev_pid := 8\<rparr>] \<and>
     fst (monitor_loop (plain_class (ret ())) False [[], [[no_event\<lparr>ev_pid := 8\<rparr>]]] (noting_monitor, [])) =
       fst (block (concat (map (\<lambda>evs. ret () # map (\<lambda>e. modify (\<lambda>m. m @ [ev_pid e])) evs) evss)) ([], [] :: syscall list))"
proof -
  have r: "registered (\<lambda>e. modify (\<lambda>m. m @ [ev_pid e])) noting_monitor"
    by (simp add: registered_def noting_monitor_def)
  have q: "queue (event_queue noting_monitor) = [no_event\<lparr>ev_pid := 7\<rparr>]" "impl noting_monitor = []"
    by (simp_all add: noting_monitor_def exec_monitor_new_def)
  have l: "loop_impl (plain_class (ret ())) = ret ()" by (simp add: plain_class_def)
  obtain r' s' t' where run: "monitor_loop (plain_class (ret ())) False [[], [[no_event\<lparr>ev_pid := 8\<rparr>]]]
      (noting_monitor, []) = (r', (s', t'))" by (metis prod.collapse)
  from monitor_handles_in_order [OF r, of "[[], [[no_event\<lparr>ev_pid := 8\<rparr>]]]" "plain_class (ret ())" "[]"]
  obtain evss rest where e: "length evss = length [[], [[no_event\<lparr>ev_pid := 8\<rparr>]]]"
    "concat evss @ rest = [no_event\<lparr>ev_pid := 7\<rparr>] @ concat (concat [[], [[no_event\<lparr>ev_pid := 8\<rparr>]]])"
    "block (concat (map (\<lambda>evs. ret () # map (\<lambda>e. modify (\<lambda>m. m @ [ev_pid e])) evs) evss)) ([], []) =
       (r', (impl s', t'))"
    unfolding q l run prod.case by blast
  then show ?thesis
    by (intro exI [of _ evss] exI [of _ rest]) (simp add: run del: monitor_loop.simps)
qed

end
