(* ===== verification/Simple_Monitor.thy ===== *)
theory Simple_Monitor
  imports Exec_Monitor Property_Tree
begin

text \<open>
  \<open>exec_monitor/simple\<close>: a monitor that only sleeps and ignores the processes it is told about.
\<close>

record simple_monitor =
  sm_sampling_interval :: nat

definition simple_loop_impl :: "platform \<Rightarrow> (simple_monitor, unit) sys" where
  "simple_loop_impl P =
     act_bind (reading sm_sampling_interval) (\<lambda>ms. discard (call P (Sleep_for ms)))"

definition simple_add_process :: "int \<Rightarrow> (simple_monitor, unit) sys" where
  "simple_add_process pid = ret ()"

definition simple_monitor_new :: "'pt ptree_ops \<Rightarrow> 'pt \<Rightarrow> (simple_monitor monitor, unit) sys" where
  "simple_monitor_new T properties =
     act_bind (lift_get (get_unsigned T properties ''exec_monitor.sampling_length'')) (\<lambda>ms.
       block
         [modify (\<lambda>_. exec_monitor_new \<lparr>sm_sampling_interval = unat ms\<rparr>),
          register_event_handler PROCESS_CREATED (\<lambda>event. simple_add_process (ev_pid event))])"

abbreviation simple_class :: "platform \<Rightarrow> simple_monitor monitor_class" where
  "simple_class P \<equiv> plain_class (simple_loop_impl P)"

text \<open>Its thread never fails, and all it asks of the system is to sleep for its interval.\<close>

interpretation simple_monitor: monitor_total "simple_class P" "\<lambda>e. simple_add_process (ev_pid e)" "\<lambda>_ _. True"
  for P
  by unfold_locales
    (auto simp: plain_class_def simple_loop_impl_def simple_add_process_def act_simps)

definition only_sleeps :: "nat \<Rightarrow> simple_monitor \<times> syscall list \<Rightarrow> bool" where
  "only_sleeps ms st \<longleftrightarrow> sm_sampling_interval (fst st) = ms \<and> set (snd st) \<subseteq> {Sleep_for ms}"

interpretation simple_monitor_sleeps: monitor_impl "simple_class P" "\<lambda>e. simple_add_process (ev_pid e)"
  "only_sleeps ms" for P ms
  by unfold_locales
    (auto simp: plain_class_def simple_loop_impl_def simple_add_process_def act_simps only_sleeps_def
      intro!: maintainsI)

text \<open>
  The simple monitor runs to its end.  Constructed from a configuration with a sampling
  length, initialised, prepared and started, its thread returns whatever events arrive and however
  many turns it makes, it can be joined, and the only calls it has made are sleeps of the
  configured length.
\<close>

theorem simple_monitor_runs:
  assumes "get_unsigned T properties ''exec_monitor.sampling_length'' = Inr ms"
  shows "\<exists>s' t'. block [simple_monitor_new T properties, monitor_initialize (simple_class P),
      monitor_prepare (simple_class P), block (map enqueue_event evs), monitor_start,
      monitor_run (simple_class P) False turns, monitor_join True, monitor_finalize (simple_class P), monitor_delete] (s, []) =
    (Inr (), (s', t')) \<and> set t' \<subseteq> {Sleep_for (unat ms)}"
proof -
  let ?h = "\<lambda>e. simple_add_process (ev_pid e)"
  let ?m = "\<lparr>sm_sampling_interval = unat ms\<rparr>"
  let ?s0 = "(exec_monitor_new ?m)\<lparr>event_handlers := [(PROCESS_CREATED, ?h)], initialized := True\<rparr>"
  have enqueued: "block (map enqueue_event evs) (s, t) = (Inr (), (arrive evs s, t))" for s :: "'b monitor" and t
    by (induction evs arbitrary: s) (simp_all add: enqueue_event_def arrive_def act_simps)
  let ?s = "(arrive evs ?s0)\<lparr>thread_joinable := True\<rparr>"
  have pre: "block [simple_monitor_new T properties, monitor_initialize (simple_class P),
      monitor_prepare (simple_class P), block (map enqueue_event evs), monitor_start] (s, []) = (Inr (), (?s, []))"
    using assms by (simp add: simple_monitor_new_def lift_get_def register_event_handler_def
        smap_emplace_def monitor_initialize_def monitor_prepare_def plain_class_def on_impl_def
        monitor_start_def act_simps enqueued exec_monitor_new_def arrive_def put_impl_def)
  have reg: "registered ?h ?s" by (simp add: registered_def arrive_def)
  have "initialized ?s" "thread_joinable ?s" by (simp_all add: arrive_def)
  from simple_monitor.run_returns [OF reg this, where P = P and turns = turns and t = "[]"]
  obtain s1 t' where ran: "monitor_run (simple_class P) False turns (?s, []) = (Inr (), (s1, t'))"
      "initialized s1" "thread_joinable s1" by auto
  let ?s' = "s1\<lparr>thread_joinable := False\<rparr>"
  have "only_sleeps (unat ms) (impl ?s, [])"
    by (simp add: only_sleeps_def arrive_def exec_monitor_new_def)
  moreover obtain r s2 t2 where th: "monitor_thread (simple_class P) False turns (?s, []) = (r, (s2, t2))"
    by (metis prod.collapse)
  ultimately have "only_sleeps (unat ms) (impl s2, t2)"
    by (rule simple_monitor_sleeps.thread_keeps_inv [OF reg])
  moreover have "t2 = t'"
    using ran th by (auto simp: monitor_run_def arrive_def act_simps)
  ultimately have "set t' \<subseteq> {Sleep_for (unat ms)}" by (simp add: only_sleeps_def)
  moreover have "block [simple_monitor_new T properties, monitor_initialize (simple_class P),
      monitor_prepare (simple_class P), block (map enqueue_event evs), monitor_start,
      monitor_run (simple_class P) False turns, monitor_join True, monitor_finalize (simple_class P), monitor_delete] (s, []) =
    (Inr (), (?s', t'))"
    using block_append_run(1) [OF pre, of "[monitor_run (simple_class P) False turns, monitor_join True,
      monitor_finalize (simple_class P), monitor_delete]"] ran
    by (simp add: put_impl_def join_over monitor_finalize_def monitor_delete_def plain_class_def on_impl_def act_simps)
  ultimately show ?thesis by blast
qed

theorem simple_monitor_runs_witness:
  "\<exists>s' t'. block [simple_monitor_new tree_ops (Leaf []), monitor_initialize (simple_class good_platform),
      monitor_prepare (simple_class good_platform), block (map enqueue_event [no_event]), monitor_start,
      monitor_run (simple_class good_platform) False [[], [[no_event]]], monitor_join True,
      monitor_finalize (simple_class good_platform), monitor_delete]
      (exec_monitor_new \<lparr>sm_sampling_interval = 0\<rparr>, []) =
    (Inr (), (s', t')) \<and> set t' \<subseteq> {Sleep_for 500}"
proof -
  have "get_unsigned tree_ops (Leaf []) ''exec_monitor.sampling_length'' = Inr 500"
    by (simp add: tree_ops_def)
  from simple_monitor_runs [OF this, where P = good_platform and evs = "[no_event]"
      and turns = "[[], [[no_event]]]" and s = "exec_monitor_new \<lparr>sm_sampling_interval = 0\<rparr>"]
  moreover have "unat (500 :: 32 word) = 500" by simp
  ultimately show ?thesis by (simp only:)
qed

end
