(* ===== verification/Cpu_Hopper.thy ===== *)
theory Cpu_Hopper
  imports Exec_Monitor Property_Tree Os
begin

text \<open>
  \<open>exec_monitor/cpu_hopper\<close>: each process is bound to a CPU of its own, and in every turn of
  the monitor all processes hop to another CPU.
\<close>

section \<open>State and operations\<close>

record cpu_hopper =
  sampling_interval :: nat
  cpu_mapping :: "(int, nat) smap"
  allocated_cpus :: "bool list"

text \<open>\<open>std::find\<close>: the index of the first element equal to \<open>x\<close>, or the length of the vector.\<close>

fun std_find :: "'a \<Rightarrow> 'a list \<Rightarrow> nat" where
  "std_find x [] = 0"
| "std_find x (y # ys) = (if y = x then 0 else Suc (std_find x ys))"

definition find_available_cpu :: "(cpu_hopper, nat) sys" where
  "find_available_cpu =
     act_bind (reading allocated_cpus) (\<lambda>cpus.
       let it = std_find False cpus
       in if it = length cpus then raise (Runtime_error ''No available CPUs'') else ret it)"

text \<open>A failure to bind is reported on the error stream and otherwise ignored.\<close>

definition bind_process :: "platform \<Rightarrow> int \<Rightarrow> nat \<Rightarrow> (cpu_hopper, unit) sys" where
  "bind_process P pid cpu =
     block
       [catching (os_bind_process P pid cpu) (\<lambda>_. ret ()),
        modify (\<lambda>s. s\<lparr>cpu_mapping := smap_put pid cpu (cpu_mapping s)\<rparr>),
        modify (\<lambda>s. s\<lparr>allocated_cpus := (allocated_cpus s)[cpu := True]\<rparr>)]"

definition hopper_add_process :: "platform \<Rightarrow> int \<Rightarrow> (cpu_hopper, unit) sys" where
  "hopper_add_process P pid =
     act_bind find_available_cpu (\<lambda>cpu.
       block
         [bind_process P pid cpu,
          branch (\<lambda>s. length (cpu_mapping s) = length (allocated_cpus s))
            (raise (Runtime_error ''Too many processes'')) (ret ())])"

definition hop_process :: "platform \<Rightarrow> int \<Rightarrow> nat \<Rightarrow> (cpu_hopper, unit) sys" where
  "hop_process P pid cpu =
     act_bind find_available_cpu (\<lambda>new_cpu.
       block
         [bind_process P pid new_cpu,
          modify (\<lambda>s. s\<lparr>allocated_cpus := (allocated_cpus s)[cpu := False]\<rparr>)])"

text \<open>
  The loop over the map.  Assigning to a key that is present leaves the iterators valid and the
  set of keys as it is, so the loop visits the keys of the map it started with; the CPU is read
  when its turn comes.
\<close>

definition hop_one :: "platform \<Rightarrow> int \<Rightarrow> (cpu_hopper, unit) sys" where
  "hop_one P pid =
     act_bind (reading (\<lambda>s. map_of (cpu_mapping s) pid)) (\<lambda>m.
       case m of None \<Rightarrow> ret () | Some cpu \<Rightarrow> hop_process P pid cpu)"

definition hop_processes :: "platform \<Rightarrow> (cpu_hopper, unit) sys" where
  "hop_processes P =
     act_bind (reading (\<lambda>s. map fst (cpu_mapping s))) (\<lambda>pids. block (map (hop_one P) pids))"

definition hopper_loop_impl :: "platform \<Rightarrow> (cpu_hopper, unit) sys" where
  "hopper_loop_impl P =
     block
       [act_bind (reading sampling_interval) (\<lambda>ms. discard (call P (Sleep_for ms))),
        hop_processes P]"

definition cpu_hopper_new :: "platform \<Rightarrow> 'pt ptree_ops \<Rightarrow> 'pt \<Rightarrow> (cpu_hopper monitor, unit) sys" where
  "cpu_hopper_new P T properties =
     act_bind (lift_get (get_unsigned T properties ''exec_monitor.sampling_length'')) (\<lambda>ms.
       block
         [modify (\<lambda>_. exec_monitor_new
            \<lparr>sampling_interval = unat ms, cpu_mapping = [],
             allocated_cpus = replicate (hardware_concurrency P) False\<rparr>),
          register_event_handler PROCESS_CREATED (\<lambda>event. hopper_add_process P (ev_pid event))])"

abbreviation hopper_class :: "platform \<Rightarrow> cpu_hopper monitor_class" where
  "hopper_class P \<equiv> plain_class (hopper_loop_impl P)"

abbreviation hopper_handler :: "platform \<Rightarrow> exec_event \<Rightarrow> (cpu_hopper, unit) sys" where
  "hopper_handler P \<equiv> \<lambda>event. hopper_add_process P (ev_pid event)"

section \<open>Finding a CPU\<close>

lemma std_find_bound: "std_find x xs \<le> length xs"
  by (induction xs) auto

lemma std_find_found: "std_find x xs < length xs \<Longrightarrow> xs ! std_find x xs = x"
  by (induction xs) auto

lemma std_find_none: "std_find x xs = length xs \<longleftrightarrow> x \<notin> set xs"
  by (induction xs) (auto simp: le_less)

lemma find_available_run:
  "find_available_cpu (s, t) =
     (if False \<in> set (allocated_cpus s) then (Inr (std_find False (allocated_cpus s)), (s, t))
      else (Inl (Raise (Runtime_error ''No available CPUs'')), (s, t)))"
  by (simp add: find_available_cpu_def act_simps Let_def std_find_none)

text \<open>The call a bind makes, on a platform where it makes one.\<close>

definition bind_calls :: "platform \<Rightarrow> int \<Rightarrow> nat \<Rightarrow> syscall list" where
  "bind_calls P pid cpu = (case host P of Linux \<Rightarrow> [Sys_sched_setaffinity pid cpu] | Mac \<Rightarrow> [])"

lemma bind_process_run:
  "bind_process P pid cpu (s, t) =
     (Inr (), (s\<lparr>cpu_mapping := smap_put pid cpu (cpu_mapping s),
        allocated_cpus := (allocated_cpus s)[cpu := True]\<rparr>, t @ bind_calls P pid cpu))"
  by (cases "host P") (simp_all add: bind_process_def bind_calls_def os_defs act_simps)

section \<open>Invariant\<close>

abbreviation cpu_of :: "cpu_hopper \<Rightarrow> int \<Rightarrow> nat option" where
  "cpu_of s \<equiv> map_of (cpu_mapping s)"

text \<open>Every process has a CPU, which exists and is marked allocated, and nobody else has it.\<close>

definition cpus_owned :: "cpu_hopper \<Rightarrow> bool" where
  "cpus_owned s \<longleftrightarrow> smap_ok (cpu_mapping s) \<and>
     (\<forall>p c. cpu_of s p = Some c \<longrightarrow> c < length (allocated_cpus s) \<and> allocated_cpus s ! c) \<and>
     (\<forall>p q c. cpu_of s p = Some c \<and> cpu_of s q = Some c \<longrightarrow> p = q)"

text \<open>Moreover, no CPU is marked allocated without a process that has it.\<close>

definition cpus_exact :: "cpu_hopper \<Rightarrow> bool" where
  "cpus_exact s \<longleftrightarrow> cpus_owned s \<and>
     (\<forall>c < length (allocated_cpus s). allocated_cpus s ! c \<longrightarrow> (\<exists>p. cpu_of s p = Some c))"

lemma available:
  assumes "cpus_exact s" and "length (cpu_mapping s) < length (allocated_cpus s)"
  shows "False \<in> set (allocated_cpus s)"
proof (rule ccontr)
  assume none: "False \<notin> set (allocated_cpus s)"
  have "c \<in> snd ` set (cpu_mapping s)" if c: "c < length (allocated_cpus s)" for c
  proof -
    from none c have "allocated_cpus s ! c" by (metis (full_types) nth_mem)
    with assms(1) c obtain p where "cpu_of s p = Some c" by (auto simp: cpus_exact_def)
    then show ?thesis by (auto dest!: map_of_SomeD intro: rev_image_eqI)
  qed
  then have "{..<length (allocated_cpus s)} \<subseteq> snd ` set (cpu_mapping s)" by auto
  from card_mono [OF _ this] have "length (allocated_cpus s) \<le> card (snd ` set (cpu_mapping s))" by simp
  also have "\<dots> \<le> length (cpu_mapping s)" using card_image_le card_length by (metis List.finite_set le_trans)
  finally show False using assms(2) by simp
qed

definition bound_to :: "int \<Rightarrow> nat \<Rightarrow> cpu_hopper \<Rightarrow> cpu_hopper" where
  "bound_to pid cpu s = s\<lparr>cpu_mapping := smap_put pid cpu (cpu_mapping s),
     allocated_cpus := (allocated_cpus s)[cpu := True]\<rparr>"

definition released :: "nat \<Rightarrow> cpu_hopper \<Rightarrow> cpu_hopper" where
  "released cpu s = s\<lparr>allocated_cpus := (allocated_cpus s)[cpu := False]\<rparr>"

definition is_free :: "nat \<Rightarrow> cpu_hopper \<Rightarrow> bool" where
  "is_free c s \<longleftrightarrow> c < length (allocated_cpus s) \<and> \<not> allocated_cpus s ! c"

lemma bound_to_simps [simp]:
  "allocated_cpus (bound_to p c s) = (allocated_cpus s)[c := True]"
  "cpu_mapping (bound_to p c s) = smap_put p c (cpu_mapping s)"
  "sampling_interval (bound_to p c s) = sampling_interval s"
  "allocated_cpus (released c s) = (allocated_cpus s)[c := False]"
  "cpu_mapping (released c s) = cpu_mapping s"
  "sampling_interval (released c s) = sampling_interval s"
  by (simp_all add: bound_to_def released_def)

lemma first_free: "False \<in> set (allocated_cpus s) \<Longrightarrow> is_free (std_find False (allocated_cpus s)) s"
  using std_find_bound [of False "allocated_cpus s"] std_find_none [of False "allocated_cpus s"]
    std_find_found [of False "allocated_cpus s"]
  by (auto simp: is_free_def le_less)

lemma owned_bound_to:
  assumes "cpus_owned s" and "is_free c s"
  shows "cpus_owned (bound_to p c s)"
  using assms by (auto simp: cpus_owned_def is_free_def map_of_smap_put nth_list_update)

lemma exact_bound_to:
  assumes "cpus_exact s" and "is_free c s" and "cpu_of s p = None"
  shows "cpus_exact (bound_to p c s)"
proof -
  have ok: "smap_ok (cpu_mapping s)" using assms(1) by (simp add: cpus_exact_def cpus_owned_def)
  have "\<exists>q. cpu_of (bound_to p c s) q = Some d"
    if "d < length (allocated_cpus s)" "(allocated_cpus s)[c := True] ! d" for d
  proof (cases "d = c")
    case True
    then show ?thesis using ok by (auto simp: map_of_smap_put)
  next
    case False
    with that have "allocated_cpus s ! d" by (simp add: nth_list_update)
    with that(1) assms(1) obtain q where "cpu_of s q = Some d" by (auto simp: cpus_exact_def)
    with assms(3) show ?thesis using ok by (intro exI [of _ q]) (auto simp: map_of_smap_put)
  qed
  with assms owned_bound_to [of s c p] show ?thesis by (simp add: cpus_exact_def)
qed

lemma owned_hop:
  assumes "cpus_owned s" and "is_free c s" and "cpu_of s p = Some old"
  shows "cpus_owned (released old (bound_to p c s))"
  using assms by (auto simp: cpus_owned_def is_free_def map_of_smap_put nth_list_update)

lemma exact_hop:
  assumes "cpus_exact s" and "is_free c s" and "cpu_of s p = Some old"
  shows "cpus_exact (released old (bound_to p c s))"
proof -
  have ok: "smap_ok (cpu_mapping s)" using assms(1) by (simp add: cpus_exact_def cpus_owned_def)
  have "\<exists>q. cpu_of (bound_to p c s) q = Some d"
    if "d < length (allocated_cpus s)" "(allocated_cpus s)[c := True, old := False] ! d" for d
  proof (cases "d = c")
    case True
    then show ?thesis using ok by (auto simp: map_of_smap_put)
  next
    case False
    with that have d: "allocated_cpus s ! d" "d \<noteq> old" by (cases "d = old"; simp)+
    with that(1) assms(1) obtain q where "cpu_of s q = Some d" by (auto simp: cpus_exact_def)
    with assms(3) d(2) show ?thesis using ok by (intro exI [of _ q]) (auto simp: map_of_smap_put)
  qed
  with assms owned_hop [of s c p old] show ?thesis by (simp add: cpus_exact_def)
qed

section \<open>The operations on this state\<close>

lemma add_process_run:
  "hopper_add_process P pid (s, t) =
     (let c = std_find False (allocated_cpus s); s' = bound_to pid c s
      in if False \<notin> set (allocated_cpus s) then (Inl (Raise (Runtime_error ''No available CPUs'')), (s, t))
         else if length (cpu_mapping s') = length (allocated_cpus s')
         then (Inl (Raise (Runtime_error ''Too many processes'')), (s', t @ bind_calls P pid c))
         else (Inr (), (s', t @ bind_calls P pid c)))"
  by (simp add: hopper_add_process_def find_available_run bind_process_run act_bind_def
      branch_def raise_def halt_def ret_def Let_def bound_to_def)

lemma hop_one_run:
  "hop_one P pid (s, t) =
     (case cpu_of s pid of
        None \<Rightarrow> (Inr (), (s, t))
      | Some old \<Rightarrow>
          let c = std_find False (allocated_cpus s)
          in if False \<in> set (allocated_cpus s)
             then (Inr (), (released old (bound_to pid c s), t @ bind_calls P pid c))
             else (Inl (Raise (Runtime_error ''No available CPUs'')), (s, t)))"
  by (simp add: hop_one_def hop_process_def find_available_run bind_process_run act_bind_def
      reading_def modify_def ret_def Let_def bound_to_def released_def split: option.split)

lemma owned_add: "maintains (\<lambda>st. cpus_owned (fst st)) (hopper_add_process P pid)"
  by (rule maintainsI)
    (auto simp: add_process_run Let_def split: if_splits intro!: owned_bound_to first_free)

lemma owned_hop_one: "maintains (\<lambda>st. cpus_owned (fst st)) (hop_one P pid)"
  by (rule maintainsI)
    (auto simp: hop_one_run Let_def split: if_splits option.splits intro!: owned_hop first_free)

text \<open>There is a CPU to spare, which is all a hop needs.\<close>

definition has_room :: "cpu_hopper \<Rightarrow> bool" where
  "has_room s \<longleftrightarrow> cpus_exact s \<and> length (cpu_mapping s) < length (allocated_cpus s)"

lemma exact_ok: "cpus_exact s \<Longrightarrow> smap_ok (cpu_mapping s)"
  by (simp add: cpus_exact_def cpus_owned_def)

lemma keys_bound_to:
  "smap_ok (cpu_mapping s) \<Longrightarrow> cpu_of s p \<noteq> None \<Longrightarrow>
     map fst (cpu_mapping (bound_to p c s)) = map fst (cpu_mapping s)"
  by (simp add: smap_put_present map_of_eq_None_iff)

lemma hop_one_ok:
  assumes "has_room s" and "cpu_of s p = Some old"
  shows "\<exists>c. let s' = released old (bound_to p c s) in
    hop_one P p (s, t) = (Inr (), (s', t @ bind_calls P p c)) \<and> has_room s' \<and> c \<noteq> old \<and>
    cpu_of s' = (cpu_of s)(p \<mapsto> c) \<and> map fst (cpu_mapping s') = map fst (cpu_mapping s)"
proof -
  let ?c = "std_find False (allocated_cpus s)"
  have ex: "cpus_exact s" and avail: "False \<in> set (allocated_cpus s)"
    using assms(1) available by (auto simp: has_room_def)
  have keys: "map fst (cpu_mapping (bound_to p ?c s)) = map fst (cpu_mapping s)"
    using assms(2) exact_ok [OF ex] by (intro keys_bound_to) simp_all
  from arg_cong [OF this, of length] have len: "length (smap_put p ?c (cpu_mapping s)) = length (cpu_mapping s)"
    by simp
  have "?c \<noteq> old" using ex assms(2) first_free [OF avail]
    by (auto simp: cpus_exact_def cpus_owned_def is_free_def)
  with assms avail keys len exact_hop [OF ex first_free [OF avail] assms(2)] exact_ok [OF ex] show ?thesis
    by (intro exI [of _ ?c]) (simp add: hop_one_run has_room_def map_of_smap_put Let_def)
qed

text \<open>Hopping over a list of processes: each ends on another CPU, the others stay.\<close>

definition hopped :: "int set \<Rightarrow> cpu_hopper \<Rightarrow> cpu_hopper \<Rightarrow> bool" where
  "hopped pids s s' \<longleftrightarrow>
     map fst (cpu_mapping s') = map fst (cpu_mapping s) \<and>
     length (allocated_cpus s') = length (allocated_cpus s) \<and>
     (\<forall>p. if p \<in> pids then cpu_of s' p \<noteq> None \<and> cpu_of s' p \<noteq> cpu_of s p
          else cpu_of s' p = cpu_of s p)"

lemma hop_list:
  assumes "has_room s" and "distinct pids" and "\<And>p. p \<in> set pids \<Longrightarrow> cpu_of s p \<noteq> None"
  shows "\<exists>s'. block (map (hop_one P) pids) (s, t) =
      (Inr (), (s', t @ concat (map (\<lambda>p. bind_calls P p (the (cpu_of s' p))) pids))) \<and>
    has_room s' \<and> hopped (set pids) s s'"
  using assms
proof (induction pids arbitrary: s t)
  case Nil
  then show ?case by (intro exI [of _ s]) (simp add: hopped_def)
next
  case (Cons p pids)
  obtain old where old: "cpu_of s p = Some old" using Cons.prems(3) by fastforce
  from hop_one_ok [OF Cons.prems(1) old, of P t] obtain c where
    c: "hop_one P p (s, t) = (Inr (), (released old (bound_to p c s), t @ bind_calls P p c))"
      "has_room (released old (bound_to p c s))" "c \<noteq> old"
      "cpu_of (released old (bound_to p c s)) = (cpu_of s)(p \<mapsto> c)"
      "map fst (cpu_mapping (released old (bound_to p c s))) = map fst (cpu_mapping s)"
    by (auto simp: Let_def)
  let ?s = "released old (bound_to p c s)"
  have "cpu_of ?s q \<noteq> None" if "q \<in> set pids" for q
    using that Cons.prems(3) by (simp only: c(4)) simp
  from Cons.IH [OF c(2) _ this, of "t @ bind_calls P p c"] Cons.prems(2) obtain s' where
    s': "block (map (hop_one P) pids) (?s, t @ bind_calls P p c) =
        (Inr (), (s', (t @ bind_calls P p c) @ concat (map (\<lambda>p. bind_calls P p (the (cpu_of s' p))) pids)))"
      "has_room s'" "hopped (set pids) ?s s'" by auto
  have p': "cpu_of s' p = Some c"
    using s'(3) Cons.prems(2) c(4) unfolding hopped_def by (metis distinct.simps(2) fun_upd_same)
  have "hopped (set (p # pids)) s s'"
    using s'(3) p' old c(3,4,5) unfolding hopped_def by (auto split: if_splits)
  with s' c(1) p' show ?case by (intro exI [of _ s']) simp
qed

lemma hop_processes_ok:
  assumes "has_room s"
  shows "\<exists>s'. hop_processes P (s, t) =
      (Inr (), (s', t @ concat (map (\<lambda>(p, c). bind_calls P p c) (cpu_mapping s')))) \<and>
    has_room s' \<and> hopped (dom (cpu_of s)) s s'"
proof -
  have ok: "smap_ok (cpu_mapping s)" using assms by (simp add: has_room_def exact_ok)
  have dom: "set (map fst (cpu_mapping s)) = dom (cpu_of s)" by (simp add: dom_map_of_conv_image_fst)
  have "cpu_of s p \<noteq> None" if "p \<in> set (map fst (cpu_mapping s))" for p
    using that by (simp only: dom domIff) simp
  from hop_list [OF assms smap_ok_distinct [OF ok] this, of P t] obtain s' where
    s': "block (map (hop_one P) (map fst (cpu_mapping s))) (s, t) = (Inr (), (s', t @
          concat (map (\<lambda>p. bind_calls P p (the (cpu_of s' p))) (map fst (cpu_mapping s)))))"
      "has_room s'" "hopped (dom (cpu_of s)) s s'"
    unfolding dom by blast
  have "map (\<lambda>p. bind_calls P p (the (cpu_of s' p))) (map fst (cpu_mapping s')) =
      map (\<lambda>(p, c). bind_calls P p c) (cpu_mapping s')"
    using smap_ok_distinct [of "cpu_mapping s'"] s'(2) by (auto simp: has_room_def exact_ok)
  with s' show ?thesis
    by (intro exI [of _ s']) (simp add: hop_processes_def act_bind_def reading_def hopped_def)
qed

lemma hopper_loop_ok:
  assumes "has_room s"
  shows "\<exists>s'. hopper_loop_impl P (s, t) =
      (Inr (), (s', t @ Sleep_for (sampling_interval s) #
         concat (map (\<lambda>(p, c). bind_calls P p c) (cpu_mapping s')))) \<and>
    has_room s' \<and> hopped (dom (cpu_of s)) s s'"
  using hop_processes_ok [OF assms, of P "t @ [Sleep_for (sampling_interval s)]"]
  by (auto simp: hopper_loop_impl_def act_bind_def reading_def discard_def call_def ret_def)

section \<open>The monitor contract\<close>

lemma owned_loop: "maintains (\<lambda>st. cpus_owned (fst st)) (hopper_loop_impl P)"
proof -
  have "maintains (\<lambda>st. cpus_owned (fst st)) (call P c)" for c
    by (rule maintainsI) (auto simp: act_simps)
  then show ?thesis
    by (auto simp: hopper_loop_impl_def hop_processes_def intro!: effects owned_hop_one)
qed

interpretation hopper_owned: monitor_impl "hopper_class P" "hopper_handler P" "\<lambda>st. cpus_owned (fst st)"
  for P
  by unfold_locales (simp_all add: plain_class_def owned_loop owned_add)

text \<open>The processes still to come are new, all different, and leave one CPU over.\<close>

definition room_for :: "nat \<Rightarrow> exec_event list \<Rightarrow> cpu_hopper \<Rightarrow> bool" where
  "room_for n evs s \<longleftrightarrow> cpus_exact s \<and> length (allocated_cpus s) = n \<and>
     distinct (map ev_pid evs) \<and> (\<forall>e \<in> set evs. cpu_of s (ev_pid e) = None) \<and>
     length (cpu_mapping s) + length evs < n"

lemma room_for_loop:
  assumes "room_for n evs s"
  shows "\<exists>s' t'. hopper_loop_impl P (s, t) = (Inr (), (s', t')) \<and> room_for n evs s' \<and>
    dom (cpu_of s') = dom (cpu_of s)"
proof -
  have "has_room s" using assms by (simp add: room_for_def has_room_def)
  from hopper_loop_ok [OF this, of P t] obtain s' t' where
    s': "hopper_loop_impl P (s, t) = (Inr (), (s', t'))" "has_room s'" "hopped (dom (cpu_of s)) s s'"
    by blast
  have keys: "map fst (cpu_mapping s') = map fst (cpu_mapping s)"
      "length (allocated_cpus s') = length (allocated_cpus s)"
    using s'(3) by (simp_all add: hopped_def)
  from arg_cong [OF keys(1), of set] have dom: "dom (cpu_of s') = dom (cpu_of s)"
    by (simp add: dom_map_of_conv_image_fst)
  have none: "cpu_of s' p = None \<longleftrightarrow> cpu_of s p = None" for p using dom by (metis domIff)
  from arg_cong [OF keys(1), of length] have "length (cpu_mapping s') = length (cpu_mapping s)" by simp
  with assms s'(2) keys(2) have "room_for n evs s'" by (simp add: room_for_def has_room_def none)
  with s'(1) dom show ?thesis by blast
qed

lemma room_for_add:
  assumes "room_for n (e # evs) s"
  shows "\<exists>s' t'. hopper_add_process P (ev_pid e) (s, t) = (Inr (), (s', t')) \<and> room_for n evs s' \<and>
    dom (cpu_of s') = insert (ev_pid e) (dom (cpu_of s))"
proof -
  let ?c = "std_find False (allocated_cpus s)"
  let ?s = "bound_to (ev_pid e) ?c s"
  have ex: "cpus_exact s" and new: "cpu_of s (ev_pid e) = None" using assms by (simp_all add: room_for_def)
  then have avail: "False \<in> set (allocated_cpus s)"
    using assms by (intro available) (auto simp: room_for_def)
  have len: "length (smap_put (ev_pid e) ?c (cpu_mapping s)) = Suc (length (cpu_mapping s))"
    using new exact_ok [OF ex] by (simp add: length_smap_put map_of_eq_None_iff)
  have ok: "smap_ok (cpu_mapping s)" by (rule exact_ok [OF ex])
  have "room_for n evs ?s"
    using assms exact_bound_to [OF ex first_free [OF avail] new] len ok
    by (auto simp: room_for_def map_of_smap_put image_iff)
  moreover have "hopper_add_process P (ev_pid e) (s, t) = (Inr (), (?s, t @ bind_calls P (ev_pid e) ?c))"
    using assms avail len by (auto simp: add_process_run Let_def room_for_def)
  ultimately show ?thesis using ok by (simp add: map_of_smap_put)
qed

interpretation hopper_room: monitor_total "hopper_class P" "hopper_handler P"
  "\<lambda>evs st. room_for n evs (fst st)" for P n
proof unfold_locales
  fix evs and m :: cpu_hopper and t :: "syscall list"
  assume "room_for n evs (fst (m, t))"
  then show "\<exists>m' t'. loop_impl (hopper_class P) (m, t) = (Inr (), (m', t')) \<and> room_for n evs (fst (m', t'))"
    using room_for_loop [of n evs m P t] by (auto simp: plain_class_def)
next
  fix e evs and m :: cpu_hopper and t :: "syscall list"
  assume "room_for n (e # evs) (fst (m, t))"
  then show "\<exists>m' t'. hopper_handler P e (m, t) = (Inr (), (m', t')) \<and> room_for n evs (fst (m', t'))"
    using room_for_add [of n e evs m P t] by auto
qed

section \<open>More processes than CPUs\<close>

lemma hopper_only_throws [effects]:
  "outcomes (range Raise) (hopper_add_process P pid)" "outcomes (range Raise) (hopper_loop_impl P)"
proof -
  show "outcomes (range Raise) (hopper_add_process P pid)"
    by (rule outcomesI) (auto simp: add_process_run Let_def split: if_splits)
  have "outcomes (range Raise) (hop_one P p)" for p
    by (rule outcomesI) (auto simp: hop_one_run Let_def split: if_splits option.splits)
  then show "outcomes (range Raise) (hopper_loop_impl P)"
    by (auto simp: hopper_loop_impl_def hop_processes_def intro!: effects)
qed

lemma hopper_thread_outcome:
  assumes "registered (hopper_handler P) s"
  shows "fst (monitor_thread (hopper_class P) False turns (s, t)) \<in> {Inr (), Inl Terminated}"
proof -
  obtain r s' t' where run: "monitor_loop (hopper_class P) False turns (s, t) = (r, (s', t'))"
    by (metis prod.collapse)
  from monitor_loop_turns [OF assms, of turns "hopper_class P" t] run obtain evss
    where b: "block (concat (map (turn_of (hopper_class P) (hopper_handler P)) evss)) (impl s, t) = (r, (impl s', t'))"
    by auto
  have "outcomes (range Raise) (block (concat (map (turn_of (hopper_class P) (hopper_handler P)) evss)))"
    by (intro effects) (auto simp: turn_of_def plain_class_def intro!: effects split: if_splits)
  with b have "r = Inr () \<or> (\<exists>x. r = Inl (Raise x))" by (cases r) (auto dest: outcomesD)
  with run show ?thesis by (auto simp: monitor_thread_def noexcept_def catching_def halt_def)
qed

text \<open>Adding new processes one by one succeeds only as long as a CPU is left over.\<close>

lemma adds_return:
  assumes "block (map (hopper_handler P) evs) (s, t) = (Inr (), st')"
    and "smap_ok (cpu_mapping s)" and "distinct (map ev_pid evs)"
    and "\<And>e. e \<in> set evs \<Longrightarrow> cpu_of s (ev_pid e) = None"
    and "length (cpu_mapping s) < length (allocated_cpus s)"
  shows "length (cpu_mapping s) + length evs < length (allocated_cpus s)"
  using assms
proof (induction evs arbitrary: s t)
  case Nil
  then show ?case by simp
next
  case (Cons e evs)
  let ?s = "bound_to (ev_pid e) (std_find False (allocated_cpus s)) s"
  have new: "cpu_of s (ev_pid e) = None" using Cons.prems(4) by simp
  from Cons.prems(1) obtain t1 where run: "block (map (hopper_handler P) evs) (?s, t1) = (Inr (), st')"
      and len: "length (cpu_mapping ?s) \<noteq> length (allocated_cpus s)"
    by (auto simp: add_process_run Let_def split: if_splits)
  have "length (cpu_mapping ?s) = Suc (length (cpu_mapping s))"
    using new Cons.prems(2) by (simp add: length_smap_put map_of_eq_None_iff)
  moreover have "cpu_of ?s (ev_pid f) = None" if "f \<in> set evs" for f
    using that Cons.prems by (auto simp: map_of_smap_put image_iff)
  ultimately show ?case
    using Cons.IH [OF run] Cons.prems(2,3,5) len by simp
qed

section \<open>Properties\<close>

definition fresh_hopper :: "nat \<Rightarrow> nat \<Rightarrow> cpu_hopper" where
  "fresh_hopper ms n = \<lparr>sampling_interval = ms, cpu_mapping = [], allocated_cpus = replicate n False\<rparr>"


text \<open>
  C19. A CPU of one's own.  Whatever events arrive when, processes reported twice included, and
  however the thread ends: every process the monitor knows has a CPU that exists and is marked
  allocated, and no two processes have the same one.
\<close>

theorem hopper_exclusive:
  assumes "registered (hopper_handler P) s" and "impl s = fresh_hopper ms n"
    and "monitor_thread (hopper_class P) False turns (s, t) = (r, (s', t'))"
    and "(p, c) \<in> set (cpu_mapping (impl s'))" and "(q, d) \<in> set (cpu_mapping (impl s'))"
  shows "c < length (allocated_cpus (impl s')) \<and> allocated_cpus (impl s') ! c \<and> (c = d \<longrightarrow> p = q)"
proof -
  have "cpus_owned (fst (impl s, t))" using assms(2) by (simp add: cpus_owned_def fresh_hopper_def)
  with hopper_owned.thread_keeps_inv [OF assms(1) _ assms(3)] have own: "cpus_owned (impl s')" by simp
  then have "cpu_of (impl s') p = Some c" "cpu_of (impl s') q = Some d"
    using assms(4,5) by (simp_all add: cpus_owned_def smap_ok_distinct)
  with own show ?thesis by (auto simp: cpus_owned_def)
qed

text \<open>
  C20. How many processes fit.  On a machine with \<open>n\<close> CPUs the monitor works with up to \<open>n - 1\<close>
  processes.  If more distinct processes were announced before its thread starts, the first turn of
  the thread throws, nobody catches it, and the whole program ends in \<open>std::terminate\<close>.
\<close>

theorem hopper_capacity:
  assumes "registered (hopper_handler P) s" and "impl s = fresh_hopper ms n" and "0 < n"
    and "queue (event_queue s) = evs" and "distinct (map ev_pid evs)"
  shows "fst (monitor_thread (hopper_class P) False ([] # replicate k []) (s, t)) =
    (if length evs < n then Inr () else Inl Terminated)"
proof (cases "length evs < n")
  case True
  have "room_for n (queue (event_queue s) @ concat (concat ([] # replicate k []))) (fst (impl s, t))"
    using assms True by (simp add: room_for_def cpus_exact_def cpus_owned_def fresh_hopper_def)
  from hopper_room.thread_returns [OF assms(1) this] True show ?thesis by auto
next
  case False
  let ?V = "hopper_class P" and ?h = "hopper_handler P"
  let ?turns = "[] # replicate k [] :: exec_event list list list"
  have "fst (monitor_thread ?V False ?turns (s, t)) \<noteq> Inr ()"
  proof
    assume ok: "fst (monitor_thread ?V False ?turns (s, t)) = Inr ()"
    obtain r s' t' where run: "monitor_loop ?V False ?turns (s, t) = (r, (s', t'))" by (metis prod.collapse)
    with ok have r: "r = Inr ()"
      by (auto simp: monitor_thread_def noexcept_def catching_def halt_def simp del: monitor_loop.simps
          split: sum.splits stop.splits)
    from monitor_loop_returned [OF assms(1) run [unfolded r]] obtain evss where
      e: "length evss = length ?turns" "concat evss @ queue (event_queue s') = evs @ concat (concat ?turns)"
        "block (concat (map (turn_of ?V ?h) evss)) (impl s, t) = (Inr (), (impl s', t'))"
        "\<forall>es evss'. evss = es # evss' \<longrightarrow> prefix evs es"
      unfolding assms(4) by (elim exE conjE) (rule that)
    obtain es evss' where es: "evss = es # evss'" using e(1) by (cases evss) auto
    with e(2,4) have "prefix evs es" "prefix es evs" by (auto simp: prefix_def)
    then have "es = evs" by (rule prefix_order.antisym [rotated])
    with e(3) es have "block (turn_of ?V ?h evs @ concat (map (turn_of ?V ?h) evss')) (impl s, t) =
        (Inr (), (impl s', t'))" by simp
    then obtain st where st: "block (turn_of ?V ?h evs) (impl s, t) = (Inr (), st)"
      using block_append_run(2) [of "turn_of ?V ?h evs" "(impl s, t)"]
      by (cases "block (turn_of ?V ?h evs) (impl s, t)"; cases "fst (block (turn_of ?V ?h evs) (impl s, t))") auto
    have "hopper_loop_impl P (fresh_hopper ms n, t) = (Inr (), (fresh_hopper ms n, t @ [Sleep_for ms]))"
      by (simp add: hopper_loop_impl_def hop_processes_def fresh_hopper_def act_simps)
    with st assms(2) have "block (map ?h evs) (fresh_hopper ms n, t @ [Sleep_for ms]) = (Inr (), st)"
      by (simp add: turn_of_def plain_class_def)
    from adds_return [OF this] assms(3,5) False show False by (simp add: fresh_hopper_def)
  qed
  with hopper_thread_outcome [OF assms(1), of ?turns t] False show ?thesis by auto
qed




definition hopper_example :: "int list \<Rightarrow> cpu_hopper monitor" where
  "hopper_example pids = (exec_monitor_new (fresh_hopper 500 3))\<lparr>initialized := True,
     event_queue := \<lparr>queue = map (\<lambda>p. no_event\<lparr>ev_pid := p\<rparr>) pids\<rparr>,
     event_handlers := [(PROCESS_CREATED, hopper_handler good_platform)]\<rparr>"

lemma hopper_example_simps:
  "registered (hopper_handler good_platform) (hopper_example pids)"
  "impl (hopper_example pids) = fresh_hopper 500 3"
  "queue (event_queue (hopper_example pids)) = map (\<lambda>p. no_event\<lparr>ev_pid := p\<rparr>) pids"
  by (simp_all add: hopper_example_def registered_def exec_monitor_new_def)

theorem hopper_capacity_witness:
  "fst (monitor_thread (hopper_class good_platform) False [[], []] (hopper_example [7, 9], [])) = Inr () \<and>
   fst (monitor_thread (hopper_class good_platform) False [[], []] (hopper_example [7, 9, 8], [])) = Inl Terminated"
  using hopper_capacity [OF hopper_example_simps(1,2) _ hopper_example_simps(3) [of "[7, 9]"],
      where k = 1 and t = "[]"]
    hopper_capacity [OF hopper_example_simps(1,2) _ hopper_example_simps(3) [of "[7, 9, 8]"],
      where k = 1 and t = "[]"]
  by simp

lemma hopper_example_run:
  "case monitor_thread (hopper_class good_platform) False [[]] (hopper_example [7, 9], []) of
     (r, (s', t')) \<Rightarrow> r = Inr () \<and> cpu_mapping (impl s') = [(7, 0), (9, 1)]"
  by code_simp

theorem hopper_exclusive_witness:
  "\<exists>r s' t'. monitor_thread (hopper_class good_platform) False [[]] (hopper_example [7, 9], []) = (r, (s', t')) \<and>
     (7, 0) \<in> set (cpu_mapping (impl s')) \<and> (9, 1) \<in> set (cpu_mapping (impl s')) \<and>
     1 < length (allocated_cpus (impl s')) \<and> allocated_cpus (impl s') ! 1"
proof -
  obtain r s' t' where run:
    "monitor_thread (hopper_class good_platform) False [[]] (hopper_example [7, 9], []) = (r, (s', t'))"
    by (metis prod.collapse)
  with hopper_example_run have m: "(9, 1) \<in> set (cpu_mapping (impl s'))" "(7, 0) \<in> set (cpu_mapping (impl s'))"
    by simp_all
  from hopper_exclusive [OF hopper_example_simps(1,2) run m] m run show ?thesis by auto
qed

end
