(* ===== verification/Hopper_Spec.thy ===== *)
theory Hopper_Spec
  imports Cpu_Hopper
begin

text \<open>
  What the CPU hopper promises, without its vector of flags: a map from processes to CPUs, on which a
  process that is announced gets the lowest CPU that is free and a turn moves one process after the other to
  the lowest CPU that is free at that moment.  A process announced a second time gets another CPU, and the one it
  had is lost for good, which is all there is to remember besides the map.  The monitor with its thread
  refines this, by the abstraction \<open>abs_hopper\<close>.
\<close>

section \<open>Specification\<close>

record hopper_spec =
  has :: "int \<rightharpoonup> nat"
  lost :: "nat set"

definition spec_new :: hopper_spec where
  "spec_new = \<lparr>has = Map.empty, lost = {}\<rparr>"

definition free_cpu :: "nat \<Rightarrow> hopper_spec \<Rightarrow> nat option" where
  "free_cpu n a = List.find (\<lambda>c. c \<notin> ran (has a) \<and> c \<notin> lost a) [0..<n]"

definition spec_add :: "platform \<Rightarrow> nat \<Rightarrow> int \<Rightarrow> (hopper_spec, unit) sys" where
  "spec_add P n pid st =
     (case free_cpu n (fst st) of
        None \<Rightarrow> raise (Runtime_error ''No available CPUs'') st
      | Some c \<Rightarrow>
          let a = \<lparr>has = (has (fst st))(pid \<mapsto> c), lost = lost (fst st) \<union> set_option (has (fst st) pid)\<rparr>
          in (if card (dom (has a)) = n then Inl (Raise (Runtime_error ''Too many processes'')) else Inr (),
              (a, snd st @ bind_calls P pid c)))"

definition spec_hop :: "platform \<Rightarrow> nat \<Rightarrow> int \<Rightarrow> (hopper_spec, unit) sys" where
  "spec_hop P n pid st =
     (if has (fst st) pid = None then (Inr (), st)
      else case free_cpu n (fst st) of
          None \<Rightarrow> raise (Runtime_error ''No available CPUs'') st
        | Some c \<Rightarrow> (Inr (), ((fst st)\<lparr>has := (has (fst st))(pid \<mapsto> c)\<rparr>, snd st @ bind_calls P pid c)))"

definition spec_loop :: "platform \<Rightarrow> nat \<Rightarrow> nat \<Rightarrow> (hopper_spec, unit) sys" where
  "spec_loop P ms n =
     block [discard (call P (Sleep_for ms)),
       act_bind (reading (\<lambda>a. sorted_list_of_set (dom (has a)))) (\<lambda>pids. block (map (spec_hop P n) pids))]"

definition spec_turn :: "platform \<Rightarrow> nat \<Rightarrow> nat \<Rightarrow> exec_event list \<Rightarrow> (hopper_spec, unit) sys list" where
  "spec_turn P ms n evs = spec_loop P ms n # map (\<lambda>e. spec_add P n (ev_pid e)) evs"

section \<open>Abstraction\<close>

definition abs_hopper :: "cpu_hopper \<Rightarrow> hopper_spec" where
  "abs_hopper s = \<lparr>has = cpu_of s,
     lost = {c. c < length (allocated_cpus s) \<and> allocated_cpus s ! c \<and> c \<notin> ran (cpu_of s)}\<rparr>"

definition hopper_ok :: "nat \<Rightarrow> nat \<Rightarrow> cpu_hopper \<Rightarrow> bool" where
  "hopper_ok ms n s \<longleftrightarrow> cpus_owned s \<and> length (allocated_cpus s) = n \<and> sampling_interval s = ms"

lemma hopper_okD:
  assumes "hopper_ok ms n s"
  shows "smap_ok (cpu_mapping s)" and "cpus_owned s" and "length (allocated_cpus s) = n" and "sampling_interval s = ms"
    and "cpu_of s p = Some c \<Longrightarrow> c < n \<and> allocated_cpus s ! c"
    and "cpu_of s p = Some c \<Longrightarrow> cpu_of s q = Some c \<Longrightarrow> p = q"
  using assms by (auto simp: hopper_ok_def cpus_owned_def)

lemma find_first_False:
  "List.find (\<lambda>c. \<not> xs ! c) [0..<length xs] = (if False \<in> set xs then Some (std_find False xs) else None)"
proof (induction xs)
  case Nil
  then show ?case by simp
next
  case (Cons x xs)
  have "List.find Q (map Suc cs) = map_option Suc (List.find (\<lambda>c. Q (Suc c)) cs)" for Q cs
    by (induction cs) simp_all
  moreover have "[0..<length (x # xs)] = 0 # map Suc [0..<length xs]"
    by (simp add: upt_conv_Cons map_Suc_upt del: upt_Suc)
  ultimately show ?case using Cons by (cases x) simp_all
qed

lemma free_cpu_flags:
  assumes "hopper_ok ms n s"
  shows "free_cpu n (abs_hopper s) =
    (if False \<in> set (allocated_cpus s) then Some (std_find False (allocated_cpus s)) else None)"
proof -
  have "(c \<notin> ran (cpu_of s) \<and> c \<notin> lost (abs_hopper s)) \<longleftrightarrow> \<not> allocated_cpus s ! c" if "c < n" for c
    using hopper_okD [OF assms] that by (auto simp: abs_hopper_def ran_def)
  then have "free_cpu n (abs_hopper s) = List.find (\<lambda>c. \<not> allocated_cpus s ! c) [0..<length (allocated_cpus s)]"
    unfolding free_cpu_def hopper_okD(3) [OF assms] by (intro find_cong) (simp_all add: abs_hopper_def)
  then show ?thesis by (simp only: find_first_False)
qed

text \<open>A CPU is bound to a process, and that it had before is kept allocated or released.\<close>

lemma abs_bound_to:
  assumes ok: "hopper_ok ms n s" and free: "is_free c s"
  shows "abs_hopper (bound_to pid c s) =
      \<lparr>has = (cpu_of s)(pid \<mapsto> c), lost = lost (abs_hopper s) \<union> set_option (cpu_of s pid)\<rparr>"
    and "cpu_of s pid = Some old \<Longrightarrow> abs_hopper (released old (bound_to pid c s)) =
      (abs_hopper s)\<lparr>has := (cpu_of s)(pid \<mapsto> c)\<rparr>"
proof -
  note o = hopper_okD [OF ok]
  have ran: "d \<in> ran ((cpu_of s)(pid \<mapsto> c)) \<longleftrightarrow> d = c \<or> (d \<in> ran (cpu_of s) \<and> cpu_of s pid \<noteq> Some d)" for d
  proof -
    have "d \<in> ran ((cpu_of s)(pid \<mapsto> c)) \<longleftrightarrow> d = c \<or> (\<exists>q. q \<noteq> pid \<and> cpu_of s q = Some d)" by (auto simp: ran_def)
    also have "(\<exists>q. q \<noteq> pid \<and> cpu_of s q = Some d) \<longleftrightarrow> d \<in> ran (cpu_of s) \<and> cpu_of s pid \<noteq> Some d"
      unfolding ran_def mem_Collect_eq using o(6) [of _ d] by metis
    finally show ?thesis .
  qed
  have free': "c < n" "\<not> allocated_cpus s ! c" "cpu_of s p \<noteq> Some c" for p
    using free o(3,5) by (auto simp: is_free_def)
  show "abs_hopper (bound_to pid c s) =
      \<lparr>has = (cpu_of s)(pid \<mapsto> c), lost = lost (abs_hopper s) \<union> set_option (cpu_of s pid)\<rparr>"
    using o(3,5) free' by (auto simp: abs_hopper_def map_of_smap_put [OF o(1)] ran nth_list_update split: if_splits)
  show "abs_hopper (released old (bound_to pid c s)) = (abs_hopper s)\<lparr>has := (cpu_of s)(pid \<mapsto> c)\<rparr>"
    if "cpu_of s pid = Some old"
    using o(3) o(5) [OF that] free' that ranI [of "cpu_of s", OF that]
    by (auto simp: abs_hopper_def map_of_smap_put [OF o(1)] ran nth_list_update split: if_splits)
qed

lemma ok_bound_to:
  assumes "hopper_ok ms n s" and "is_free c s"
  shows "hopper_ok ms n (bound_to pid c s)"
    and "cpu_of s pid = Some old \<Longrightarrow> hopper_ok ms n (released old (bound_to pid c s))"
  using assms owned_bound_to owned_hop by (auto simp: hopper_ok_def)

lemma smap_dom:
  assumes "smap_ok m"
  shows "card (dom (map_of m)) = length m" and "sorted_list_of_set (dom (map_of m)) = map fst m"
proof -
  have keys: "dom (map_of m) = set (map fst m)" by (simp add: dom_map_of_conv_image_fst)
  have "distinct (map fst m)" "sorted (map fst m)"
    using assms smap_ok_distinct [OF assms] by (simp_all add: smap_ok_def strict_sorted_imp_sorted)
  then show "sorted_list_of_set (dom (map_of m)) = map fst m" unfolding keys by (intro sorted_list_of_set.idem_if_sorted_distinct)
  show "card (dom (map_of m)) = length m" unfolding keys using smap_ok_distinct [OF assms] distinct_card by fastforce
qed

section \<open>Refinement\<close>

text \<open>On hoppers that are in order, \<open>m\<close> does what \<open>a\<close> does on their abstractions, and leaves them in order.\<close>

definition refines :: "nat \<Rightarrow> nat \<Rightarrow> (cpu_hopper, unit) sys \<Rightarrow> (hopper_spec, unit) sys \<Rightarrow> bool" where
  "refines ms n m a \<longleftrightarrow> (\<forall>s t. hopper_ok ms n s \<longrightarrow> (case m (s, t) of (r, (s', t')) \<Rightarrow>
     a (abs_hopper s, t) = (r, (abs_hopper s', t')) \<and> hopper_ok ms n s'))"

lemma refinesI:
  "(\<And>s t r s' t'. hopper_ok ms n s \<Longrightarrow> m (s, t) = (r, (s', t')) \<Longrightarrow>
     a (abs_hopper s, t) = (r, (abs_hopper s', t')) \<and> hopper_ok ms n s') \<Longrightarrow> refines ms n m a"
  unfolding refines_def by blast

lemma refinesD:
  "refines ms n m a \<Longrightarrow> hopper_ok ms n s \<Longrightarrow> m (s, t) = (r, (s', t')) \<Longrightarrow>
     a (abs_hopper s, t) = (r, (abs_hopper s', t')) \<and> hopper_ok ms n s'"
  unfolding refines_def by (drule spec [of _ s], drule spec [of _ t]) simp

lemma refines_block: "list_all2 (refines ms n) xs ys \<Longrightarrow> refines ms n (block xs) (block ys)"
proof (induction rule: list_all2_induct)
  case Nil
  show ?case by (rule refinesI) (auto simp: ret_def)
next
  case (Cons m xs a ys)
  show ?case
  proof (rule refinesI)
    fix s t r s' t'
    assume ok: "hopper_ok ms n s" and run: "block (m # xs) (s, t) = (r, (s', t'))"
    obtain r1 s1 t1 where m: "m (s, t) = (r1, (s1, t1))" by (rule prod_cases3)
    note one = refinesD [OF Cons(1) ok m]
    show "block (a # ys) (abs_hopper s, t) = (r, (abs_hopper s', t')) \<and> hopper_ok ms n s'"
    proof (cases r1)
      case (Inl e)
      with one m run show ?thesis by auto
    next
      case (Inr x)
      with one m run refinesD [OF Cons(3), of s1 t1] show ?thesis by simp
    qed
  qed
qed

lemma refines_map: "(\<And>x. refines ms n (f x) (g x)) \<Longrightarrow> list_all2 (refines ms n) (map f xs) (map g xs)"
  by (simp add: list_all2_conv_all_nth)

lemma add_refines: "refines ms n (hopper_add_process P pid) (spec_add P n pid)"
proof (rule refinesI)
  fix s t r s' t'
  assume ok: "hopper_ok ms n s" and run: "hopper_add_process P pid (s, t) = (r, (s', t'))"
  let ?c = "std_find False (allocated_cpus s)"
  note o = hopper_okD [OF ok] and free = free_cpu_flags [OF ok]
  show "spec_add P n pid (abs_hopper s, t) = (r, (abs_hopper s', t')) \<and> hopper_ok ms n s'"
  proof (cases "False \<in> set (allocated_cpus s)")
    case False
    with run free ok show ?thesis by (auto simp: add_process_run spec_add_def raise_def halt_def)
  next
    case True
    have put: "smap_ok (smap_put pid ?c (cpu_mapping s))" using o(1) by simp
    have "card (dom ((cpu_of s)(pid \<mapsto> ?c))) = length (smap_put pid ?c (cpu_mapping s))"
      using smap_dom(1) [OF put] by (simp only: map_of_smap_put [OF o(1)])
    moreover have "has (abs_hopper s) = cpu_of s" by (simp add: abs_hopper_def)
    ultimately show ?thesis
      using True run free o(3) ok_bound_to(1) [OF ok first_free [OF True], of pid] abs_bound_to(1) [OF ok first_free [OF True], of pid]
      by (auto simp: add_process_run spec_add_def Let_def simp del: dom_fun_upd split: if_splits)
  qed
qed

lemma hop_refines: "refines ms n (hop_one P pid) (spec_hop P n pid)"
proof (rule refinesI)
  fix s t r s' t'
  assume ok: "hopper_ok ms n s" and run: "hop_one P pid (s, t) = (r, (s', t'))"
  note free = free_cpu_flags [OF ok]
  have has: "has (abs_hopper s) = cpu_of s" by (simp add: abs_hopper_def)
  show "spec_hop P n pid (abs_hopper s, t) = (r, (abs_hopper s', t')) \<and> hopper_ok ms n s'"
  proof (cases "cpu_of s pid")
    case None
    with run ok has show ?thesis by (auto simp: hop_one_run spec_hop_def)
  next
    case old: (Some old)
    show ?thesis
    proof (cases "False \<in> set (allocated_cpus s)")
      case False
      with run free ok has old show ?thesis by (auto simp: hop_one_run spec_hop_def Let_def raise_def halt_def)
    next
      case True
      with run free has old ok_bound_to(2) [OF ok first_free [OF True] old] abs_bound_to(2) [OF ok first_free [OF True] old]
      show ?thesis by (auto simp: hop_one_run spec_hop_def Let_def)
    qed
  qed
qed

lemma loop_refines: "refines ms n (hopper_loop_impl P) (spec_loop P ms n)"
proof (rule refinesI)
  fix s t r s' t'
  assume ok: "hopper_ok ms n s" and run: "hopper_loop_impl P (s, t) = (r, (s', t'))"
  note o = hopper_okD [OF ok]
  have has: "has (abs_hopper s) = cpu_of s" by (simp add: abs_hopper_def)
  have "block (map (hop_one P) (map fst (cpu_mapping s))) (s, t @ [Sleep_for ms]) = (r, (s', t'))"
    using run o(4) by (simp add: hopper_loop_impl_def hop_processes_def act_bind_def reading_def discard_def call_def ret_def
        split: prod.splits sum.splits)
  from refinesD [OF refines_block [OF refines_map [where f = "hop_one P", OF hop_refines]] ok this]
  have "block (map (spec_hop P n) (map fst (cpu_mapping s))) (abs_hopper s, t @ [Sleep_for ms]) = (r, (abs_hopper s', t'))"
    and "hopper_ok ms n s'" by simp_all
  then show "spec_loop P ms n (abs_hopper s, t) = (r, (abs_hopper s', t')) \<and> hopper_ok ms n s'"
    by (auto simp: spec_loop_def has smap_dom(2) [OF o(1)] act_bind_def reading_def discard_def call_def ret_def
        split: prod.splits sum.splits)
qed

lemma turns_refine:
  "list_all2 (refines ms n) (concat (map (turn_of (hopper_class P) (hopper_handler P)) evss))
     (concat (map (spec_turn P ms n) evss))"
proof (induction evss)
  case Nil
  then show ?case by simp
next
  case (Cons evs evss)
  have "list_all2 (refines ms n) (turn_of (hopper_class P) (hopper_handler P) evs) (spec_turn P ms n evs)"
    using refines_map [where f = "hopper_handler P", OF add_refines] loop_refines
    by (simp add: turn_of_def spec_turn_def plain_class_def)
  with Cons show ?case by (simp add: list_all2_appendI)
qed

section \<open>Properties\<close>

text \<open>
  C18. The hopper refines its specification.  Let the thread of a new hopper run on a machine with \<open>n\<close> CPUs
  while events arrive at any time, also several for the same process.  Which events it serves in which turn
  is a function of what is queued and what arrives (\<open>served_turns\<close>), and on these its calls, its outcome, the CPUs the
  processes end up with and the CPUs that are lost are those of the specification: in each turn it
  sleeps, moves the processes in ascending order of the pids each to the lowest CPU that is free, and gives each
  process it hears of the lowest free CPU; with as many processes as CPUs, or no CPU free, it fails.
\<close>

theorem hopper_refines:
  assumes "registered (hopper_handler P) s" and "impl s = fresh_hopper ms n"
    and "monitor_thread (hopper_class P) False turns (s, t) = (r, (s', t'))"
  shows "noexcept (block (concat (map (spec_turn P ms n) (fst (served_turns (queue (event_queue s)) turns))))) (spec_new, t) =
      (r, (abs_hopper (impl s'), t')) \<and>
    (r = Inr () \<longrightarrow> queue (event_queue s') = snd (served_turns (queue (event_queue s)) turns))"
proof -
  let ?served = "served_turns (queue (event_queue s)) turns"
  obtain r1 s1 t1 where loop: "monitor_loop (hopper_class P) False turns (s, t) = (r1, (s1, t1))" by (rule prod_cases3)
  from monitor_loop_served [OF assms(1), of "hopper_class P" turns t] loop have
    b: "block (concat (map (turn_of (hopper_class P) (hopper_handler P)) (fst ?served))) (impl s, t) = (r1, (impl s1, t1))"
    and rest: "r1 = Inr () \<longrightarrow> queue (event_queue s1) = snd ?served" by auto
  have "hopper_ok ms n (impl s)" and new: "abs_hopper (impl s) = spec_new"
    using assms(2) by (auto simp: hopper_ok_def fresh_hopper_def cpus_owned_def abs_hopper_def spec_new_def)
  from refinesD [OF refines_block [OF turns_refine] this(1) b] have
    "block (concat (map (spec_turn P ms n) (fst ?served))) (spec_new, t) = (r1, (abs_hopper (impl s1), t1))"
    unfolding new by simp
  moreover from loop assms(3) have "s' = s1 \<and> t' = t1 \<and> r = (case r1 of Inl (Raise _) \<Rightarrow> Inl Terminated | _ \<Rightarrow> r1)"
    by (auto simp: monitor_thread_def noexcept_def catching_def halt_def split: sum.splits stop.splits)
  ultimately show ?thesis using rest
    by (auto simp: noexcept_def catching_def halt_def split: sum.split stop.split)
qed

text \<open>Three CPUs, two processes, one of them announced twice: its first CPU is lost.\<close>

theorem hopper_refines_witness:
  "\<exists>s' t'. monitor_thread (hopper_class good_platform) False [[]] (hopper_example [7, 9, 7], []) = (Inr (), (s', t')) \<and>
     noexcept (block (spec_turn good_platform 500 3 (map (\<lambda>p. no_event\<lparr>ev_pid := p\<rparr>) [7, 9, 7]))) (spec_new, []) =
       (Inr (), (abs_hopper (impl s'), t')) \<and>
     abs_hopper (impl s') = \<lparr>has = [7 \<mapsto> 2, 9 \<mapsto> 1], lost = {0}\<rparr>"
proof -
  let ?ex = "hopper_example [7, 9, 7]"
  have "case monitor_thread (hopper_class good_platform) False [[]] (?ex, []) of (r, (s', t')) \<Rightarrow>
      r = Inr () \<and> cpu_mapping (impl s') = [(7, 2), (9, 1)] \<and> allocated_cpus (impl s') = [True, True, True]"
    by code_simp
  then obtain s' t' where run: "monitor_thread (hopper_class good_platform) False [[]] (?ex, []) = (Inr (), (s', t'))"
    and fin: "cpu_mapping (impl s') = [(7, 2), (9, 1)]" "allocated_cpus (impl s') = [True, True, True]"
    by (auto split: prod.splits)
  have "fst (served_turns (queue (event_queue ?ex)) [[]]) = [map (\<lambda>p. no_event\<lparr>ev_pid := p\<rparr>) [7, 9, 7]]"
    by code_simp
  moreover note hopper_refines [OF hopper_example_simps(1,2) run]
  moreover have "abs_hopper (impl s') = \<lparr>has = [7 \<mapsto> 2, 9 \<mapsto> 1], lost = {0}\<rparr>"
  proof -
    have "ran (map_of [(7 :: int, 2 :: nat), (9, 1)]) = {1, 2}" by (subst ran_distinct) auto
    moreover have "map_of [(7 :: int, 2 :: nat), (9, 1)] = [7 \<mapsto> 2, 9 \<mapsto> 1]" by (simp add: fun_eq_iff)
    moreover have "{c. c < length [True, True, True] \<and> [True, True, True] ! c \<and> c \<notin> {1, 2}} = {0 :: nat}"
      by (auto simp: less_Suc_eq numeral_2_eq_2)
    ultimately show ?thesis unfolding abs_hopper_def fin by simp
  qed
  ultimately show ?thesis using run by (intro exI [of _ s'] exI [of _ t']) simp
qed

end
