(* ===== verification/Process_Monitor.thy ===== *)
theory Process_Monitor
  imports Std_Map Concurrent_Queue Sync_Process
begin

text \<open>
  \<open>core/process_monitor\<close>: waiting for the first of several processes to end.  Every process added
  gets an asynchronous task that waits for it and reports its pid through a queue; the map
  \<open>status_\<close> holds the futures of the tasks.

  The process objects are shared with the caller; a \<open>shared_ptr\<close> is an index into \<open>shared\<close>.  A
  task is the content of its future together with what it still has to do.  Which task runs when
  is the argument of the operations that wait: a list of turns, each for one task or for the
  thread of the caller.  A task's wait and its push are one turn, making its future ready is another,
  so that the caller may pop a pid whose future is not ready yet.  Since nobody else touches
  a process that a task waits for, nothing is lost by not splitting the wait further.
\<close>

section \<open>State and operations\<close>

datatype task =
    Waiting_pid
  | Waiting_process nat
  | Returning "exn + int"
  | Ready "exn + int"
  | No_state

record 'p process_monitor =
  shared :: "'p list"
  status :: "(int, task) smap"
  ended_process_queue :: "int cqueue"

text \<open>What the template uses of its parameter.\<close>

record 'p process_class =
  pc_wait :: "('p, unit) sys"
  pc_termination_status :: "('p, int) sys"
  pc_pid :: "('p, int) sys"

definition process_monitor_new :: "'p list \<Rightarrow> 'p process_monitor" where
  "process_monitor_new ps = \<lparr>shared = ps, status = [], ended_process_queue = cq_empty\<rparr>"

definition set_task :: "int \<Rightarrow> task \<Rightarrow> 'p process_monitor \<Rightarrow> 'p process_monitor" where
  "set_task pid x s = s\<lparr>status := smap_put pid x (status s)\<rparr>"

definition push_ended :: "int \<Rightarrow> 'p process_monitor \<Rightarrow> 'p process_monitor" where
  "push_ended pid s = s\<lparr>ended_process_queue := cq_push pid (ended_process_queue s)\<rparr>"

definition deref :: "nat \<Rightarrow> ('p, 'a) sys \<Rightarrow> ('p process_monitor, 'a) sys" where
  "deref ptr = zoom (\<lambda>s. shared s ! ptr) (\<lambda>v s. s\<lparr>shared := (shared s)[ptr := v]\<rparr>)"

definition check_duplicated_pid :: "int \<Rightarrow> ('p process_monitor, unit) sys" where
  "check_duplicated_pid pid =
     branch (\<lambda>s. map_of (status s) pid \<noteq> None) (raise (Invalid_argument ''Duplicated pid'')) (ret ())"

definition add_pid :: "int \<Rightarrow> ('p process_monitor, unit) sys" where
  "add_pid pid = block [check_duplicated_pid pid, modify (set_task pid Waiting_pid)]"

definition add_process :: "'p process_class \<Rightarrow> nat \<Rightarrow> ('p process_monitor, unit) sys" where
  "add_process W ptr =
     act_bind (deref ptr (pc_pid W)) (\<lambda>pid.
       block [check_duplicated_pid pid, modify (set_task pid (Waiting_process ptr))])"

definition wait_for_pid :: "platform \<Rightarrow> int \<Rightarrow> ('p process_monitor, int) sys" where
  "wait_for_pid P pid =
     act_bind (call P (Sys_waitpid pid)) (\<lambda>res.
       if rc res = -1 then raise (Runtime_error ''Error waiting for process'')
       else if rc res \<noteq> pid then raise (Runtime_error ''Unexpected error'')
       else act_bind (modify (push_ended pid)) (\<lambda>_. ret (out_status res)))"

definition wait_for_process :: "'p process_class \<Rightarrow> nat \<Rightarrow> ('p process_monitor, int) sys" where
  "wait_for_process W ptr =
     act_bind (deref ptr (pc_wait W)) (\<lambda>_.
       act_bind (deref ptr (pc_termination_status W)) (\<lambda>status.
         act_bind (deref ptr (pc_pid W)) (\<lambda>pid.
           act_bind (modify (push_ended pid)) (\<lambda>_. ret status))))"

text \<open>A turn of a task.  What it throws ends up in its future; an abort ends the program.\<close>

definition finish_with :: "int \<Rightarrow> ('p process_monitor, int) sys \<Rightarrow> ('p process_monitor, unit) sys" where
  "finish_with pid m =
     catching (act_bind m (\<lambda>v. modify (set_task pid (Returning (Inr v)))))
       (\<lambda>e. modify (set_task pid (Returning (Inl e))))"

definition run_task :: "platform \<Rightarrow> 'p process_class \<Rightarrow> int \<Rightarrow> ('p process_monitor, unit) sys" where
  "run_task P W pid =
     act_bind (reading (\<lambda>s. map_of (status s) pid)) (\<lambda>x. case x of
         Some Waiting_pid \<Rightarrow> finish_with pid (wait_for_pid P pid)
       | Some (Waiting_process ptr) \<Rightarrow> finish_with pid (wait_for_process W ptr)
       | Some (Returning r) \<Rightarrow> modify (set_task pid (Ready r))
       | _ \<Rightarrow> ret ())"

datatype turn = Client | Task int

text \<open>The caller waits for a condition; what is left of the schedule is returned.\<close>

fun await ::
    "platform \<Rightarrow> 'p process_class \<Rightarrow> ('p process_monitor \<Rightarrow> bool) \<Rightarrow> turn list
     \<Rightarrow> ('p process_monitor, turn list) sys" where
  "await P W c [] st = (Inl Blocked, st)"
| "await P W c (Client # ts) st = (if c (fst st) then (Inr ts, st) else await P W c ts st)"
| "await P W c (Task pid # ts) st =
     (case run_task P W pid st of (Inl e, st') \<Rightarrow> (Inl e, st') | (Inr _, st') \<Rightarrow> await P W c ts st')"

definition some_ended :: "'p process_monitor \<Rightarrow> bool" where
  "some_ended s \<longleftrightarrow> cq_pop (ended_process_queue s) \<noteq> None"

definition pop_ended :: "('p process_monitor, int) sys" where
  "pop_ended st =
     (case cq_pop (ended_process_queue (fst st)) of
        None \<Rightarrow> (Inl Blocked, st)
      | Some (pid, q) \<Rightarrow> (Inr pid, ((fst st)\<lparr>ended_process_queue := q\<rparr>, snd st)))"

definition future_ready :: "int \<Rightarrow> 'p process_monitor \<Rightarrow> bool" where
  "future_ready pid s = (case map_of (status s) pid of
      Some (Ready _) \<Rightarrow> True | Some No_state \<Rightarrow> True | _ \<Rightarrow> False)"

text \<open>\<open>future::get\<close> on a ready future: it takes the result and leaves no shared state behind.\<close>

definition future_get :: "int \<Rightarrow> ('p process_monitor, int) sys" where
  "future_get pid =
     act_bind (reading (\<lambda>s. map_of (status s) pid)) (\<lambda>x. case x of
         Some (Ready r) \<Rightarrow>
           act_bind (modify (set_task pid No_state)) (\<lambda>_. case r of Inl e \<Rightarrow> raise e | Inr v \<Rightarrow> ret v)
       | _ \<Rightarrow> raise (Logic_error ''No associated state''))"

definition wait_for_any ::
    "platform \<Rightarrow> 'p process_class \<Rightarrow> turn list \<Rightarrow> ('p process_monitor, (int \<times> int) \<times> turn list) sys" where
  "wait_for_any P W sched =
     act_bind (await P W some_ended sched) (\<lambda>sched1.
       act_bind pop_ended (\<lambda>pid.
         act_bind (assert_that (\<lambda>s. map_of (status s) pid \<noteq> None)) (\<lambda>_.
           act_bind (await P W (future_ready pid) sched1) (\<lambda>sched2.
             act_bind (future_get pid) (\<lambda>v.
               act_bind (modify (\<lambda>s. s\<lparr>status := smap_del pid (status s)\<rparr>)) (\<lambda>_.
                 ret ((pid, v), sched2)))))))"

text \<open>The destructor: every future is waited for, in the order of the map.\<close>

fun get_all :: "platform \<Rightarrow> 'p process_class \<Rightarrow> int list \<Rightarrow> turn list \<Rightarrow> ('p process_monitor, turn list) sys" where
  "get_all P W [] sched = ret sched"
| "get_all P W (pid # pids) sched =
     act_bind (await P W (future_ready pid) sched) (\<lambda>sched'.
       act_bind (catching (discard (future_get pid)) (\<lambda>_. ret ())) (\<lambda>_. get_all P W pids sched'))"

definition process_monitor_delete ::
    "platform \<Rightarrow> 'p process_class \<Rightarrow> turn list \<Rightarrow> ('p process_monitor, turn list) sys" where
  "process_monitor_delete P W sched =
     act_bind (reading (\<lambda>s. map fst (status s))) (\<lambda>pids. get_all P W pids sched)"

text \<open>A client: processes are added, exceptions caught, and results collected.\<close>

datatype pm_op = Add_pid int | Add_process nat | Wait_any "turn list"

fun pm_session :: "platform \<Rightarrow> 'p process_class \<Rightarrow> pm_op list \<Rightarrow> ('p process_monitor, (int \<times> int) list) sys" where
  "pm_session P W [] = ret []"
| "pm_session P W (Add_pid pid # ops) =
     act_bind (catching (add_pid pid) (\<lambda>_. ret ())) (\<lambda>_. pm_session P W ops)"
| "pm_session P W (Add_process ptr # ops) =
     act_bind (catching (add_process W ptr) (\<lambda>_. ret ())) (\<lambda>_. pm_session P W ops)"
| "pm_session P W (Wait_any sched # ops) =
     act_bind (wait_for_any P W sched) (\<lambda>res.
       act_bind (pm_session P W ops) (\<lambda>rs. ret (fst res # rs)))"

definition sync_class :: "platform \<Rightarrow> sync_process process_class" where
  "sync_class P = \<lparr>pc_wait = sync_wait P, pc_termination_status = sync_termination_status,
     pc_pid = sync_pid\<rparr>"


section \<open>What a process has to offer\<close>

text \<open>The statuses \<open>waitpid\<close> reported in a log, and how often it was called for a pid.\<close>

definition reported_in :: "platform \<Rightarrow> syscall list \<Rightarrow> int \<Rightarrow> int \<Rightarrow> bool" where
  "reported_in P t pid v \<longleftrightarrow> (\<exists>i < length t. t ! i = Sys_waitpid pid \<and>
     rc (answer P (take i t) (t ! i)) \<noteq> -1 \<and> out_status (answer P (take i t) (t ! i)) = v)"

definition waits :: "syscall list \<Rightarrow> int \<Rightarrow> nat" where
  "waits t pid = count_list t (Sys_waitpid pid)"

lemma reported_in_snoc:
  "reported_in P t pid v \<Longrightarrow> reported_in P (t @ [c]) pid v"
  "rc (answer P t (Sys_waitpid pid)) \<noteq> -1 \<Longrightarrow>
     reported_in P (t @ [Sys_waitpid pid]) pid (out_status (answer P t (Sys_waitpid pid)))"
proof -
  show "reported_in P (t @ [c]) pid v" if "reported_in P t pid v"
  proof -
    from that obtain i where "i < length t" "t ! i = Sys_waitpid pid"
      "rc (answer P (take i t) (t ! i)) \<noteq> -1" "out_status (answer P (take i t) (t ! i)) = v"
      unfolding reported_in_def by blast
    then show ?thesis unfolding reported_in_def by (intro exI [of _ i]) (simp add: nth_append)
  qed
  show "reported_in P (t @ [Sys_waitpid pid]) pid (out_status (answer P t (Sys_waitpid pid)))"
    if "rc (answer P t (Sys_waitpid pid)) \<noteq> -1"
    using that by (auto simp: reported_in_def intro!: exI [of _ "length t"])
qed

lemma waits_snoc [simp]:
  "waits (t @ [Sys_waitpid pid]) q = waits t q + (if q = pid then 1 else 0)" "waits [] q = 0"
  by (simp_all add: waits_def)

text \<open>
  \<open>fresh p\<close>: the process can be waited for.  Its wait is one \<open>waitpid\<close>, which fails with an
  exception or leaves the status it delivered to be asked for.
\<close>

locale waitable =
  fixes P :: platform
    and W :: "'p process_class"
    and fresh :: "'p \<Rightarrow> bool"
    and pid_of :: "'p \<Rightarrow> int"
  assumes pid_run: "fresh p \<Longrightarrow> pc_pid W (p, t) = (Inr (pid_of p), (p, t))"
    and wait_fails: "fresh p \<Longrightarrow> rc (answer P t (Sys_waitpid (pid_of p))) = -1 \<Longrightarrow>
      \<exists>e p'. pc_wait W (p, t) = (Inl (Raise e), (p', t @ [Sys_waitpid (pid_of p)]))"
    and wait_works: "fresh p \<Longrightarrow> rc (answer P t (Sys_waitpid (pid_of p))) \<noteq> -1 \<Longrightarrow>
      \<exists>p'. pc_wait W (p, t) = (Inr (), (p', t @ [Sys_waitpid (pid_of p)])) \<and>
        (\<forall>u. pc_termination_status W (p', u) =
            (Inr (out_status (answer P t (Sys_waitpid (pid_of p)))), (p', u)) \<and>
          pc_pid W (p', u) = (Inr (pid_of p), (p', u)))"

interpretation sync_waitable: waitable P "sync_class P"
  "\<lambda>p. started (sp_process p) \<and> \<not> terminated (sp_process p)" "\<lambda>p. proc_pid (sp_process p)" for P
  by unfold_locales
    (auto simp: sync_class_def sync_pid_def sync_wait_def sync_termination_status_def on_process_def
      put_process_def process_defs act_simps)

section \<open>Tasks\<close>

definition waiting :: "'p process_monitor \<Rightarrow> int \<Rightarrow> bool" where
  "waiting s pid \<longleftrightarrow> (case map_of (status s) pid of
     Some Waiting_pid \<Rightarrow> True | Some (Waiting_process _) \<Rightarrow> True | _ \<Rightarrow> False)"

definition result_of :: "'p process_monitor \<Rightarrow> int \<Rightarrow> (exn + int) option" where
  "result_of s pid = (case map_of (status s) pid of
     Some (Returning r) \<Rightarrow> Some r | Some (Ready r) \<Rightarrow> Some r | _ \<Rightarrow> None)"

lemma set_task_simps [simp]:
  "shared (set_task pid x s) = shared s" "ended_process_queue (set_task pid x s) = ended_process_queue s"
  "status (set_task pid x s) = smap_put pid x (status s)"
  "status (push_ended pid s) = status s" "shared (push_ended pid s) = shared s"
  "queue (ended_process_queue (push_ended pid s)) = queue (ended_process_queue s) @ [pid]"
  by (simp_all add: set_task_def push_ended_def cq_push_def)

lemma some_ended_iff: "some_ended s \<longleftrightarrow> queue (ended_process_queue s) \<noteq> []"
  using cq.pop_blocks [of "ended_process_queue s"] by (simp add: some_ended_def)

text \<open>Exactly the pids whose wait worked are in the queue, except for \<open>X\<close>, which the client has popped.\<close>

definition queue_ok :: "int set \<Rightarrow> 'p process_monitor \<Rightarrow> bool" where
  "queue_ok X s \<longleftrightarrow> distinct (queue (ended_process_queue s)) \<and>
     X \<inter> set (queue (ended_process_queue s)) = {} \<and>
     X \<union> set (queue (ended_process_queue s)) = {pid. \<exists>v. result_of s pid = Some (Inr v)}"

text \<open>How many turns a task still needs.\<close>

definition turns_left :: "task option \<Rightarrow> nat" where
  "turns_left x = (case x of
     Some Waiting_pid \<Rightarrow> 2 | Some (Waiting_process _) \<Rightarrow> 2 | Some (Returning _) \<Rightarrow> 1 | _ \<Rightarrow> 0)"

text \<open>
  What a turn of the task of \<open>pid\<close> does: nothing any more, make its future ready, or wait, by one
  \<open>waitpid\<close>, and queue its pid if that worked.
\<close>

inductive task_step ::
    "platform \<Rightarrow> int \<Rightarrow> 'p process_monitor \<times> syscall list \<Rightarrow> 'p process_monitor \<times> syscall list \<Rightarrow> bool"
  for P pid where
  idle: "turns_left (map_of (status s) pid) = 0 \<Longrightarrow> task_step P pid (s, t) (s, t)"
| settle: "map_of (status s) pid = Some (Returning r) \<Longrightarrow>
    task_step P pid (s, t) (set_task pid (Ready r) s, t)"
| waited: "waiting s pid \<Longrightarrow> status s' = smap_put pid (Returning r) (status s) \<Longrightarrow>
    queue (ended_process_queue s') =
      queue (ended_process_queue s) @ (case r of Inl _ \<Rightarrow> [] | Inr _ \<Rightarrow> [pid]) \<Longrightarrow>
    length (shared s') = length (shared s) \<Longrightarrow>
    (\<And>ptr. map_of (status s) pid \<noteq> Some (Waiting_process ptr) \<Longrightarrow> shared s' ! ptr = shared s ! ptr) \<Longrightarrow>
    (\<And>v. r = Inr v \<Longrightarrow> rc (answer P t (Sys_waitpid pid)) \<noteq> -1 \<and>
      v = out_status (answer P t (Sys_waitpid pid))) \<Longrightarrow>
    (\<And>e. r = Inl e \<Longrightarrow> rc (answer P t (Sys_waitpid pid)) \<noteq> pid \<or> pid = -1) \<Longrightarrow>
    task_step P pid (s, t) (s', t @ [Sys_waitpid pid])"

definition step_closed :: "platform \<Rightarrow> ('p process_monitor \<Rightarrow> bool) \<Rightarrow> bool" where
  "step_closed P I \<longleftrightarrow> (\<forall>pid s t s' t'. I s \<and> task_step P pid (s, t) (s', t') \<and> smap_ok (status s) \<longrightarrow> I s')"

inductive_cases task_stepE: "task_step P pid (s, t) (s', t')"

lemma task_step_cases:
  assumes "task_step P pid (s, t) (s', t')"
  obtains (idle) "s' = s" and "t' = t" and "turns_left (map_of (status s) pid) = 0"
  | (settle) r where "map_of (status s) pid = Some (Returning r)" and "s' = set_task pid (Ready r) s"
      and "t' = t"
  | (waited) r where "waiting s pid" and "t' = t @ [Sys_waitpid pid]"
      and "status s' = smap_put pid (Returning r) (status s)"
      and "queue (ended_process_queue s') =
        queue (ended_process_queue s) @ (case r of Inl _ \<Rightarrow> [] | Inr _ \<Rightarrow> [pid])"
      and "length (shared s') = length (shared s)"
      and "\<And>ptr. map_of (status s) pid \<noteq> Some (Waiting_process ptr) \<Longrightarrow> shared s' ! ptr = shared s ! ptr"
      and "\<And>v. r = Inr v \<Longrightarrow> rc (answer P t (Sys_waitpid pid)) \<noteq> -1 \<and>
        v = out_status (answer P t (Sys_waitpid pid))"
      and "\<And>e. r = Inl e \<Longrightarrow> rc (answer P t (Sys_waitpid pid)) \<noteq> pid \<or> pid = -1"
  using assms by (elim task_stepE) (auto intro: that)

context waitable
begin

text \<open>
  The invariant.  \<open>A\<close> are the pids ever added, \<open>X\<close> the one the client has popped but not yet
  returned.  Exactly those added that are not waiting any more have been waited for, once; those
  whose wait worked have the result the kernel reported.
\<close>

definition pointers_ok :: "'p process_monitor \<Rightarrow> bool" where
  "pointers_ok s \<longleftrightarrow> (\<forall>pid ptr. map_of (status s) pid = Some (Waiting_process ptr) \<longrightarrow>
     ptr < length (shared s) \<and> fresh (shared s ! ptr) \<and> pid_of (shared s ! ptr) = pid)"

definition base_inv :: "int set \<Rightarrow> 'p process_monitor \<times> syscall list \<Rightarrow> bool" where
  "base_inv A st \<longleftrightarrow> smap_ok (status (fst st)) \<and> pointers_ok (fst st) \<and>
     dom (map_of (status (fst st))) \<subseteq> A \<and>
     (\<forall>pid. waits (snd st) pid = (if pid \<in> A \<and> \<not> waiting (fst st) pid then 1 else 0))"

definition pm_inv :: "int set \<Rightarrow> int set \<Rightarrow> 'p process_monitor \<times> syscall list \<Rightarrow> bool" where
  "pm_inv A X st \<longleftrightarrow> base_inv A st \<and> queue_ok X (fst st) \<and> No_state \<notin> ran (map_of (status (fst st))) \<and>
     (\<forall>pid v. result_of (fst st) pid = Some (Inr v) \<longrightarrow> reported_in P (snd st) pid v)"

text \<open>Processes that have not been added yet stay as they are.\<close>

definition kept :: "int set \<Rightarrow> 'p process_monitor \<Rightarrow> 'p process_monitor \<Rightarrow> bool" where
  "kept A s s' \<longleftrightarrow> length (shared s') = length (shared s) \<and>
     (\<forall>ptr < length (shared s). pid_of (shared s ! ptr) \<notin> A \<longrightarrow> shared s' ! ptr = shared s ! ptr)"

lemma kept_refl [simp]: "kept A s s"
  and kept_trans: "kept A s s' \<Longrightarrow> kept A s' s'' \<Longrightarrow> kept A s s''"
  by (auto simp: kept_def)

lemma pid_waited:
  assumes "map_of (status s) pid = Some Waiting_pid"
  shows "\<exists>st'. run_task P W pid (s, t) = (Inr (), st') \<and> task_step P pid (s, t) st'"
proof -
  let ?r = "answer P t (Sys_waitpid pid)"
  let ?res = "if rc ?r = -1 then Inl (Runtime_error ''Error waiting for process'')
    else if rc ?r \<noteq> pid then Inl (Runtime_error ''Unexpected error'') else Inr (out_status ?r)"
  let ?s = "set_task pid (Returning ?res) (if rc ?r = pid \<and> pid \<noteq> -1 then push_ended pid s else s)"
  have "task_step P pid (s, t) (?s, t @ [Sys_waitpid pid])"
    using assms by (intro waited [where r = ?res]) (auto simp: waiting_def split: if_splits)
  moreover have "run_task P W pid (s, t) = (Inr (), (?s, t @ [Sys_waitpid pid]))"
    using assms by (auto simp: run_task_def finish_with_def wait_for_pid_def act_simps)
  ultimately show ?thesis by blast
qed

lemma process_waited:
  assumes "pointers_ok s" and look: "map_of (status s) pid = Some (Waiting_process ptr)"
  shows "\<exists>st'. run_task P W pid (s, t) = (Inr (), st') \<and> task_step P pid (s, t) st'"
proof -
  let ?p = "shared s ! ptr" and ?sh = "\<lambda>p'. s\<lparr>shared := (shared s)[ptr := p']\<rparr>"
  have ptr: "ptr < length (shared s)" "fresh ?p" "pid_of ?p = pid"
    using assms by (auto simp: pointers_ok_def)
  have w: "waiting s pid" using look by (simp add: waiting_def)
  show ?thesis
  proof (cases "rc (answer P t (Sys_waitpid pid)) = -1")
    case True
    then obtain e p' where "pc_wait W (?p, t) = (Inl (Raise e), (p', t @ [Sys_waitpid pid]))"
      using wait_fails [OF ptr(2), of t] ptr(3) by auto
    then have "run_task P W pid (s, t) =
        (Inr (), (set_task pid (Returning (Inl e)) (?sh p'), t @ [Sys_waitpid pid]))"
      using look by (simp add: run_task_def finish_with_def wait_for_process_def deref_def act_simps)
    moreover have "task_step P pid (s, t)
        (set_task pid (Returning (Inl e)) (?sh p'), t @ [Sys_waitpid pid])"
      using w look True by (intro waited [where r = "Inl e"]) auto
    ultimately show ?thesis by blast
  next
    case False
    let ?v = "out_status (answer P t (Sys_waitpid pid))"
    obtain p' where "pc_wait W (?p, t) = (Inr (), (p', t @ [Sys_waitpid pid]))"
      "\<And>u. pc_termination_status W (p', u) = (Inr ?v, (p', u))"
      "\<And>u. pc_pid W (p', u) = (Inr pid, (p', u))"
      using wait_works [OF ptr(2), of t] ptr(3) False by auto
    then have "run_task P W pid (s, t) =
        (Inr (), (set_task pid (Returning (Inr ?v)) (push_ended pid (?sh p')), t @ [Sys_waitpid pid]))"
      using look ptr(1)
      by (simp add: run_task_def finish_with_def wait_for_process_def deref_def act_simps)
    moreover have "task_step P pid (s, t)
        (set_task pid (Returning (Inr ?v)) (push_ended pid (?sh p')), t @ [Sys_waitpid pid])"
      using w look False by (intro waited [where r = "Inr ?v"]) auto
    ultimately show ?thesis by blast
  qed
qed

lemma task_steps:
  assumes "pointers_ok s"
  shows "\<exists>s' t'. run_task P W pid (s, t) = (Inr (), (s', t')) \<and> task_step P pid (s, t) (s', t')"
proof (cases "turns_left (map_of (status s) pid) = 0")
  case True
  then have "run_task P W pid (s, t) = (Inr (), (s, t))"
    by (auto simp: run_task_def turns_left_def act_simps split: option.splits task.splits)
  with True show ?thesis by (auto intro: idle)
next
  case False
  then consider "map_of (status s) pid = Some Waiting_pid"
    | ptr where "map_of (status s) pid = Some (Waiting_process ptr)"
    | r where "map_of (status s) pid = Some (Returning r)"
    by (auto simp: turns_left_def split: option.splits task.splits)
  then show ?thesis
  proof cases
    case 1
    from pid_waited [OF this] show ?thesis by auto
  next
    case 2
    from process_waited [OF assms this] show ?thesis by auto
  next
    case (3 r)
    then have "run_task P W pid (s, t) = (Inr (), (set_task pid (Ready r) s, t))"
      by (simp add: run_task_def act_simps)
    with settle [OF 3] show ?thesis by blast
  qed
qed

lemma run_task_steps:
  assumes "base_inv A (s, t)"
  shows "\<exists>s' t'. run_task P W pid (s, t) = (Inr (), (s', t')) \<and> task_step P pid (s, t) (s', t')"
  using assms by (intro task_steps) (simp add: base_inv_def)

lemma step_lookup:
  assumes "task_step P pid (s, t) (s', t')" and "smap_ok (status s)"
  shows "dom (map_of (status s')) = dom (map_of (status s))"
    and "\<And>q. q \<noteq> pid \<Longrightarrow> map_of (status s') q = map_of (status s) q"
    and "turns_left (map_of (status s') pid) = turns_left (map_of (status s) pid) - 1"
    and "\<And>q r. result_of s q = Some r \<Longrightarrow> result_of s' q = Some r"
proof -
  have "dom (map_of (status s')) = dom (map_of (status s)) \<and>
    (\<forall>q. q \<noteq> pid \<longrightarrow> map_of (status s') q = map_of (status s) q) \<and>
    turns_left (map_of (status s') pid) = turns_left (map_of (status s) pid) - 1 \<and>
    (\<forall>q r. result_of s q = Some r \<longrightarrow> result_of s' q = Some r)"
    using assms(1)
  proof (cases rule: task_step_cases)
    case idle
    then show ?thesis by simp
  next
    case (settle r)
    with assms(2) show ?thesis by (auto simp: map_of_smap_put turns_left_def result_of_def)
  next
    case (waited r)
    then have "pid \<in> dom (map_of (status s))" "turns_left (map_of (status s) pid) = 2" "result_of s pid = None"
      by (auto simp: waiting_def turns_left_def result_of_def split: option.splits task.splits)
    with waited(3) assms(2) show ?thesis
      by (auto simp: map_of_smap_put turns_left_def result_of_def)
  qed
  then show "dom (map_of (status s')) = dom (map_of (status s))"
    and "\<And>q. q \<noteq> pid \<Longrightarrow> map_of (status s') q = map_of (status s) q"
    and "turns_left (map_of (status s') pid) = turns_left (map_of (status s) pid) - 1"
    and "\<And>q r. result_of s q = Some r \<Longrightarrow> result_of s' q = Some r"
    by blast+
qed

lemma step_base:
  assumes step: "task_step P pid (s, t) (s', t')" and inv: "base_inv A (s, t)"
  shows "base_inv A (s', t')" and "kept A s s'"
proof -
  have ok: "smap_ok (status s)" using inv by (simp add: base_inv_def)
  have "base_inv A (s', t') \<and> kept A s s'"
    using step
  proof (cases rule: task_step_cases)
    case idle
    with inv show ?thesis by simp
  next
    case (settle r)
    then have "map_of (status s') = (map_of (status s))(pid \<mapsto> Ready r)" using ok by (simp add: map_of_smap_put)
    with inv settle show ?thesis
      by (auto simp: base_inv_def pointers_ok_def waiting_def kept_def split: if_splits)
  next
    case (waited r)
    then have look: "map_of (status s') = (map_of (status s))(pid \<mapsto> Returning r)"
      using ok by (simp add: map_of_smap_put)
    then have wt: "waiting s' = (waiting s)(pid := False)" by (auto simp: waiting_def fun_eq_iff)
    have dom: "pid \<in> A"
      using waited(1) inv by (auto simp: waiting_def base_inv_def split: option.splits)
    have same: "shared s' ! ptr = shared s ! ptr"
      if "q \<noteq> pid" "map_of (status s) q = Some (Waiting_process ptr)" for q ptr
      using that inv waited(6) unfolding base_inv_def pointers_ok_def by (metis fst_conv)
    have "pointers_ok s'"
      using inv same look waited(5) by (auto simp: pointers_ok_def base_inv_def split: if_splits)
    moreover have "smap_ok (status s')" using ok waited by simp
    moreover have "dom (map_of (status s')) \<subseteq> A" unfolding look using inv dom by (auto simp: base_inv_def)
    ultimately have "base_inv A (s', t')"
      using inv dom waited(1,2) by (auto simp: base_inv_def wt)
    moreover have "shared s' ! ptr = shared s ! ptr" if "pid_of (shared s ! ptr) \<notin> A" for ptr
      using that inv waited(6) dom unfolding base_inv_def pointers_ok_def by (metis fst_conv)
    ultimately show ?thesis using waited(5) by (simp add: kept_def)
  qed
  then show "base_inv A (s', t')" and "kept A s s'" by simp_all
qed

lemma step_pm:
  assumes step: "task_step P pid (s, t) (s', t')" and inv: "pm_inv A X (s, t)"
  shows "pm_inv A X (s', t')"
proof -
  have ok: "smap_ok (status s)" using inv by (simp add: pm_inv_def base_inv_def)
  have base: "base_inv A (s', t')" using step_base(1) [OF step] inv by (simp add: pm_inv_def)
  show ?thesis
    using step
  proof (cases rule: task_step_cases)
    case idle
    with inv show ?thesis by simp
  next
    case (settle r)
    then have look: "map_of (status s') = (map_of (status s))(pid \<mapsto> Ready r)"
      using ok by (simp add: map_of_smap_put)
    then have "result_of s' = result_of s" using settle by (auto simp: result_of_def fun_eq_iff)
    moreover have "No_state \<notin> ran (map_of (status s'))"
      unfolding look using inv by (auto simp: pm_inv_def ran_def split: if_splits)
    ultimately show ?thesis using inv base settle by (simp add: pm_inv_def queue_ok_def)
  next
    case (waited r)
    then have look: "map_of (status s') = (map_of (status s))(pid \<mapsto> Returning r)"
      using ok by (simp add: map_of_smap_put)
    then have res: "result_of s' = (result_of s)(pid \<mapsto> r)" by (auto simp: result_of_def fun_eq_iff)
    have none: "result_of s pid = None"
      using waited(1) by (auto simp: waiting_def result_of_def split: option.splits task.splits)
    then have "pid \<notin> X \<union> set (queue (ended_process_queue s))"
      using inv unfolding pm_inv_def queue_ok_def by simp
    then have notin: "pid \<notin> X" "pid \<notin> set (queue (ended_process_queue s))" by simp_all
    have "queue_ok X s'"
      using inv notin waited(4) res none by (cases r) (auto simp: pm_inv_def queue_ok_def)
    moreover have "No_state \<notin> ran (map_of (status s'))"
      unfolding look using inv by (auto simp: pm_inv_def ran_def split: if_splits)
    moreover have "reported_in P t' q v" if "result_of s' q = Some (Inr v)" for q v
      using that waited(2,7) inv by (auto simp: res pm_inv_def reported_in_snoc split: if_splits)
    ultimately show ?thesis using base by (simp add: pm_inv_def)
  qed
qed

section \<open>Waiting, for any schedule\<close>

lemma await_ok:
  assumes "base_inv A (s, t)" and "await P W c sched (s, t) = (r, (s', t'))"
  shows "base_inv A (s', t') \<and> kept A s s' \<and> (pm_inv A X (s, t) \<longrightarrow> pm_inv A X (s', t')) \<and>
    dom (map_of (status s')) = dom (map_of (status s)) \<and>
    (\<forall>q x. result_of s q = Some x \<longrightarrow> result_of s' q = Some x) \<and> (\<exists>u. t' = t @ u) \<and>
    (r = Inl Blocked \<or> (\<exists>ts. r = Inr ts \<and> c s'))"
  using assms
proof (induction sched arbitrary: s t)
  case Nil
  then show ?case by simp
next
  case (Cons turn sched)
  show ?case
  proof (cases turn)
    case Client
    with Cons show ?thesis by (cases "c s") auto
  next
    case (Task pid)
    obtain s1 t1 where run: "run_task P W pid (s, t) = (Inr (), (s1, t1))"
      and step: "task_step P pid (s, t) (s1, t1)"
      using run_task_steps [OF Cons.prems(1)] by blast
    have ok: "smap_ok (status s)" using Cons.prems(1) by (simp add: base_inv_def)
    have "\<exists>u. t1 = t @ u" using step by (cases rule: task_step_cases) auto
    moreover from Cons.prems(2) Task run have "await P W c sched (s1, t1) = (r, (s', t'))" by simp
    ultimately show ?thesis
      using Cons.IH [OF step_base(1) [OF step Cons.prems(1)]] step_base(2) [OF step Cons.prems(1)]
        step_pm [OF step, of A X] step_lookup(1,4) [OF step ok]
      by (auto intro: kept_trans)
  qed
qed

lemma reported_in_append: "reported_in P t pid v \<Longrightarrow> reported_in P (t @ u) pid v"
  by (induction u rule: rev_induct) (auto simp: reported_in_snoc simp flip: append_assoc)

lemma run_bind: "m st = (Inr x, st') \<Longrightarrow> act_bind m f st = f x st'"
  and run_bind_stop: "m st = (Inl e, st') \<Longrightarrow> act_bind m f st = (Inl e, st')"
  by (simp_all add: act_bind_def)

text \<open>The pid at the front of the queue is taken out of it.\<close>

lemma pop_front:
  assumes inv: "pm_inv A {} (s, t)" and "some_ended s"
  shows "\<exists>pid s' v. pop_ended (s, t) = (Inr pid, (s', t)) \<and> pm_inv A {pid} (s', t) \<and>
    status s' = status s \<and> shared s' = shared s \<and> result_of s' pid = Some (Inr v)"
proof -
  obtain pid rest where q: "queue (ended_process_queue s) = pid # rest"
    using assms(2) by (auto simp: some_ended_iff neq_Nil_conv)
  let ?s = "s\<lparr>ended_process_queue := \<lparr>queue = rest\<rparr>\<rparr>"
  have pop: "pop_ended (s, t) = (Inr pid, (?s, t))" by (simp add: pop_ended_def cq_pop_def q)
  have res: "result_of ?s = result_of s" by (simp add: result_of_def fun_eq_iff)
  have "queue_ok {pid} ?s" using inv q by (simp add: pm_inv_def queue_ok_def res)
  moreover have "base_inv A (?s, t)"
    using inv by (simp add: pm_inv_def base_inv_def pointers_ok_def waiting_def)
  ultimately have inv': "pm_inv A {pid} (?s, t)" using inv by (simp add: pm_inv_def res)
  then have "pid \<in> {pid. \<exists>v. result_of ?s pid = Some (Inr v)}"
    unfolding pm_inv_def queue_ok_def by (simp del: mem_Collect_eq) blast
  then obtain v where "result_of ?s pid = Some (Inr v)" by blast
  with pop inv' show ?thesis by (intro exI [of _ pid] exI [of _ ?s] exI [of _ v]) simp
qed

text \<open>Its future is emptied and its entry erased.\<close>

lemma collect:
  assumes inv: "pm_inv A {pid} (s, t)" and "future_ready pid s" and v: "result_of s pid = Some (Inr v)"
  shows "\<exists>s'. act_bind (future_get pid) (\<lambda>v.
      act_bind (modify (\<lambda>s. s\<lparr>status := smap_del pid (status s)\<rparr>)) (\<lambda>_. ret ((pid, v), ts))) (s, t) =
        (Inr ((pid, v), ts), (s', t)) \<and> pm_inv A {} (s', t) \<and> shared s' = shared s \<and>
    dom (map_of (status s')) = dom (map_of (status s)) - {pid} \<and> reported_in P t pid v"
proof -
  have look: "map_of (status s) pid = Some (Ready (Inr v))"
    using assms(2) v inv by (auto simp: future_ready_def result_of_def split: option.splits task.splits)
  have ok: "smap_ok (status s)" using inv by (simp add: pm_inv_def base_inv_def)
  let ?s = "s\<lparr>status := smap_del pid (smap_put pid No_state (status s))\<rparr>"
  have look': "map_of (smap_del pid (smap_put pid No_state (status s))) = (map_of (status s))(pid := None)"
    using ok by (auto simp: map_of_smap_del map_of_smap_put)
  have res: "result_of ?s = (result_of s)(pid := None)" and wt: "waiting ?s = waiting s"
    using look look' by (auto simp: result_of_def waiting_def fun_eq_iff)
  have "queue_ok {} ?s"
  proof -
    have q: "pid \<notin> set (queue (ended_process_queue s))"
      "insert pid (set (queue (ended_process_queue s))) = {pid. \<exists>v. result_of s pid = Some (Inr v)}"
      using inv by (simp_all add: pm_inv_def queue_ok_def)
    have "{q. \<exists>v. result_of ?s q = Some (Inr v)} = {q. \<exists>v. result_of s q = Some (Inr v)} - {pid}"
      by (auto simp: res)
    also have "\<dots> = set (queue (ended_process_queue s))" using q by (metis Diff_insert_absorb)
    finally show ?thesis using inv by (simp add: pm_inv_def queue_ok_def)
  qed
  moreover have "No_state \<notin> ran (map_of (status ?s))"
    using inv by (auto simp: pm_inv_def ran_def look')
  moreover have "base_inv A (?s, t)"
    using inv ok by (auto simp: pm_inv_def base_inv_def pointers_ok_def wt look' split: if_splits)
  ultimately have "pm_inv A {} (?s, t)" using inv by (auto simp: pm_inv_def res)
  moreover have "reported_in P t pid v" using inv v by (simp add: pm_inv_def)
  ultimately show ?thesis
    using look look' by (intro exI [of _ ?s]) (auto simp: future_get_def act_simps set_task_def)
qed

lemma wait_for_any_ok:
  assumes inv: "pm_inv A {} (s, t)" and run: "wait_for_any P W sched (s, t) = (r, (s', t'))"
  shows "r = Inl Blocked \<or> (\<exists>pid v ts. r = Inr ((pid, v), ts) \<and> pm_inv A {} (s', t') \<and> kept A s s' \<and>
    (\<exists>u. t' = t @ u) \<and> pid \<in> dom (map_of (status s)) \<and>
    dom (map_of (status s')) = dom (map_of (status s)) - {pid} \<and> reported_in P t' pid v)"
proof -
  obtain r1 s1 t1 where w1: "await P W some_ended sched (s, t) = (r1, (s1, t1))" by (metis prod.collapse)
  have base: "base_inv A (s, t)" using inv by (simp add: pm_inv_def)
  note a1 = await_ok [OF base w1, of "{}"]
  show ?thesis
  proof (cases r1)
    case (Inl e)
    with a1 run w1 show ?thesis by (auto simp: wait_for_any_def run_bind_stop)
  next
    case (Inr ts1)
    with a1 inv have "pm_inv A {} (s1, t1)" "some_ended s1" by simp_all
    from pop_front [OF this] obtain pid s2 v where
      pop: "pop_ended (s1, t1) = (Inr pid, (s2, t1))" and inv2: "pm_inv A {pid} (s2, t1)"
      and s2: "status s2 = status s1" "shared s2 = shared s1" and v: "result_of s2 pid = Some (Inr v)"
      by blast
    have in2: "pid \<in> dom (map_of (status s2))" using v by (auto simp: result_of_def split: option.splits)
    obtain r3 s3 t3 where w3: "await P W (future_ready pid) ts1 (s2, t1) = (r3, (s3, t3))"
      by (metis prod.collapse)
    have "base_inv A (s2, t1)" using inv2 by (simp add: pm_inv_def)
    note a3 = await_ok [OF this w3, of "{pid}"]
    have run3: "wait_for_any P W sched (s, t) =
        act_bind (await P W (future_ready pid) ts1) (\<lambda>sched2.
          act_bind (future_get pid) (\<lambda>v. act_bind (modify (\<lambda>s. s\<lparr>status := smap_del pid (status s)\<rparr>))
            (\<lambda>_. ret ((pid, v), sched2)))) (s2, t1)"
      using w1 Inr pop in2 by (auto simp: wait_for_any_def run_bind assert_that_def)
    show ?thesis
    proof (cases r3)
      case (Inl e)
      with a3 run run3 w3 show ?thesis by (auto simp: run_bind_stop)
    next
      case r3: (Inr ts)
      have ready: "future_ready pid s3" "pm_inv A {pid} (s3, t3)" "result_of s3 pid = Some (Inr v)"
        using a3 r3 inv2 v by simp_all
      from collect [OF ready(2,1,3), of ts] obtain s4 where
        "act_bind (future_get pid) (\<lambda>v. act_bind (modify (\<lambda>s. s\<lparr>status := smap_del pid (status s)\<rparr>))
            (\<lambda>_. ret ((pid, v), ts))) (s3, t3) = (Inr ((pid, v), ts), (s4, t3))"
        "pm_inv A {} (s4, t3)" "shared s4 = shared s3"
        "dom (map_of (status s4)) = dom (map_of (status s3)) - {pid}" "reported_in P t3 pid v" by blast
      then have "r = Inr ((pid, v), ts)" "s' = s4" "t' = t3" "pm_inv A {} (s4, t3)"
        "shared s4 = shared s3" "reported_in P t3 pid v"
        "dom (map_of (status s4)) = dom (map_of (status s3)) - {pid}"
        using run run3 w3 r3 by (simp_all add: run_bind)
      moreover have "kept A s s4"
      proof (rule kept_trans)
        show "kept A s s1" using a1 by simp
        show "kept A s1 s4" using a3 s2 \<open>shared s4 = shared s3\<close> by (simp add: kept_def)
      qed
      ultimately show ?thesis using a1 a3 s2 in2 by auto
    qed
  qed
qed

end

end
