(* ===== verification/Process_Sessions.thy ===== *)
theory Process_Sessions
  imports Process_Monitor
begin

text \<open>
  Clients of \<open>core/process_monitor\<close>: sessions that add processes and wait, the destructor after them,
  and progress.  The lemmas are those of any class of processes that keeps the contract
  \<open>waitable\<close>; the properties are about \<open>sync_process\<close>, the class the program uses.
\<close>

context waitable
begin

section \<open>Sessions\<close>

definition op_pids :: "'p process_monitor \<Rightarrow> pm_op list \<Rightarrow> int list" where
  "op_pids s ops = concat (map (\<lambda>op. case op of
     Add_pid pid \<Rightarrow> [pid] | Add_process ptr \<Rightarrow> [pid_of (shared s ! ptr)] | Wait_any _ \<Rightarrow> []) ops)"

lemma op_pids_simps [simp]:
  "op_pids s [] = []" "op_pids s (Add_pid pid # ops) = pid # op_pids s ops"
  "op_pids s (Add_process ptr # ops) = pid_of (shared s ! ptr) # op_pids s ops"
  "op_pids s (Wait_any sched # ops) = op_pids s ops"
  by (simp_all add: op_pids_def)

text \<open>What is still to be added: fresh processes, and pids that are all different and new.\<close>

definition pending_ok :: "int set \<Rightarrow> 'p process_monitor \<Rightarrow> pm_op list \<Rightarrow> bool" where
  "pending_ok A s ops \<longleftrightarrow>
     (\<forall>ptr. Add_process ptr \<in> set ops \<longrightarrow> ptr < length (shared s) \<and> fresh (shared s ! ptr)) \<and>
     distinct (op_pids s ops) \<and> set (op_pids s ops) \<inter> A = {}"

lemma pending_pid: "Add_process ptr \<in> set ops \<Longrightarrow> pid_of (shared s ! ptr) \<in> set (op_pids s ops)"
  by (auto simp: op_pids_def intro!: bexI [of _ "Add_process ptr"])

lemma pending_kept:
  assumes "pending_ok A s ops" and "kept A s s'"
  shows "pending_ok A s' ops \<and> op_pids s' ops = op_pids s ops"
proof -
  have same: "shared s' ! ptr = shared s ! ptr" if "Add_process ptr \<in> set ops" for ptr
  proof -
    have "pid_of (shared s ! ptr) \<notin> A" using pending_pid [OF that, of s] assms(1) by (auto simp: pending_ok_def)
    with that assms show ?thesis by (auto simp: pending_ok_def kept_def)
  qed
  have "op_pids s' ops = op_pids s ops"
    unfolding op_pids_def by (intro arg_cong [of _ _ concat] map_cong refl) (auto simp: same split: pm_op.split)
  with assms same show ?thesis by (auto simp: pending_ok_def kept_def)
qed

lemma add_inv:
  assumes inv: "pm_inv A {} (s, t)" and new: "pid \<notin> A"
    and x: "x = Waiting_pid \<or>
      (\<exists>ptr < length (shared s). x = Waiting_process ptr \<and> fresh (shared s ! ptr) \<and> pid_of (shared s ! ptr) = pid)"
  shows "pm_inv (insert pid A) {} (set_task pid x s, t)"
    and "dom (map_of (status (set_task pid x s))) = insert pid (dom (map_of (status s)))"
    and "map_of (status s) pid = None"
proof -
  have ok: "smap_ok (status s)" using inv by (simp add: pm_inv_def base_inv_def)
  have look: "map_of (smap_put pid x (status s)) = (map_of (status s))(pid \<mapsto> x)"
    using ok by (simp add: map_of_smap_put)
  show fresh: "map_of (status s) pid = None" using inv new by (auto simp: pm_inv_def base_inv_def)
  have res: "result_of (set_task pid x s) = result_of s"
    and wt: "waiting (set_task pid x s) = (waiting s)(pid := True)"
    using fresh x by (auto simp: result_of_def waiting_def look fun_eq_iff)
  show "dom (map_of (status (set_task pid x s))) = insert pid (dom (map_of (status s)))" by (simp add: look)
  have "queue_ok {} (set_task pid x s)" using inv by (simp add: pm_inv_def queue_ok_def res)
  moreover have "base_inv (insert pid A) (set_task pid x s, t)"
    using inv new x ok
    by (auto simp: pm_inv_def base_inv_def pointers_ok_def look wt split: if_splits)
  moreover have "No_state \<notin> ran (map_of (status (set_task pid x s)))"
    using inv x by (auto simp: pm_inv_def ran_def look)
  ultimately show "pm_inv (insert pid A) {} (set_task pid x s, t)"
    using inv by (simp add: pm_inv_def res)
qed

text \<open>What an \<open>add\<close> leaves for the operations after it.\<close>

lemma pending_after_add:
  "distinct (pid # op_pids s ops) \<Longrightarrow> set (pid # op_pids s ops) \<inter> A = {} \<Longrightarrow>
     (\<forall>ptr. Add_process ptr \<in> set ops \<longrightarrow> ptr < length (shared s) \<and> fresh (shared s ! ptr)) \<Longrightarrow>
     pending_ok (insert pid A) (set_task pid x s) ops \<and> op_pids (set_task pid x s) ops = op_pids s ops"
  by (auto simp: pending_ok_def op_pids_def)

lemma add_process_step:
  assumes inv: "pm_inv A {} (s, t)" and pend: "pending_ok A s (Add_process ptr # ops)"
  defines "pid \<equiv> pid_of (shared s ! ptr)"
  defines "s1 \<equiv> set_task pid (Waiting_process ptr) s"
  shows "pm_session P W (Add_process ptr # ops') (s, t) = pm_session P W ops' (s1, t)"
    and "pm_inv (insert pid A) {} (s1, t)" and "pending_ok (insert pid A) s1 ops"
    and "op_pids s1 ops = op_pids s ops"
    and "dom (map_of (status s1)) = insert pid (dom (map_of (status s)))"
proof -
  have ptr: "ptr < length (shared s)" "fresh (shared s ! ptr)" and new: "pid \<notin> A"
    using pend by (auto simp: pending_ok_def pid_def)
  have "Waiting_process ptr = Waiting_pid \<or> (\<exists>p < length (shared s). Waiting_process ptr = Waiting_process p \<and>
      fresh (shared s ! p) \<and> pid_of (shared s ! p) = pid)" using ptr pid_def by blast
  note add = add_inv [OF inv new this]
  have "deref ptr (pc_pid W) (s, t) = (Inr pid, (s, t))"
    using ptr by (simp add: deref_def zoom_def pid_run pid_def)
  then show "pm_session P W (Add_process ptr # ops') (s, t) = pm_session P W ops' (s1, t)"
    using add(3) by (simp add: add_process_def check_duplicated_pid_def act_simps s1_def)
  show "pm_inv (insert pid A) {} (s1, t)" and "dom (map_of (status s1)) = insert pid (dom (map_of (status s)))"
    unfolding s1_def by (rule add(1), rule add(2))
  have "pending_ok (insert pid A) s1 ops \<and> op_pids s1 ops = op_pids s ops"
    unfolding s1_def using pend by (intro pending_after_add) (auto simp: pending_ok_def pid_def)
  then show "pending_ok (insert pid A) s1 ops" and "op_pids s1 ops = op_pids s ops" by simp_all
qed

text \<open>Adding processes only: afterwards all of them are being waited for.\<close>

lemma adds_run:
  assumes "pm_inv A {} (s, t)" and "pending_ok A s (map Add_process ptrs)"
  shows "\<exists>s'. (\<forall>ops. pm_session P W (map Add_process ptrs @ ops) (s, t) = pm_session P W ops (s', t)) \<and>
    pm_inv (A \<union> set (op_pids s (map Add_process ptrs))) {} (s', t) \<and>
    dom (map_of (status s')) = dom (map_of (status s)) \<union> set (op_pids s (map Add_process ptrs))"
  using assms
proof (induction ptrs arbitrary: A s)
  case Nil
  then show ?case by auto
next
  case (Cons ptr ptrs)
  let ?pid = "pid_of (shared s ! ptr)"
  let ?s = "set_task ?pid (Waiting_process ptr) s"
  have "pending_ok A s (Add_process ptr # map Add_process ptrs)" using Cons.prems(2) by simp
  note add = add_process_step [OF Cons.prems(1) this]
  have run: "pm_session P W (map Add_process (ptr # ptrs) @ ops) (s, t) =
      pm_session P W (map Add_process ptrs @ ops) (?s, t)" for ops
    using add(1) [of "map Add_process ptrs @ ops"] by simp
  have sets: "A \<union> set (op_pids s (map Add_process (ptr # ptrs))) =
      insert ?pid A \<union> set (op_pids ?s (map Add_process ptrs))"
    "dom (map_of (status s)) \<union> set (op_pids s (map Add_process (ptr # ptrs))) =
      dom (map_of (status ?s)) \<union> set (op_pids ?s (map Add_process ptrs))"
    unfolding add(5) using add(4) by auto
  show ?case using Cons.IH [OF add(2,3)] unfolding run sets .
qed

lemma session_ok:
  assumes "pm_inv A {} (s, t)" and "pending_ok A s ops" and "pm_session P W ops (s, t) = (r, (s', t'))"
  shows "r = Inl Blocked \<or> (\<exists>res. r = Inr res \<and> pm_inv (A \<union> set (op_pids s ops)) {} (s', t') \<and>
    (\<exists>u. t' = t @ u) \<and> distinct (map fst res) \<and>
    set (map fst res) \<subseteq> dom (map_of (status s)) \<union> set (op_pids s ops) \<and>
    dom (map_of (status s')) = dom (map_of (status s)) \<union> set (op_pids s ops) - set (map fst res) \<and>
    (\<forall>(pid, v) \<in> set res. reported_in P t' pid v))"
  using assms
proof (induction ops arbitrary: A s t r s' t')
  case Nil
  then show ?case by (auto simp: ret_def)
next
  case (Cons op ops)
  show ?case
  proof (cases op)
    case (Add_pid pid)
    let ?s = "set_task pid Waiting_pid s"
    have new: "pid \<notin> A" using Cons.prems(2) Add_pid by (auto simp: pending_ok_def)
    note add = add_inv [OF Cons.prems(1) new disjI1 [OF refl]]
    have rest: "pm_session P W ops (?s, t) = (r, (s', t'))"
      using Cons.prems(3) Add_pid add(3) by (simp add: add_pid_def check_duplicated_pid_def act_simps)
    have pend: "pending_ok (insert pid A) ?s ops \<and> op_pids ?s ops = op_pids s ops"
      using Cons.prems(2) Add_pid by (intro pending_after_add) (auto simp: pending_ok_def)
    have "A \<union> set (op_pids s (op # ops)) = insert pid A \<union> set (op_pids ?s ops)"
      "dom (map_of (status s)) \<union> set (op_pids s (op # ops)) = dom (map_of (status ?s)) \<union> set (op_pids ?s ops)"
      unfolding add(2) using pend Add_pid by auto
    then show ?thesis using Cons.IH [OF add(1) conjunct1 [OF pend] rest] by (simp only:)
  next
    case (Add_process ptr)
    let ?pid = "pid_of (shared s ! ptr)"
    let ?s = "set_task ?pid (Waiting_process ptr) s"
    note add = add_process_step [OF Cons.prems(1) Cons.prems(2) [unfolded Add_process]]
    have "A \<union> set (op_pids s (op # ops)) = insert ?pid A \<union> set (op_pids ?s ops)"
      "dom (map_of (status s)) \<union> set (op_pids s (op # ops)) = dom (map_of (status ?s)) \<union> set (op_pids ?s ops)"
      unfolding add(5) using add(4) Add_process by auto
    moreover have "pm_session P W ops (?s, t) = (r, (s', t'))" using Cons.prems(3) Add_process add(1) by simp
    ultimately show ?thesis using Cons.IH [OF add(2,3)] by (simp only:)
  next
    case (Wait_any sched)
    obtain r1 s1 t1 where w: "wait_for_any P W sched (s, t) = (r1, (s1, t1))" by (metis prod.collapse)
    from wait_for_any_ok [OF Cons.prems(1) w] show ?thesis
    proof (elim disjE exE conjE)
      assume "r1 = Inl Blocked"
      with w Cons.prems(3) Wait_any show ?thesis by (auto simp: run_bind_stop)
    next
      fix pid v ts u
      assume r1: "r1 = Inr ((pid, v), ts)" and inv1: "pm_inv A {} (s1, t1)" and kept: "kept A s s1"
        and t1: "t1 = t @ u" and pid: "pid \<in> dom (map_of (status s))"
        and dom: "dom (map_of (status s1)) = dom (map_of (status s)) - {pid}"
        and rep: "reported_in P t1 pid v"
      have pend: "pending_ok A s ops" using Cons.prems(2) Wait_any by (simp add: pending_ok_def)
      note pend1 = pending_kept [OF pend kept]
      obtain r2 s2 t2 where rest: "pm_session P W ops (s1, t1) = (r2, (s2, t2))" by (metis prod.collapse)
      have out: "r = (case r2 of Inl e \<Rightarrow> Inl e | Inr rs \<Rightarrow> Inr ((pid, v) # rs))" "s' = s2" "t' = t2"
        using Cons.prems(3) Wait_any w r1 rest by (auto simp: act_bind_def ret_def split: sum.splits)
      have "pid \<in> A" using pid Cons.prems(1) by (auto simp: pm_inv_def base_inv_def)
      then have "pid \<notin> set (op_pids s ops)" using pend by (auto simp: pending_ok_def)
      let ?D = "dom (map_of (status s))" and ?O = "set (op_pids s ops)"
      from Cons.IH [OF inv1 conjunct1 [OF pend1] rest] show ?thesis
      proof (elim disjE exE conjE)
        assume "r2 = Inl Blocked"
        with out show ?thesis by simp
      next
        fix res u'
        assume r2: "r2 = Inr res" and inv2: "pm_inv (A \<union> set (op_pids s1 ops)) {} (s2, t2)"
          and t2: "t2 = t1 @ u'" and dist: "distinct (map fst res)"
          and sub: "set (map fst res) \<subseteq> dom (map_of (status s1)) \<union> set (op_pids s1 ops)"
          and dom2: "dom (map_of (status s2)) = dom (map_of (status s1)) \<union> set (op_pids s1 ops) - set (map fst res)"
          and reps: "\<forall>(pid, v) \<in> set res. reported_in P t2 pid v"
        have sub: "set (map fst res) \<subseteq> ?D - {pid} \<union> ?O" using sub dom pend1 by simp
        with \<open>pid \<notin> ?O\<close> have "pid \<notin> set (map fst res)" by blast
        moreover have "set (map fst ((pid, v) # res)) \<subseteq> ?D \<union> ?O" using sub pid by auto
        moreover have "dom (map_of (status s2)) = ?D \<union> ?O - set (map fst ((pid, v) # res))"
          unfolding dom2 dom using pend1 \<open>pid \<notin> ?O\<close> by auto
        ultimately show ?thesis
          using out r2 inv2 t1 t2 dist reps reported_in_append [OF rep, of u'] pend1 Wait_any by simp
      qed
    qed
  qed
qed

lemma start_inv:
  assumes "\<And>pid. waits t pid = 0"
  shows "pm_inv {} {} (process_monitor_new ps, t)"
  using assms
  by (auto simp: pm_inv_def base_inv_def pointers_ok_def queue_ok_def process_monitor_new_def cq_empty_def
      result_of_def waiting_def)

text \<open>As long as nothing has been waited for, all tasks have their two turns to go.\<close>

lemma all_waiting:
  assumes "base_inv A (s, t)" and "\<And>pid. waits t pid = 0"
  shows "\<And>pid. pid \<in> A \<Longrightarrow> waiting s pid" and "\<And>pid. result_of s pid = None"
    and "\<And>pid. turns_left (map_of (status s) pid) = (if pid \<in> A then 2 else 0)"
proof -
  show w: "waiting s pid" if "pid \<in> A" for pid
  proof (rule ccontr)
    assume "\<not> waiting s pid"
    with that assms(1) have "waits t pid = 1" by (simp add: base_inv_def)
    with assms(2) show False by simp
  qed
  have out: "map_of (status s) pid = None" if "pid \<notin> A" for pid
    using that assms(1) by (auto simp: base_inv_def)
  show "result_of s pid = None" for pid
    using w [of pid] out [of pid]
    by (cases "pid \<in> A") (auto simp: waiting_def result_of_def split: option.splits task.splits)
  show "turns_left (map_of (status s) pid) = (if pid \<in> A then 2 else 0)" for pid
    using w [of pid] out [of pid]
    by (auto simp: waiting_def turns_left_def split: option.splits task.splits)
qed

section \<open>Destruction\<close>

lemma get_all_ok:
  assumes "base_inv A (s, t)" and "get_all P W pids sched (s, t) = (r, (s', t'))"
  shows "base_inv A (s', t') \<and> dom (map_of (status s')) = dom (map_of (status s)) \<and>
    (\<forall>pid. \<not> waiting s pid \<longrightarrow> \<not> waiting s' pid) \<and>
    (r = Inl Blocked \<or> (\<exists>ts. r = Inr ts \<and> (\<forall>pid \<in> set pids. \<not> waiting s' pid)))"
  using assms
proof (induction pids arbitrary: s t sched)
  case Nil
  then show ?case by (auto simp: ret_def)
next
  case (Cons pid pids)
  have steps: "\<not> waiting s2 q" if "base_inv A (s1, t1)" "await P W c sc (s1, t1) = (r2, (s2, t2))" "\<not> waiting s1 q"
    for c sc s1 t1 r2 s2 t2 q
  proof -
    from await_ok [OF that(1,2), of "{}"] obtain u where "t2 = t1 @ u" by blast
    then have "waits t1 q \<le> waits t2 q" by (simp add: waits_def)
    moreover have "base_inv A (s2, t2)" "dom (map_of (status s2)) = dom (map_of (status s1))"
      using await_ok [OF that(1,2)] by simp_all
    ultimately show ?thesis
      using that(1,3) by (auto simp: base_inv_def waiting_def split: option.splits if_splits)
  qed
  obtain r1 s1 t1 where w: "await P W (future_ready pid) sched (s, t) = (r1, (s1, t1))"
    by (metis prod.collapse)
  note a = await_ok [OF Cons.prems(1) w]
  show ?case
  proof (cases r1)
    case (Inl e)
    with a w Cons.prems steps [OF Cons.prems(1) w] show ?thesis by (auto simp: run_bind_stop)
  next
    case (Inr ts)
    have ready: "future_ready pid s1" and inv1: "base_inv A (s1, t1)" using a Inr by auto
    have ok: "smap_ok (status s1)" using inv1 by (simp add: base_inv_def)
    from ready consider x where "map_of (status s1) pid = Some (Ready x)"
      | "map_of (status s1) pid = Some No_state"
      by (auto simp: future_ready_def split: option.splits task.splits)
    then have "\<exists>s2. catching (discard (future_get pid)) (\<lambda>_. ret ()) (s1, t1) = (Inr (), (s2, t1)) \<and>
      base_inv A (s2, t1) \<and> dom (map_of (status s2)) = dom (map_of (status s1)) \<and> waiting s2 = waiting s1 \<and>
      \<not> waiting s1 pid"
    proof cases
      case (1 x)
      let ?s = "set_task pid No_state s1"
      have look: "map_of (smap_put pid No_state (status s1)) = (map_of (status s1))(pid \<mapsto> No_state)"
        using ok by (simp add: map_of_smap_put)
      have wt: "waiting ?s = waiting s1" using 1 by (auto simp: waiting_def look fun_eq_iff)
      have "base_inv A (?s, t1)"
        using inv1 1 by (auto simp: base_inv_def pointers_ok_def wt look split: if_splits)
      moreover have "catching (discard (future_get pid)) (\<lambda>_. ret ()) (s1, t1) = (Inr (), (?s, t1))"
        using 1 by (cases x) (simp_all add: future_get_def act_simps)
      ultimately show ?thesis using 1 wt look by (auto simp: waiting_def intro!: exI [of _ ?s])
    next
      case 2
      then show ?thesis using inv1 by (auto simp: future_get_def act_simps waiting_def)
    qed
    then obtain s2 where g: "catching (discard (future_get pid)) (\<lambda>_. ret ()) (s1, t1) = (Inr (), (s2, t1))"
      and s2: "base_inv A (s2, t1)" "dom (map_of (status s2)) = dom (map_of (status s1))"
        "waiting s2 = waiting s1" "\<not> waiting s1 pid" by blast
    have rest: "get_all P W pids ts (s2, t1) = (r, (s', t'))"
      using Cons.prems(2) w Inr g by (simp add: run_bind)
    from Cons.IH [OF s2(1) rest] s2 a steps [OF Cons.prems(1) w] show ?thesis by auto
  qed
qed

section \<open>Progress\<close>

lemma step_closedD:
  "step_closed P I \<Longrightarrow> I s \<Longrightarrow> task_step P pid (s, t) (s', t') \<Longrightarrow> smap_ok (status s) \<Longrightarrow> I s'"
  unfolding step_closed_def by blast

lemma await_preserves:
  assumes "step_closed P I"
    and "base_inv A (s, t)" and "I s" and "await P W c sched (s, t) = (r, (s', t'))"
  shows "I s'"
  using assms(2-)
proof (induction sched arbitrary: s t)
  case Nil
  then show ?case by simp
next
  case (Cons turn sched)
  show ?case
  proof (cases turn)
    case Client
    with Cons show ?thesis by (cases "c s") auto
  next
    case (Task pid)
    obtain s1 t1 where run: "run_task P W pid (s, t) = (Inr (), (s1, t1))"
      and step: "task_step P pid (s, t) (s1, t1)"
      using run_task_steps [OF Cons.prems(1)] by blast
    have "smap_ok (status s)" using Cons.prems(1) by (simp add: base_inv_def)
    from step_closedD [OF assms(1) Cons.prems(2) step this] step_base(1) [OF step Cons.prems(1)] Cons Task run
    show ?thesis by simp
  qed
qed

lemma waiting_turns: "waiting s pid \<Longrightarrow> turns_left (map_of (status s) pid) = 2"
  and turns_bound: "turns_left x \<le> 2"
  by (auto simp: waiting_def turns_left_def split: option.splits task.splits)

text \<open>Enough turns make a future ready; the tasks that get none are where they were.\<close>

lemma await_tasks:
  assumes "base_inv A (s, t)" and "pm_inv A X (s, t) \<or> X = UNIV"
    and "\<And>pid. turns_left (map_of (status s) pid) \<le> count_list ps pid \<or> (waiting s pid \<and> count_list ps pid = 0)"
    and "step_closed P I"
    and "I s"
  shows "\<exists>s1 t1. (\<forall>c rest. await P W c (map Task ps @ rest) (s, t) = await P W c rest (s1, t1)) \<and>
    base_inv A (s1, t1) \<and> (pm_inv A X (s1, t1) \<or> X = UNIV) \<and> I s1 \<and>
    (\<forall>pid. turns_left (map_of (status s1) pid) = 0 \<or>
       (waiting s pid \<and> waiting s1 pid \<and> count_list ps pid = 0)) \<and>
    dom (map_of (status s1)) = dom (map_of (status s))"
  using assms(1-3,5)
proof (induction ps arbitrary: s t)
  case Nil
  then show ?case by (intro exI [of _ s] exI [of _ t]) auto
next
  case (Cons pid ps)
  obtain s1 t1 where run: "run_task P W pid (s, t) = (Inr (), (s1, t1))"
    and step: "task_step P pid (s, t) (s1, t1)"
    using run_task_steps [OF Cons.prems(1)] by blast
  have ok: "smap_ok (status s)" using Cons.prems(1) by (simp add: base_inv_def)
  note look = step_lookup [OF step ok]
  have turns: "turns_left (map_of (status s1) q) \<le> count_list ps q \<or> (waiting s1 q \<and> count_list ps q = 0)" for q
    using Cons.prems(3) [of q] look(2) [of q] look(3) by (cases "q = pid") (auto simp: waiting_def)
  have pm: "pm_inv A X (s1, t1) \<or> X = UNIV" using Cons.prems(2) step_pm [OF step] by blast
  from Cons.IH [OF step_base(1) [OF step Cons.prems(1)] pm turns step_closedD [OF assms(4) Cons.prems(4) step ok]]
  obtain s2 t2 where
    1: "\<And>c rest. await P W c (map Task ps @ rest) (s1, t1) = await P W c rest (s2, t2)"
    and 2: "base_inv A (s2, t2)" "pm_inv A X (s2, t2) \<or> X = UNIV" "I s2"
      "dom (map_of (status s2)) = dom (map_of (status s1))"
    and 3: "\<And>q. turns_left (map_of (status s2) q) = 0 \<or> (waiting s1 q \<and> waiting s2 q \<and> count_list ps q = 0)"
    by auto
  have "\<not> waiting s1 pid"
    using waiting_turns [of s1 pid] look(3) turns_bound [of "map_of (status s) pid"] by linarith
  then have "turns_left (map_of (status s2) q) = 0 \<or>
      (waiting s q \<and> waiting s2 q \<and> count_list (pid # ps) q = 0)" for q
    using 3 [of q] look(2) [of q] by (cases "q = pid") (auto simp: waiting_def)
  with 1 2 run look(1) show ?case by (intro exI [of _ s2] exI [of _ t2]) auto
qed

lemma no_turns_ready:
  assumes "turns_left (map_of (status s) pid) = 0" and "pid \<in> dom (map_of (status s))"
  shows "future_ready pid s"
  using assms by (auto simp: turns_left_def future_ready_def split: option.splits task.splits)

lemma result_no_turns:
  assumes "result_of s pid = Some r" and "turns_left (map_of (status s) pid) = 0 \<or> waiting s pid"
  shows "future_ready pid s"
  using assms by (auto simp: result_of_def turns_left_def waiting_def future_ready_def split: option.splits task.splits)

lemma success_kept:
  assumes "\<And>u. rc (answer P u (Sys_waitpid p)) = p" and "p \<noteq> -1"
  shows "step_closed P (\<lambda>s :: 'p process_monitor. \<forall>e. result_of s p \<noteq> Some (Inl e))"
proof -
  have "\<forall>e. result_of s' p \<noteq> Some (Inl e)"
    if "\<forall>e. result_of s p \<noteq> Some (Inl e)" "task_step P pid (s, t) (s', t')" "smap_ok (status s)" for pid t t' and s s' :: "'p process_monitor"
    using that(2)
  proof (cases rule: task_step_cases)
    case (waited r)
    with assms that show ?thesis by (auto simp: result_of_def map_of_smap_put)
  qed (use that in \<open>auto simp: result_of_def map_of_smap_put\<close>)
  then show ?thesis unfolding step_closed_def by blast
qed

lemma failure_kept:
  assumes "\<And>u q. rc (answer P u (Sys_waitpid q)) = -1"
  shows "step_closed P (\<lambda>s :: 'p process_monitor. \<forall>q v. result_of s q \<noteq> Some (Inr v))"
proof -
  have "\<forall>q v. result_of s' q \<noteq> Some (Inr v)"
    if "\<forall>q v. result_of s q \<noteq> Some (Inr v)" "task_step P pid (s, t) (s', t')" "smap_ok (status s)" for pid t t' and s s' :: "'p process_monitor"
    using that(2)
  proof (cases rule: task_step_cases)
    case (waited r)
    with assms that show ?thesis by (auto simp: result_of_def map_of_smap_put)
  next
    case (settle r)
    with that(3) have "result_of s' = result_of s" by (auto simp: result_of_def map_of_smap_put fun_eq_iff)
    with that(1) show ?thesis by simp
  qed (use that in simp)
  then show ?thesis unfolding step_closed_def by blast
qed

lemma wait_for_any_returns:
  assumes inv: "pm_inv A {} (s, t)" and p: "p \<in> dom (map_of (status s))"
    and works: "\<And>u. rc (answer P u (Sys_waitpid p)) = p" "p \<noteq> -1"
    and none: "\<forall>e. result_of s p \<noteq> Some (Inl e)"
    and ends: "turns_left (map_of (status s) p) \<le> count_list ps p"
    and turns: "\<And>pid. turns_left (map_of (status s) pid) \<le> count_list ps pid \<or> (waiting s pid \<and> count_list ps pid = 0)"
  shows "\<exists>pid v st'. wait_for_any P W (map Task ps @ [Client, Client]) (s, t) = (Inr ((pid, v), []), st')"
proof -
  have base: "base_inv A (s, t)" using inv by (simp add: pm_inv_def)
  obtain s1 t1 where w: "\<And>c rest. await P W c (map Task ps @ rest) (s, t) = await P W c rest (s1, t1)"
    and inv1: "pm_inv A {} (s1, t1)" and none1: "\<forall>e. result_of s1 p \<noteq> Some (Inl e)"
    and rest1: "\<And>pid. turns_left (map_of (status s1) pid) = 0 \<or>
      (waiting s pid \<and> waiting s1 pid \<and> count_list ps pid = 0)"
    and dom1: "dom (map_of (status s1)) = dom (map_of (status s))"
    using await_tasks [where I = "\<lambda>s. \<forall>e. result_of s p \<noteq> Some (Inl e)",
      OF base disjI1 [OF inv] turns success_kept [OF works] none]
    by (metis UNIV_not_empty)
  have "turns_left (map_of (status s1) p) = 0" using rest1 [of p] ends waiting_turns [of s p] by auto
  then have "result_of s1 p \<noteq> None"
    using no_turns_ready [of s1 p] p dom1 inv1
    by (auto simp: future_ready_def result_of_def pm_inv_def ran_def split: option.splits task.splits)
  then obtain v where "result_of s1 p = Some (Inr v)" using none1 by (cases "result_of s1 p"; cases "the (result_of s1 p)") auto
  then have "p \<in> set (queue (ended_process_queue s1))" using inv1 by (auto simp: pm_inv_def queue_ok_def)
  then have some: "some_ended s1" by (auto simp: some_ended_iff)
  from pop_front [OF inv1 this] obtain pid s2 v where
    pop: "pop_ended (s1, t1) = (Inr pid, (s2, t1))" and inv2: "pm_inv A {pid} (s2, t1)"
    and s2: "status s2 = status s1" "shared s2 = shared s1" and v: "result_of s2 pid = Some (Inr v)"
    by blast
  have in2: "pid \<in> dom (map_of (status s2))" using v by (auto simp: result_of_def split: option.splits)
  have ready: "future_ready pid s2"
    using result_no_turns [OF v] rest1 [of pid] s2 by (auto simp: waiting_def)
  from collect [OF inv2 ready v, of "[]"] obtain s3 where
    c: "act_bind (future_get pid) (\<lambda>v. act_bind (modify (\<lambda>s. s\<lparr>status := smap_del pid (status s)\<rparr>))
      (\<lambda>_. ret ((pid, v), [] :: turn list))) (s2, t1) = (Inr ((pid, v), []), (s3, t1))" by blast
  have "await P W some_ended (map Task ps @ [Client, Client]) (s, t) = (Inr [Client], (s1, t1))"
    using w some by simp
  moreover have "await P W (future_ready pid) [Client] (s2, t1) = (Inr [], (s2, t1))" using ready by simp
  ultimately have "wait_for_any P W (map Task ps @ [Client, Client]) (s, t) = (Inr ((pid, v), []), (s3, t1))"
    using pop in2 c by (auto simp: wait_for_any_def run_bind assert_that_def)
  then show ?thesis by blast
qed

lemma wait_for_any_blocks:
  assumes inv: "pm_inv A {} (s, t)" and fails: "\<And>u q. rc (answer P u (Sys_waitpid q)) = -1"
    and none: "\<forall>q v. result_of s q \<noteq> Some (Inr v)"
  shows "fst (wait_for_any P W sched (s, t)) = Inl Blocked"
proof -
  obtain r1 s1 t1 where w: "await P W some_ended sched (s, t) = (r1, (s1, t1))" by (metis prod.collapse)
  have base: "base_inv A (s, t)" using inv by (simp add: pm_inv_def)
  have "\<forall>q v. result_of s1 q \<noteq> Some (Inr v)"
    by (rule await_preserves [where I = "\<lambda>s. \<forall>q v. result_of s q \<noteq> Some (Inr v)",
        OF failure_kept [OF fails] base none w])
  moreover have "pm_inv A {} (s1, t1)" using await_ok [OF base w] inv by blast
  ultimately have "\<not> some_ended s1" by (auto simp: pm_inv_def queue_ok_def some_ended_iff)
  with await_ok [OF base w, of "{}"] have "r1 = Inl Blocked" by auto
  with w show ?thesis by (simp add: wait_for_any_def run_bind_stop)
qed

lemma get_caught:
  assumes "future_ready pid s"
  shows "\<exists>s1. catching (discard (future_get pid)) (\<lambda>_. ret ()) (s, t) = (Inr (), (s1, t)) \<and>
    (s1 = s \<or> s1 = set_task pid No_state s)"
proof -
  from assms consider x where "map_of (status s) pid = Some (Ready x)" | "map_of (status s) pid = Some No_state"
    by (auto simp: future_ready_def split: option.splits task.splits)
  then show ?thesis
  proof cases
    case (1 x)
    then show ?thesis by (cases x) (simp_all add: future_get_def act_simps)
  qed (simp add: future_get_def act_simps)
qed

lemma get_all_ready:
  assumes "\<And>pid. pid \<in> set pids \<Longrightarrow> future_ready pid s" and "smap_ok (status s)"
  shows "\<exists>st'. get_all P W pids (replicate (length pids) Client @ rest) (s, t) = (Inr rest, st')"
  using assms
proof (induction pids arbitrary: s)
  case Nil
  then show ?case by (simp add: ret_def)
next
  case (Cons pid pids)
  have ready: "future_ready pid s" using Cons.prems(1) by simp
  from get_caught [OF this] obtain s1 where
    g: "catching (discard (future_get pid)) (\<lambda>_. ret ()) (s, t) = (Inr (), (s1, t))"
    and s1: "s1 = s \<or> s1 = set_task pid No_state s" by blast
  have "future_ready q s1" if "q \<in> set pids" for q
    using s1 Cons.prems that by (auto simp: future_ready_def map_of_smap_put)
  moreover have "smap_ok (status s1)" using s1 Cons.prems(2) by auto
  ultimately obtain st' where "get_all P W pids (replicate (length pids) Client @ rest) (s1, t) = (Inr rest, st')"
    using Cons.IH by blast
  with g ready show ?case by (simp add: run_bind)
qed

lemma delete_returns:
  assumes base: "base_inv A (s, t)" and "\<And>pid. turns_left (map_of (status s) pid) \<le> count_list ps pid"
  shows "\<exists>left st'. process_monitor_delete P W (map Task ps @ replicate (length (status s)) Client @ rest) (s, t) =
    (Inr left, st')"
proof (cases "status s")
  case Nil
  then show ?thesis by (simp add: process_monitor_delete_def act_simps)
next
  case (Cons a m)
  let ?pids = "map fst (status s)"
  obtain s1 t1 where w: "\<And>c rest. await P W c (map Task ps @ rest) (s, t) = await P W c rest (s1, t1)"
    and turns1: "\<And>pid. turns_left (map_of (status s1) pid) = 0 \<or>
      (waiting s pid \<and> waiting s1 pid \<and> count_list ps pid = 0)" and base1: "base_inv A (s1, t1)"
    and dom1: "dom (map_of (status s1)) = dom (map_of (status s))"
    using await_tasks [where I = "\<lambda>_. True", OF base disjI2 [OF refl] disjI1 [OF assms(2)]]
    by (auto simp: step_closed_def)
  have "turns_left (map_of (status s1) pid) = 0" for pid
    using turns1 [of pid] assms(2) [of pid] waiting_turns [of s pid] by auto
  then have ready: "future_ready pid s1" if "pid \<in> set ?pids" for pid
    using that no_turns_ready [of s1 pid] dom1 by (auto simp: dom_map_of_conv_image_fst)
  have "smap_ok (status s1)" using base1 by (simp add: base_inv_def)
  from get_all_ready [OF ready this, where t = t1] obtain st' where
    g: "get_all P W ?pids (replicate (length ?pids) Client @ rest) (s1, t1) = (Inr rest, st')" by blast
  have "get_all P W ?pids (map Task ps @ replicate (length ?pids) Client @ rest) (s, t) =
      get_all P W ?pids (replicate (length ?pids) Client @ rest) (s1, t1)"
    using w by (simp add: Cons act_bind_def)
  with g show ?thesis by (simp add: process_monitor_delete_def act_simps)
qed

end

section \<open>Properties\<close>

definition running :: "sync_process \<Rightarrow> bool" where
  "running p \<longleftrightarrow> started (sp_process p) \<and> \<not> terminated (sp_process p)"

definition pid_of :: "sync_process \<Rightarrow> int" where
  "pid_of p = proc_pid (sp_process p)"

text \<open>The pids a list of operations adds, for processes \<open>ps\<close>.\<close>

fun added_pids :: "sync_process list \<Rightarrow> pm_op list \<Rightarrow> int list" where
  "added_pids ps [] = []"
| "added_pids ps (Add_pid pid # ops) = pid # added_pids ps ops"
| "added_pids ps (Add_process ptr # ops) = pid_of (ps ! ptr) # added_pids ps ops"
| "added_pids ps (Wait_any _ # ops) = added_pids ps ops"

definition valid_ops :: "sync_process list \<Rightarrow> pm_op list \<Rightarrow> bool" where
  "valid_ops ps ops \<longleftrightarrow> (\<forall>p \<in> set ps. running p) \<and> distinct (added_pids ps ops) \<and>
     (\<forall>ptr. Add_process ptr \<in> set ops \<longrightarrow> ptr < length ps)"

lemma op_pids_added: "sync_waitable.op_pids (process_monitor_new ps) ops = added_pids ps ops"
  by (induction ps ops rule: added_pids.induct) (simp_all add: process_monitor_new_def pid_of_def)

lemma pending_valid:
  assumes "valid_ops ps ops"
  shows "sync_waitable.pending_ok {} (process_monitor_new ps) ops"
proof -
  have "ptr < length ps \<and> started (sp_process (ps ! ptr)) \<and> \<not> terminated (sp_process (ps ! ptr))"
    if "Add_process ptr \<in> set ops" for ptr
    using assms that by (auto simp: valid_ops_def running_def)
  with assms show ?thesis
    by (auto simp: sync_waitable.pending_ok_def op_pids_added valid_ops_def)
      (simp_all add: process_monitor_new_def)
qed

lemma valid_session:
  assumes "valid_ops ps ops" and "\<And>pid. waits t pid = 0"
    and "pm_session P (sync_class P) ops (process_monitor_new ps, t) = (r, (s', t'))"
  shows "r = Inl Blocked \<or> (\<exists>res. r = Inr res \<and>
    sync_waitable.pm_inv P (set (added_pids ps ops)) {} (s', t') \<and>
    distinct (map fst res) \<and> set (map fst res) \<subseteq> set (added_pids ps ops) \<and>
    dom (map_of (status s')) = set (added_pids ps ops) - set (map fst res) \<and>
    (\<forall>(pid, v) \<in> set res. reported_in P t' pid v))"
proof -
  have "status (process_monitor_new ps) = []" by (simp add: process_monitor_new_def)
  with sync_waitable.session_ok [OF sync_waitable.start_inv [OF assms(2)] pending_valid [OF assms(1)] assms(3)]
  show ?thesis unfolding op_pids_added by auto
qed

text \<open>
  C10. Everybody is waited for exactly once.  If the client of the session then destroys the monitor
  and the destructor returns, there has been exactly one \<open>waitpid\<close> for every process added,
  whether the client collected its result or not and whether it worked or not.
\<close>

theorem process_monitor_reaps:
  assumes "valid_ops ps ops" and "pid \<in> set (added_pids ps ops)"
    and "pm_session P (sync_class P) ops (process_monitor_new ps, []) = (Inr res, (s1, t1))"
    and "process_monitor_delete P (sync_class P) sched (s1, t1) = (Inr ts, (s2, t2))"
  shows "waits t2 pid = 1"
proof -
  let ?A = "set (added_pids ps ops)"
  from valid_session [OF assms(1) _ assms(3)]
  have "sync_waitable.pm_inv P ?A {} (s1, t1)" by simp
  then have base: "sync_waitable.base_inv ?A (s1, t1)" by (simp add: sync_waitable.pm_inv_def)
  from assms(4) have "get_all P (sync_class P) (map fst (status s1)) sched (s1, t1) = (Inr ts, (s2, t2))"
    by (simp add: process_monitor_delete_def act_simps)
  from sync_waitable.get_all_ok [OF base this]
  have base2: "sync_waitable.base_inv ?A (s2, t2)" and dom: "dom (map_of (status s2)) = dom (map_of (status s1))"
    and over: "\<forall>pid \<in> set (map fst (status s1)). \<not> waiting s2 pid" by auto
  have "\<not> waiting s2 pid"
  proof (cases "pid \<in> dom (map_of (status s1))")
    case True
    with over show ?thesis by (auto simp: dom_map_of_conv_image_fst)
  next
    case False
    with dom have "map_of (status s2) pid = None" by auto
    then show ?thesis by (simp add: waiting_def)
  qed
  with base2 assms(2) show ?thesis by (simp add: sync_waitable.base_inv_def)
qed

definition add_all :: "nat \<Rightarrow> pm_op list" where
  "add_all n = map Add_process [0..<n]"

lemma added_pids_all: "added_pids ps (map Add_process ptrs) = map (\<lambda>ptr. pid_of (ps ! ptr)) ptrs"
  by (induction ptrs) simp_all

lemma valid_add_all:
  assumes "\<forall>p \<in> set ps. running p" and "distinct (map pid_of ps)"
  shows "valid_ops ps (add_all (length ps))" and "added_pids ps (add_all (length ps)) = map pid_of ps"
proof -
  show pids: "added_pids ps (add_all (length ps)) = map pid_of ps"
    unfolding add_all_def added_pids_all by (rule nth_equalityI) simp_all
  with assms show "valid_ops ps (add_all (length ps))" by (auto simp: valid_ops_def add_all_def)
qed

lemma after_adds:
  assumes "\<forall>p \<in> set ps. running p" and "distinct (map pid_of ps)" and "\<And>pid. waits t pid = 0"
  shows "\<exists>s. (\<forall>ops. pm_session P (sync_class P) (add_all (length ps) @ ops) (process_monitor_new ps, t) =
      pm_session P (sync_class P) ops (s, t)) \<and>
    sync_waitable.pm_inv P (pid_of ` set ps) {} (s, t) \<and> dom (map_of (status s)) = pid_of ` set ps"
proof -
  note valid = valid_add_all [OF assms(1,2)]
  have pend: "sync_waitable.pending_ok {} (process_monitor_new ps) (map Add_process [0..<length ps])"
    using pending_valid [OF valid(1)] by (simp add: add_all_def)
  have pids: "set (sync_waitable.op_pids (process_monitor_new ps) (map Add_process [0..<length ps])) =
      pid_of ` set ps"
    using op_pids_added [of ps "add_all (length ps)"] valid(2) by (simp add: add_all_def)
  have "dom (map_of (status (process_monitor_new ps))) = {}" by (simp add: process_monitor_new_def)
  with sync_waitable.adds_run [OF sync_waitable.start_inv [OF assms(3)] pend, of P] pids
  show ?thesis by (simp add: add_all_def)
qed

text \<open>
  C29. The first result arrives.  All of some running processes with different pids are added.  If
  \<open>waitpid\<close> works for one of them, then as soon as its task has had two turns and then the client
  two, \<open>wait_for_any\<close> returns, even if the others never end, which have no turn, or end as well,
  which have two or more, in any order, and even if the waits for them fail.
\<close>

theorem wait_any_returns:
  assumes "\<forall>p \<in> set ps. running p" and "distinct (map pid_of ps)"
    and "p \<in> set ps" and "\<And>u. rc (answer P u (Sys_waitpid (pid_of p))) = pid_of p" and "pid_of p \<noteq> -1"
    and "2 \<le> count_list order (pid_of p)"
    and "\<And>q. q \<in> set ps \<Longrightarrow> count_list order (pid_of q) = 0 \<or> 2 \<le> count_list order (pid_of q)"
  shows "\<exists>res st'. pm_session P (sync_class P)
      (add_all (length ps) @ [Wait_any (map Task order @ [Client, Client])]) (process_monitor_new ps, []) =
    (Inr [res], st')"
proof -
  let ?A = "pid_of ` set ps" and ?ops = "[Wait_any (map Task order @ [Client, Client])]"
  obtain s where run: "\<And>ops. pm_session P (sync_class P) (add_all (length ps) @ ops) (process_monitor_new ps, []) =
      pm_session P (sync_class P) ops (s, [])"
    and inv: "sync_waitable.pm_inv P ?A {} (s, [])" and dom: "dom (map_of (status s)) = ?A"
    using after_adds [OF assms(1,2), of "[]" P] by auto
  from inv have base: "sync_waitable.base_inv ?A (s, [])" by (simp add: sync_waitable.pm_inv_def)
  have none: "waits [] pid = 0" for pid by simp
  note before = sync_waitable.all_waiting [OF base none]
  have p: "pid_of p \<in> dom (map_of (status s))" using dom assms(3) by simp
  have fails: "\<forall>e. result_of s (pid_of p) \<noteq> Some (Inl e)" using before(2) by simp
  have turns: "turns_left (map_of (status s) pid) \<le> count_list order pid \<or>
      (waiting s pid \<and> count_list order pid = 0)" for pid
  proof (cases "pid \<in> ?A")
    case True
    then obtain q where q: "q \<in> set ps" "pid = pid_of q" by (rule imageE) simp
    from assms(7) [OF q(1)] show ?thesis unfolding q(2) [symmetric]
    proof
      assume "count_list order pid = 0"
      with before(1) [OF True] show ?thesis by simp
    next
      assume "2 \<le> count_list order pid"
      with before(3) [of pid] True show ?thesis by simp
    qed
  next
    case False
    with dom have "map_of (status s) pid = None" by auto
    then show ?thesis by (simp add: turns_left_def)
  qed
  have ends: "turns_left (map_of (status s) (pid_of p)) \<le> count_list order (pid_of p)"
    using before(3) [of "pid_of p"] assms(6) by simp
  from sync_waitable.wait_for_any_returns [OF inv p assms(4,5) fails ends turns] obtain pid v st' where
    "wait_for_any P (sync_class P) (map Task order @ [Client, Client]) (s, []) = (Inr ((pid, v), []), st')"
    by blast
  then have "pm_session P (sync_class P) ?ops (s, []) = (Inr [(pid, v)], st')" by (simp add: act_simps)
  then show ?thesis unfolding run by blast
qed

text \<open>
  C30. Failing waits are lost.  If every \<open>waitpid\<close> fails (the children were reaped by somebody else,
  say), the exceptions end up in futures nobody looks at, no pid is ever queued, and \<open>wait_for_any\<close>
  does not return under any schedule.
\<close>

theorem wait_any_blocks:
  assumes "\<forall>p \<in> set ps. running p" and "distinct (map pid_of ps)"
    and "\<And>u q. rc (answer P u (Sys_waitpid q)) = -1"
  shows "fst (pm_session P (sync_class P) (add_all (length ps) @ [Wait_any sched])
    (process_monitor_new ps, [])) = Inl Blocked"
proof -
  let ?A = "pid_of ` set ps"
  obtain s where run: "\<And>ops. pm_session P (sync_class P) (add_all (length ps) @ ops) (process_monitor_new ps, []) =
      pm_session P (sync_class P) ops (s, [])"
    and inv: "sync_waitable.pm_inv P ?A {} (s, [])"
    using after_adds [OF assms(1,2), of "[]" P] by auto
  from inv have base: "sync_waitable.base_inv ?A (s, [])" by (simp add: sync_waitable.pm_inv_def)
  have none: "waits [] pid = 0" for pid by simp
  have "\<forall>q v. result_of s q \<noteq> Some (Inr v)" using sync_waitable.all_waiting(2) [OF base none] by simp
  from sync_waitable.wait_for_any_blocks [OF inv assms(3) this, of sched]
  obtain st where "wait_for_any P (sync_class P) sched (s, []) = (Inl Blocked, st)"
    by (metis prod.collapse)
  then show ?thesis unfolding run by (simp add: act_bind_def)
qed

text \<open>
  The destructor returns.  It does so once every task has had two turns and the destructor one
  for each of them, whether the waits work or not; so it hangs only while a process is still
  running.
\<close>

theorem process_monitor_delete_returns:
  assumes "valid_ops ps ops"
    and "pm_session P (sync_class P) ops (process_monitor_new ps, []) = (Inr res, (s, t))"
    and "\<And>pid. pid \<in> set (added_pids ps ops) \<Longrightarrow> 2 \<le> count_list order pid"
  shows "\<exists>ts. fst (process_monitor_delete P (sync_class P)
    (map Task order @ replicate (length (status s)) Client) (s, t)) = Inr ts"
proof (cases "status s")
  case Nil
  then show ?thesis by (simp add: process_monitor_delete_def act_simps)
next
  case (Cons a m)
  let ?A = "set (added_pids ps ops)"
  have "sync_waitable.pm_inv P ?A {} (s, t)" using valid_session [OF assms(1) _ assms(2)] by simp
  then have base: "sync_waitable.base_inv ?A (s, t)" by (simp add: sync_waitable.pm_inv_def)
  have "turns_left (map_of (status s) pid) \<le> count_list order pid" for pid
  proof (cases "pid \<in> ?A")
    case True
    have "turns_left (map_of (status s) pid) \<le> 2"
      by (simp add: turns_left_def split: option.split task.split)
    with assms(3) [OF True] show ?thesis by simp
  next
    case False
    with base have "map_of (status s) pid = None" by (auto simp: sync_waitable.base_inv_def)
    then show ?thesis by (simp add: turns_left_def)
  qed
  from sync_waitable.delete_returns [OF base this, where rest = "[]" and P = P] show ?thesis
    by (metis append_Nil2 fst_conv)
qed

text \<open>Two processes that have been prepared, and a kernel on which no wait works.\<close>

definition child :: "int \<Rightarrow> sync_process" where
  "child pid = put_process \<lparr>proc_args = [''/bin/true''], proc_pid = pid, proc_status = 0,
     proc_terminated = False\<rparr> (fresh_sync [''/bin/true''] 0 3 4 5 6)"

lemma child_simps [simp]: "pid_of (child pid) = pid" "running (child pid) \<longleftrightarrow> pid \<noteq> -1"
  by (simp_all add: child_def pid_of_def running_def put_process_def started_def terminated_def)

definition no_waits :: platform where
  "no_waits = good_platform\<lparr>answer := (\<lambda>t c. case c of
     Sys_waitpid _ \<Rightarrow> ok_reply\<lparr>rc := -1, err := 10\<rparr> | _ \<Rightarrow> answer good_platform t c)\<rparr>"

theorem process_monitor_reaps_witness:
  "\<exists>s1 t1 ts s2 t2.
     pm_session good_platform (sync_class good_platform) (add_all 2) (process_monitor_new [child 7, child 9], []) =
       (Inr [], (s1, t1)) \<and>
     process_monitor_delete good_platform (sync_class good_platform)
       [Task 9, Task 9, Task 7, Task 7, Client, Client] (s1, t1) = (Inr ts, (s2, t2)) \<and>
     waits t2 7 = 1"
proof -
  let ?P = good_platform and ?ps = "[child 7, child 9]"
  let ?run = "pm_session ?P (sync_class ?P) (add_all 2) (process_monitor_new ?ps, [])"
  have "fst ?run = Inr []" "fst (process_monitor_delete ?P (sync_class ?P)
       [Task 9, Task 9, Task 7, Task 7, Client, Client] (snd ?run)) = Inr []" by code_simp+
  then obtain s1 t1 s2 t2 where run: "?run = (Inr [], (s1, t1))"
    "process_monitor_delete ?P (sync_class ?P) [Task 9, Task 9, Task 7, Task 7, Client, Client] (s1, t1) =
       (Inr [], (s2, t2))"
    by (metis prod.collapse snd_conv)
  have "\<forall>p \<in> set ?ps. running p" "distinct (map pid_of ?ps)" by simp_all
  from valid_add_all [OF this] have v: "valid_ops ?ps (add_all 2)" "7 \<in> set (added_pids ?ps (add_all 2))"
    by (simp_all add: numeral_2_eq_2)
  from process_monitor_reaps [OF v run] run show ?thesis by blast
qed

theorem wait_any_returns_witness:
  "\<exists>res st'. pm_session good_platform (sync_class good_platform)
      (add_all 2 @ [Wait_any (map Task [7, 7] @ [Client, Client])])
      (process_monitor_new [child 7, child 9], []) = (Inr [res], st')"
proof -
  have ps: "\<forall>p \<in> set [child 7, child 9]. running p" "distinct (map pid_of [child 7, child 9])"
    "child 7 \<in> set [child 7, child 9]" by simp_all
  have works: "rc (answer good_platform u (Sys_waitpid (pid_of (child 7)))) = pid_of (child 7)" for u by simp
  have pid: "pid_of (child 7) \<noteq> -1" by simp
  have ends: "2 \<le> count_list [7, 7] (pid_of (child 7))" by simp
  have order: "count_list [7, 7] (pid_of q) = 0 \<or> 2 \<le> count_list [7, 7] (pid_of q)"
    if "q \<in> set [child 7, child 9]" for q
    using that by auto
  have len: "length [child 7, child 9] = 2" by simp
  from wait_any_returns [OF ps works pid ends order] show ?thesis unfolding len .
qed

theorem wait_any_blocks_witness:
  "fst (pm_session no_waits (sync_class no_waits)
    (add_all 1 @ [Wait_any [Task 7, Client, Task 7, Client]]) (process_monitor_new [child 7], [])) = Inl Blocked"
proof -
  have "\<forall>p \<in> set [child 7]. running p" "distinct (map pid_of [child 7])" by simp_all
  moreover have "rc (answer no_waits u (Sys_waitpid q)) = -1" for u q by (simp add: no_waits_def)
  ultimately show ?thesis using wait_any_blocks [of "[child 7]" no_waits] by simp
qed

theorem process_monitor_delete_returns_witness:
  "\<exists>s t ts. pm_session no_waits (sync_class no_waits) [Add_process 0, Add_pid 9]
      (process_monitor_new [child 7], []) = (Inr [], (s, t)) \<and>
    fst (process_monitor_delete no_waits (sync_class no_waits)
      (map Task [7, 7, 9, 9] @ replicate (length (status s)) Client) (s, t)) = Inr ts"
proof -
  let ?run = "pm_session no_waits (sync_class no_waits) [Add_process 0, Add_pid 9] (process_monitor_new [child 7], [])"
  have "fst ?run = Inr []" by code_simp
  then obtain s t where run: "?run = (Inr [], (s, t))" by (metis prod.collapse)
  have v: "valid_ops [child 7] [Add_process 0, Add_pid 9]" by (simp add: valid_ops_def)
  have "2 \<le> count_list [7, 7, 9, 9] pid"
    if "pid \<in> set (added_pids [child 7] [Add_process 0, Add_pid 9])" for pid :: int
    using that by auto
  from process_monitor_delete_returns [OF v run this] run show ?thesis by auto
qed

end
