(* ===== verification/Process_Reports.thy ===== *)
theory Process_Reports
  imports Process_Sessions "HOL-Library.Sublist"
begin

text \<open>
  What \<open>wait_for_any\<close> reports when a client adds whatever pids it likes, also several times: pids are
  reused by the system, and adding one that is still being waited for is refused.
\<close>

section \<open>Statuses the kernel delivered\<close>

text \<open>Those of the successful calls of \<open>waitpid\<close> for a pid, in the order of the calls.\<close>

definition delivered :: "platform \<Rightarrow> syscall list \<Rightarrow> int \<Rightarrow> int list" where
  "delivered P t pid =
     [out_status (answer P (take i t) (t ! i)).
        i \<leftarrow> [0..<length t], t ! i = Sys_waitpid pid \<and> rc (answer P (take i t) (t ! i)) \<noteq> -1]"

lemma delivered_Nil [simp]: "delivered P [] pid = []"
  by (simp add: delivered_def)

lemma delivered_snoc:
  "delivered P (t @ [c]) pid = delivered P t pid @
     (if c = Sys_waitpid pid \<and> rc (answer P t c) \<noteq> -1 then [out_status (answer P t c)] else [])"
proof -
  let ?at = "\<lambda>t i. if t ! i = Sys_waitpid pid \<and> rc (answer P (take i t) (t ! i)) \<noteq> -1
      then [out_status (answer P (take i t) (t ! i))] else []"
  have "map (?at (t @ [c])) [0..<length t] = map (?at t) [0..<length t]"
    by (intro map_cong) (simp_all add: nth_append)
  moreover have "delivered P u pid = concat (map (?at u) [0..<length u])" for u by (simp add: delivered_def)
  moreover have "[0..<length (t @ [c])] = [0..<length t] @ [length t]" by simp
  ultimately have "delivered P (t @ [c]) pid = delivered P t pid @ ?at (t @ [c]) (length t)"
    by (simp only: map_append concat_append list.map concat.simps append_Nil2)
  then show ?thesis by simp
qed

text \<open>The statuses a client was told for a pid.\<close>

definition reports_of :: "int \<Rightarrow> (int \<times> int) list \<Rightarrow> int list" where
  "reports_of pid res = map snd (filter (\<lambda>r. fst r = pid) res)"

lemma reports_of_simps [simp]:
  "reports_of pid [] = []"
  "reports_of pid ((q, v) # res) = (if q = pid then v # reports_of pid res else reports_of pid res)"
  by (simp_all add: reports_of_def)

section \<open>The invariant\<close>

context waitable
begin

text \<open>
  \<open>R\<close> are the statuses reported so far, \<open>N\<close> says how often pids have been added, \<open>U\<close> are the processes that
  have not been added yet.
\<close>

definition told :: "(int \<Rightarrow> int list) \<Rightarrow> 'p process_monitor \<Rightarrow> syscall list \<Rightarrow> int \<Rightarrow> bool" where
  "told R s t pid \<longleftrightarrow> (case result_of s pid of
       None \<Rightarrow> waits t pid = length (R pid) \<and> delivered P t pid = R pid
     | Some (Inr v) \<Rightarrow> waits t pid = Suc (length (R pid)) \<and> delivered P t pid = R pid @ [v]
     | Some (Inl e) \<Rightarrow> waits t pid = Suc (length (R pid)) \<and> prefix (R pid) (delivered P t pid))"

definition unused :: "nat set \<Rightarrow> 'p process_monitor \<Rightarrow> bool" where
  "unused U s \<longleftrightarrow> (\<forall>ptr \<in> U. ptr < length (shared s) \<and> fresh (shared s ! ptr) \<and>
     (\<forall>pid. map_of (status s) pid \<noteq> Some (Waiting_process ptr)))"

definition session_inv ::
    "(int \<Rightarrow> int list) \<Rightarrow> (int \<Rightarrow> nat) \<Rightarrow> nat set \<Rightarrow> int set \<Rightarrow> 'p process_monitor \<times> syscall list \<Rightarrow> bool" where
  "session_inv R N U X st \<longleftrightarrow> smap_ok (status (fst st)) \<and> pointers_ok (fst st) \<and> queue_ok X (fst st) \<and>
     No_state \<notin> ran (map_of (status (fst st))) \<and> unused U (fst st) \<and>
     (\<forall>pid. told R (fst st) (snd st) pid \<and>
        waits (snd st) pid + (if waiting (fst st) pid then 1 else 0) \<le> N pid)"

lemma told_bounds: "told R s t pid \<Longrightarrow> prefix (R pid) (delivered P t pid) \<and> waits t pid \<le> Suc (length (R pid))"
  by (auto simp: told_def split: option.splits sum.splits)

text \<open>What the operations after an \<open>add\<close> or a \<open>wait_for_any\<close> may use is what those before left.\<close>

lemma unused_mono: "unused U s \<Longrightarrow> U' \<subseteq> U \<Longrightarrow> unused U' s"
  by (auto simp: unused_def)

definition same_pids :: "nat set \<Rightarrow> 'p process_monitor \<Rightarrow> 'p process_monitor \<Rightarrow> bool" where
  "same_pids U s s' \<longleftrightarrow> length (shared s') = length (shared s) \<and> (\<forall>ptr \<in> U. shared s' ! ptr = shared s ! ptr)"

lemma step_session:
  assumes step: "task_step P pid (s, t) (s', t')" and inv: "session_inv R N U X (s, t)"
  shows "session_inv R N U X (s', t')" and "same_pids U s s'"
proof -
  have ok: "smap_ok (status s)" using inv by (simp add: session_inv_def)
  have "session_inv R N U X (s', t') \<and> same_pids U s s'"
    using step
  proof (cases rule: task_step_cases)
    case idle
    with inv show ?thesis by (simp add: same_pids_def)
  next
    case (settle r)
    then have look: "map_of (status s') = (map_of (status s))(pid \<mapsto> Ready r)" using ok by (simp add: map_of_smap_put)
    with settle have same: "result_of s' = result_of s" "waiting s' = waiting s"
      by (auto simp: result_of_def waiting_def fun_eq_iff)
    have "No_state \<notin> ran (map_of (status s'))"
      unfolding look using inv by (auto simp: session_inv_def ran_def split: if_splits)
    moreover have "pointers_ok s'" "unused U s'"
      using inv settle look by (auto simp: session_inv_def pointers_ok_def unused_def split: if_splits)
    ultimately show ?thesis
      using inv settle same by (simp add: session_inv_def queue_ok_def told_def same_pids_def)
  next
    case (waited r)
    then have look: "map_of (status s') = (map_of (status s))(pid \<mapsto> Returning r)" using ok by (simp add: map_of_smap_put)
    then have wt: "waiting s' = (waiting s)(pid := False)" and res: "result_of s' = (result_of s)(pid \<mapsto> r)"
      by (auto simp: waiting_def result_of_def fun_eq_iff)
    have none: "result_of s pid = None"
      using waited(1) by (auto simp: waiting_def result_of_def split: option.splits task.splits)
    have same: "shared s' ! ptr = shared s ! ptr" if "map_of (status s) pid \<noteq> Some (Waiting_process ptr)" for ptr
      using waited(6) [OF that] .
    have "pointers_ok s'"
      unfolding pointers_ok_def
    proof (intro allI impI)
      fix q ptr
      assume "map_of (status s') q = Some (Waiting_process ptr)"
      then have q: "q \<noteq> pid" "map_of (status s) q = Some (Waiting_process ptr)" by (auto simp: look split: if_splits)
      then have "ptr < length (shared s) \<and> fresh (shared s ! ptr) \<and> pid_of (shared s ! ptr) = q"
        using inv by (simp add: session_inv_def pointers_ok_def)
      moreover have "map_of (status s) pid \<noteq> Some (Waiting_process ptr)"
      proof
        assume "map_of (status s) pid = Some (Waiting_process ptr)"
        then have "pid_of (shared s ! ptr) = pid" using inv by (simp add: session_inv_def pointers_ok_def)
        with calculation q(1) show False by simp
      qed
      ultimately show "ptr < length (shared s') \<and> fresh (shared s' ! ptr) \<and> pid_of (shared s' ! ptr) = q"
        using same waited(5) by simp
    qed
    moreover have U: "shared s' ! ptr = shared s ! ptr" if "ptr \<in> U" for ptr
      using that inv same by (auto simp: session_inv_def unused_def)
    then have "unused U s'" "same_pids U s s'"
      using inv waited(5) by (auto simp: session_inv_def unused_def same_pids_def look)
    moreover have "queue_ok X s'"
    proof -
      have "pid \<notin> X \<union> set (queue (ended_process_queue s))"
        using inv none unfolding session_inv_def queue_ok_def by simp
      then have "pid \<notin> X" "pid \<notin> set (queue (ended_process_queue s))" by simp_all
      with inv waited(4) res none show ?thesis by (cases r) (auto simp: session_inv_def queue_ok_def)
    qed
    moreover have "No_state \<notin> ran (map_of (status s'))"
      unfolding look using inv by (auto simp: session_inv_def ran_def split: if_splits)
    moreover have "told R s' t' q \<and> waits t' q + (if waiting s' q then 1 else 0) \<le> N q" for q
    proof (cases "q = pid")
      case False
      then have d: "delivered P t' q = delivered P t q" "waits t' q = waits t q" "result_of s' q = result_of s q"
        by (simp_all add: waited(2) delivered_snoc res)
      have "told R s' t' q = told R s t q" unfolding told_def d ..
      with inv False show ?thesis by (simp add: session_inv_def wt d)
    next
      case True
      from inv have "told R s t pid" "waits t pid + (if waiting s pid then 1 else 0) \<le> N pid" by (simp_all add: session_inv_def)
      with none waited(1) have "waits t pid = length (R pid)" "delivered P t pid = R pid" "Suc (waits t pid) \<le> N pid"
        by (simp_all add: told_def)
      with True waited(7) show ?thesis
        by (cases r) (auto simp: told_def res wt waited(2) delivered_snoc)
    qed
    moreover have "smap_ok (status s')" using ok waited(3) by simp
    ultimately show ?thesis by (simp add: session_inv_def)
  qed
  then show "session_inv R N U X (s', t')" and "same_pids U s s'" by simp_all
qed

section \<open>Waiting\<close>

lemma same_pids_refl [simp]: "same_pids U s s"
  and same_pids_trans: "same_pids U s s' \<Longrightarrow> same_pids U s' s'' \<Longrightarrow> same_pids U s s''"
  by (auto simp: same_pids_def)

lemma await_session:
  assumes "session_inv R N U X (s, t)" and "await P W c sched (s, t) = (r, (s', t'))"
  shows "session_inv R N U X (s', t') \<and> same_pids U s s' \<and>
    (\<forall>q x. result_of s q = Some x \<longrightarrow> result_of s' q = Some x) \<and> (r = Inl Blocked \<or> (\<exists>ts. r = Inr ts \<and> c s'))"
  using assms
proof (induction sched arbitrary: s t)
  case Nil
  then show ?case by simp
next
  case (Cons turn sched)
  show ?case
  proof (cases turn)
    case Client
    with Cons show ?thesis by (cases "c s") auto
  next
    case (Task pid)
    have ptrs: "pointers_ok s" and ok: "smap_ok (status s)" using Cons.prems(1) by (simp_all add: session_inv_def)
    obtain s1 t1 where run: "run_task P W pid (s, t) = (Inr (), (s1, t1))"
      and step: "task_step P pid (s, t) (s1, t1)"
      using task_steps [OF ptrs] by blast
    from Cons.prems(2) Task run have "await P W c sched (s1, t1) = (r, (s', t'))" by simp
    from Cons.IH [OF step_session(1) [OF step Cons.prems(1)] this] step_session(2) [OF step Cons.prems(1)]
      step_lookup(4) [OF step ok]
    show ?thesis by (auto intro: same_pids_trans)
  qed
qed

lemma pop_session:
  assumes inv: "session_inv R N U {} (s, t)" and "some_ended s"
  shows "\<exists>pid s' v. pop_ended (s, t) = (Inr pid, (s', t)) \<and> session_inv R N U {pid} (s', t) \<and>
    shared s' = shared s \<and> result_of s' pid = Some (Inr v)"
proof -
  obtain pid rest where q: "queue (ended_process_queue s) = pid # rest"
    using assms(2) by (auto simp: some_ended_iff neq_Nil_conv)
  let ?s = "s\<lparr>ended_process_queue := \<lparr>queue = rest\<rparr>\<rparr>"
  have pop: "pop_ended (s, t) = (Inr pid, (?s, t))" by (simp add: pop_ended_def cq_pop_def q)
  have res: "result_of ?s = result_of s" and wt: "waiting ?s = waiting s"
    by (simp_all add: result_of_def waiting_def fun_eq_iff)
  have "queue_ok {pid} ?s" using inv q by (simp add: session_inv_def queue_ok_def res)
  then have inv': "session_inv R N U {pid} (?s, t)"
    using inv by (simp add: session_inv_def pointers_ok_def unused_def told_def res wt)
  then have "pid \<in> {pid. \<exists>v. result_of ?s pid = Some (Inr v)}"
    unfolding session_inv_def queue_ok_def by (simp del: mem_Collect_eq) blast
  then obtain v where "result_of ?s pid = Some (Inr v)" by blast
  with pop inv' show ?thesis by (intro exI [of _ pid] exI [of _ ?s] exI [of _ v]) simp
qed

lemma collect_session:
  assumes inv: "session_inv R N U {pid} (s, t)" and "future_ready pid s" and v: "result_of s pid = Some (Inr v)"
  shows "\<exists>s'. act_bind (future_get pid) (\<lambda>v.
      act_bind (modify (\<lambda>s. s\<lparr>status := smap_del pid (status s)\<rparr>)) (\<lambda>_. ret ((pid, v), ts))) (s, t) =
        (Inr ((pid, v), ts), (s', t)) \<and> session_inv (R(pid := R pid @ [v])) N U {} (s', t) \<and> shared s' = shared s"
proof -
  have look: "map_of (status s) pid = Some (Ready (Inr v))"
    using assms(2) v inv by (auto simp: future_ready_def result_of_def split: option.splits task.splits)
  have ok: "smap_ok (status s)" using inv by (simp add: session_inv_def)
  let ?s = "s\<lparr>status := smap_del pid (smap_put pid No_state (status s))\<rparr>"
  have look': "map_of (smap_del pid (smap_put pid No_state (status s))) = (map_of (status s))(pid := None)"
    using ok by (auto simp: map_of_smap_del map_of_smap_put)
  have res: "result_of ?s = (result_of s)(pid := None)" and wt: "waiting ?s = waiting s"
    using look look' by (auto simp: result_of_def waiting_def fun_eq_iff)
  have "queue_ok {} ?s"
  proof -
    have q: "pid \<notin> set (queue (ended_process_queue s))"
      "insert pid (set (queue (ended_process_queue s))) = {pid. \<exists>v. result_of s pid = Some (Inr v)}"
      using inv by (simp_all add: session_inv_def queue_ok_def)
    have "{q. \<exists>v. result_of ?s q = Some (Inr v)} = {q. \<exists>v. result_of s q = Some (Inr v)} - {pid}"
      by (auto simp: res)
    also have "\<dots> = set (queue (ended_process_queue s))" using q by (metis Diff_insert_absorb)
    finally show ?thesis using inv by (simp add: session_inv_def queue_ok_def)
  qed
  moreover have "No_state \<notin> ran (map_of (status ?s))"
    using inv by (auto simp: session_inv_def ran_def look')
  moreover have "pointers_ok ?s" "unused U ?s"
    using inv by (auto simp: session_inv_def pointers_ok_def unused_def look' split: if_splits)
  moreover have "told (R(pid := R pid @ [v])) ?s t q" for q
  proof -
    have "told R s t q" using inv by (simp add: session_inv_def)
    then show ?thesis using v by (auto simp: told_def res split: option.splits sum.splits)
  qed
  ultimately have "session_inv (R(pid := R pid @ [v])) N U {} (?s, t)"
    using inv ok by (simp add: session_inv_def wt)
  then show ?thesis
    using look look' by (intro exI [of _ ?s]) (auto simp: future_get_def act_simps set_task_def)
qed

lemma wait_session:
  assumes inv: "session_inv R N U {} (s, t)" and run: "wait_for_any P W sched (s, t) = (r, (s', t'))"
  shows "r = Inl Blocked \<or> (\<exists>pid v ts. r = Inr ((pid, v), ts) \<and>
    session_inv (R(pid := R pid @ [v])) N U {} (s', t') \<and> same_pids U s s')"
proof -
  obtain r1 s1 t1 where w1: "await P W some_ended sched (s, t) = (r1, (s1, t1))" by (rule prod_cases3)
  note a1 = await_session [OF inv w1]
  show ?thesis
  proof (cases r1)
    case (Inl e)
    with a1 run w1 show ?thesis by (auto simp: wait_for_any_def run_bind_stop)
  next
    case (Inr ts1)
    with a1 have "session_inv R N U {} (s1, t1)" "some_ended s1" by simp_all
    from pop_session [OF this] obtain pid s2 v where
      pop: "pop_ended (s1, t1) = (Inr pid, (s2, t1))" and inv2: "session_inv R N U {pid} (s2, t1)"
      and s2: "shared s2 = shared s1" and v: "result_of s2 pid = Some (Inr v)" by blast
    have in2: "map_of (status s2) pid \<noteq> None" using v by (auto simp: result_of_def split: option.splits)
    obtain r3 s3 t3 where w3: "await P W (future_ready pid) ts1 (s2, t1) = (r3, (s3, t3))" by (rule prod_cases3)
    note a3 = await_session [OF inv2 w3]
    have run3: "wait_for_any P W sched (s, t) =
        act_bind (await P W (future_ready pid) ts1) (\<lambda>sched2.
          act_bind (future_get pid) (\<lambda>v. act_bind (modify (\<lambda>s. s\<lparr>status := smap_del pid (status s)\<rparr>))
            (\<lambda>_. ret ((pid, v), sched2)))) (s2, t1)"
      using w1 Inr pop in2 by (auto simp: wait_for_any_def run_bind assert_that_def)
    show ?thesis
    proof (cases r3)
      case (Inl e)
      with a3 run run3 w3 show ?thesis by (auto simp: run_bind_stop)
    next
      case r3: (Inr ts)
      have ready: "session_inv R N U {pid} (s3, t3)" "future_ready pid s3" "result_of s3 pid = Some (Inr v)"
        using a3 r3 v by simp_all
      from collect_session [OF ready, of ts] obtain s4 where
        "act_bind (future_get pid) (\<lambda>v. act_bind (modify (\<lambda>s. s\<lparr>status := smap_del pid (status s)\<rparr>))
            (\<lambda>_. ret ((pid, v), ts))) (s3, t3) = (Inr ((pid, v), ts), (s4, t3))"
        and inv4: "session_inv (R(pid := R pid @ [v])) N U {} (s4, t3)" and s4: "shared s4 = shared s3" by blast
      then have "r = Inr ((pid, v), ts)" "s' = s4" "t' = t3" using run run3 w3 r3 by (simp_all add: run_bind)
      moreover have "same_pids U s s4" using a1 a3 s2 s4 by (simp add: same_pids_def)
      ultimately show ?thesis using inv4 by blast
    qed
  qed
qed

section \<open>Adding\<close>

text \<open>A pid that is in the map is refused; otherwise there is one more wait to come.\<close>

lemma add_session:
  assumes inv: "session_inv R N U {} (s, t)" and none: "map_of (status s) pid = None"
    and x: "x = Waiting_pid \<or> (\<exists>ptr < length (shared s). x = Waiting_process ptr \<and> fresh (shared s ! ptr) \<and>
      pid_of (shared s ! ptr) = pid \<and> ptr \<notin> U)"
  shows "session_inv R (N(pid := Suc (N pid))) U {} (set_task pid x s, t)"
proof -
  have ok: "smap_ok (status s)" using inv by (simp add: session_inv_def)
  have look: "map_of (smap_put pid x (status s)) = (map_of (status s))(pid \<mapsto> x)"
    using ok by (simp add: map_of_smap_put)
  have res: "result_of (set_task pid x s) = result_of s"
    and wt: "waiting (set_task pid x s) = (waiting s)(pid := True)"
    using none x by (auto simp: result_of_def waiting_def look fun_eq_iff)
  have "\<not> waiting s pid" using none by (simp add: waiting_def)
  moreover have "No_state \<notin> ran (map_of (status (set_task pid x s)))"
    using inv x by (auto simp: session_inv_def ran_def look split: if_splits)
  moreover have "pointers_ok (set_task pid x s)"
    using inv x by (auto simp: session_inv_def pointers_ok_def look split: if_splits)
  moreover have "unused U (set_task pid x s)"
    using inv x by (auto simp: session_inv_def unused_def look split: if_splits)
  ultimately show ?thesis
    using inv ok by (auto simp: session_inv_def queue_ok_def told_def res wt split: if_splits)
qed

lemma session_inv_more: "session_inv R N U X st \<Longrightarrow> (\<And>pid. N pid \<le> N' pid) \<Longrightarrow> U' \<subseteq> U \<Longrightarrow> session_inv R N' U' X st"
  unfolding session_inv_def by (meson order.trans unused_mono)

text \<open>What is still to come: each process at most once, none of them added before.\<close>

fun op_ptrs :: "pm_op list \<Rightarrow> nat list" where
  "op_ptrs [] = []"
| "op_ptrs (Add_process ptr # ops) = ptr # op_ptrs ops"
| "op_ptrs (_ # ops) = op_ptrs ops"

lemma op_pids_same: "same_pids (set (op_ptrs ops)) s s' \<Longrightarrow> op_pids s' ops = op_pids s ops"
  by (induction ops rule: op_ptrs.induct) (auto simp: same_pids_def)

lemma session_reports:
  assumes "session_inv R N (set (op_ptrs ops)) {} (s, t)" and "distinct (op_ptrs ops)"
    and "pm_session P W ops (s, t) = (r, (s', t'))"
  shows "r = Inl Blocked \<or> (\<exists>res. r = Inr res \<and>
    session_inv (\<lambda>pid. R pid @ reports_of pid res) (\<lambda>pid. N pid + count_list (op_pids s ops) pid) {} {} (s', t'))"
  using assms
proof (induction ops arbitrary: R N s t r s' t')
  case Nil
  then show ?case by (auto simp: ret_def)
next
  case (Cons op ops)
  let ?U = "set (op_ptrs ops)"
  have inv: "session_inv R N ?U {} (s, t)"
    by (rule session_inv_more [OF Cons.prems(1)]) (cases op; auto)+
  have dist: "distinct (op_ptrs ops)" using Cons.prems(2) by (cases op) auto
  \<comment> \<open>an add of \<open>pid\<close> as \<open>x\<close>\<close>
  have add: ?case if op: "op_pids s (op # ops) = pid # op_pids s ops"
    and run: "pm_session P W ops (if map_of (status s) pid = None then set_task pid x s else s, t) = (r, (s', t'))"
    and x: "x = Waiting_pid \<or> (\<exists>ptr < length (shared s). x = Waiting_process ptr \<and> fresh (shared s ! ptr) \<and>
      pid_of (shared s ! ptr) = pid \<and> ptr \<notin> ?U)" for pid x
  proof -
    let ?s = "if map_of (status s) pid = None then set_task pid x s else s"
    have "session_inv R (N(pid := Suc (N pid))) ?U {} (?s, t)"
      using add_session [OF inv _ x] session_inv_more [OF inv, of "N(pid := Suc (N pid))"] by auto
    from Cons.IH [OF this dist run] have "r = Inl Blocked \<or> (\<exists>res. r = Inr res \<and>
      session_inv (\<lambda>pid. R pid @ reports_of pid res) (\<lambda>q. (N(pid := Suc (N pid))) q + count_list (op_pids ?s ops) q) {} {} (s', t'))" .
    moreover have "op_pids ?s ops = op_pids s ops" by (rule op_pids_same) (simp add: same_pids_def)
    ultimately show ?thesis unfolding op by (auto elim!: session_inv_more)
  qed
  show ?case
  proof (cases op)
    case (Add_pid pid)
    with Cons.prems(3) show ?thesis
      by (intro add [of pid Waiting_pid]) (auto simp: add_pid_def check_duplicated_pid_def act_simps split: if_splits)
  next
    case (Add_process ptr)
    let ?pid = "pid_of (shared s ! ptr)"
    have ptr: "ptr < length (shared s)" "fresh (shared s ! ptr)"
      using Cons.prems(1) Add_process by (simp_all add: session_inv_def unused_def)
    have "deref ptr (pc_pid W) (s, t) = (Inr ?pid, (s, t))"
      using ptr by (simp add: deref_def zoom_def pid_run)
    with Cons.prems(2,3) Add_process ptr show ?thesis
      by (intro add [of ?pid "Waiting_process ptr"])
        (auto simp: add_process_def check_duplicated_pid_def act_simps split: if_splits)
  next
    case (Wait_any sched)
    obtain r1 s1 t1 where w: "wait_for_any P W sched (s, t) = (r1, (s1, t1))" by (rule prod_cases3)
    from wait_session [OF inv w] show ?thesis
    proof (elim disjE exE conjE)
      assume "r1 = Inl Blocked"
      with w Cons.prems(3) Wait_any show ?thesis by (auto simp: run_bind_stop)
    next
      fix pid v ts
      assume r1: "r1 = Inr ((pid, v), ts)" and inv1: "session_inv (R(pid := R pid @ [v])) N ?U {} (s1, t1)"
        and same: "same_pids ?U s s1"
      obtain r2 s2 t2 where rest: "pm_session P W ops (s1, t1) = (r2, (s2, t2))" by (rule prod_cases3)
      have out: "r = (case r2 of Inl e \<Rightarrow> Inl e | Inr rs \<Rightarrow> Inr ((pid, v) # rs))" "s' = s2" "t' = t2"
        using Cons.prems(3) Wait_any w r1 rest by (auto simp: act_bind_def ret_def split: sum.splits)
      from Cons.IH [OF inv1 dist rest] show ?thesis
      proof (elim disjE exE conjE)
        assume "r2 = Inl Blocked"
        with out show ?thesis by simp
      next
        fix res
        assume r2: "r2 = Inr res" and inv2: "session_inv (\<lambda>q. (R(pid := R pid @ [v])) q @ reports_of q res)
          (\<lambda>q. N q + count_list (op_pids s1 ops) q) {} {} (s2, t2)"
        have "(\<lambda>q. (R(pid := R pid @ [v])) q @ reports_of q res) = (\<lambda>q. R q @ reports_of q ((pid, v) # res))"
          by (simp add: fun_eq_iff)
        with inv2 op_pids_same [OF same] out r2 Wait_any show ?thesis by simp
      qed
    qed
  qed
qed

end

section \<open>Properties\<close>






end
