(* ===== verification/Kill_Race.thy ===== *)
theory Kill_Race
  imports Process
begin

text \<open>
  One process object, two threads: the task of the process monitor is in \<open>process::wait\<close> while the
  manager kills the others with \<open>kill_process\<close>.  Nothing guards \<open>terminated_\<close>.  The steps are the
  accesses of the two functions to the object and their system calls; a \<open>waitpid\<close> is one step, at the
  moment it returns.
\<close>

section \<open>Steps\<close>

datatype task_at = Task_checks | Task_calls | Task_stores | Task_over "unit outcome"

datatype main_at = Main_checks | Main_calls | Main_over "unit outcome"

record race =
  race_process :: process
  race_log :: "syscall list"
  race_task :: task_at
  race_main :: main_at

definition race_start :: "process \<Rightarrow> syscall list \<Rightarrow> race" where
  "race_start p t = \<lparr>race_process = p, race_log = t, race_task = Task_checks, race_main = Main_checks\<rparr>"

text \<open>\<open>process::wait\<close>.\<close>

inductive task_moves :: "platform \<Rightarrow> race \<Rightarrow> race \<Rightarrow> bool" for P where
  task_alive: "race_task s = Task_checks \<Longrightarrow> started (race_process s) \<Longrightarrow> \<not> terminated (race_process s) \<Longrightarrow>
    task_moves P s (s\<lparr>race_task := Task_calls\<rparr>)"
| task_aborts: "race_task s = Task_checks \<Longrightarrow> \<not> started (race_process s) \<or> terminated (race_process s) \<Longrightarrow>
    task_moves P s (s\<lparr>race_task := Task_over (Inl Assert_failed)\<rparr>)"
| task_waits: "race_task s = Task_calls \<Longrightarrow> c = Sys_waitpid (proc_pid (race_process s)) \<Longrightarrow>
    r = answer P (race_log s) c \<Longrightarrow> rc r \<noteq> -1 \<Longrightarrow>
    task_moves P s (s\<lparr>race_log := race_log s @ [c],
      race_process := (race_process s)\<lparr>proc_status := out_status r\<rparr>, race_task := Task_stores\<rparr>)"
| task_throws: "race_task s = Task_calls \<Longrightarrow> c = Sys_waitpid (proc_pid (race_process s)) \<Longrightarrow>
    r = answer P (race_log s) c \<Longrightarrow> rc r = -1 \<Longrightarrow>
    task_moves P s (s\<lparr>race_log := race_log s @ [c],
      race_task := Task_over (Inl (Raise (System_error (err r) ''Error waiting for process'')))\<rparr>)"
| task_stores: "race_task s = Task_stores \<Longrightarrow> p = race_process s \<Longrightarrow>
    task_moves P s (s\<lparr>race_process := (if wifexited P (proc_status p) \<or> wifsignaled P (proc_status p)
      then p\<lparr>proc_terminated := True\<rparr> else p), race_task := Task_over (Inr ())\<rparr>)"

text \<open>\<open>kill_process\<close> for the process alone.\<close>

inductive main_moves :: "platform \<Rightarrow> race \<Rightarrow> race \<Rightarrow> bool" for P where
  main_alive: "race_main s = Main_checks \<Longrightarrow> started (race_process s) \<Longrightarrow> \<not> terminated (race_process s) \<Longrightarrow>
    main_moves P s (s\<lparr>race_main := Main_calls\<rparr>)"
| main_skips: "race_main s = Main_checks \<Longrightarrow> started (race_process s) \<Longrightarrow> terminated (race_process s) \<Longrightarrow>
    main_moves P s (s\<lparr>race_main := Main_over (Inr ())\<rparr>)"
| main_aborts: "race_main s = Main_checks \<Longrightarrow> \<not> started (race_process s) \<Longrightarrow>
    main_moves P s (s\<lparr>race_main := Main_over (Inl Assert_failed)\<rparr>)"
| main_kills: "race_main s = Main_calls \<Longrightarrow> c = Sys_kill (proc_pid (race_process s)) (sigkill P) \<Longrightarrow>
    r = answer P (race_log s) c \<Longrightarrow>
    main_moves P s (s\<lparr>race_log := race_log s @ [c],
      race_main := Main_over (if rc r = -1 then Inl (Raise (System_error (err r) ''Error killing a process'')) else Inr ())\<rparr>)"

definition race_step :: "platform \<Rightarrow> race \<Rightarrow> race \<Rightarrow> bool" where
  "race_step P s s' \<longleftrightarrow> task_moves P s s' \<or> main_moves P s s'"

inductive_cases task_movesE: "task_moves P s s'"
inductive_cases main_movesE: "main_moves P s s'"

section \<open>Each thread alone is the code\<close>

definition task_over :: "race \<Rightarrow> bool" where
  "task_over s \<longleftrightarrow> (case race_task s of Task_over _ \<Rightarrow> True | _ \<Rightarrow> False)"

definition main_over :: "race \<Rightarrow> bool" where
  "main_over s \<longleftrightarrow> (case race_main s of Main_over _ \<Rightarrow> True | _ \<Rightarrow> False)"

text \<open>The next step of a thread, which is deterministic.\<close>

definition task_next :: "platform \<Rightarrow> race \<Rightarrow> race" where
  "task_next P s = (let p = race_process s; c = Sys_waitpid (proc_pid p); r = answer P (race_log s) c
     in case race_task s of
       Task_checks \<Rightarrow> s\<lparr>race_task := (if started p \<and> \<not> terminated p then Task_calls else Task_over (Inl Assert_failed))\<rparr>
     | Task_calls \<Rightarrow>
         (if rc r = -1
          then s\<lparr>race_log := race_log s @ [c],
            race_task := Task_over (Inl (Raise (System_error (err r) ''Error waiting for process'')))\<rparr>
          else s\<lparr>race_log := race_log s @ [c], race_process := p\<lparr>proc_status := out_status r\<rparr>, race_task := Task_stores\<rparr>)
     | Task_stores \<Rightarrow> s\<lparr>race_process := (if wifexited P (proc_status p) \<or> wifsignaled P (proc_status p)
         then p\<lparr>proc_terminated := True\<rparr> else p), race_task := Task_over (Inr ())\<rparr>
     | Task_over _ \<Rightarrow> s)"

definition main_next :: "platform \<Rightarrow> race \<Rightarrow> race" where
  "main_next P s = (let p = race_process s; c = Sys_kill (proc_pid p) (sigkill P); r = answer P (race_log s) c
     in case race_main s of
       Main_checks \<Rightarrow> s\<lparr>race_main := (if \<not> started p then Main_over (Inl Assert_failed)
         else if terminated p then Main_over (Inr ()) else Main_calls)\<rparr>
     | Main_calls \<Rightarrow> s\<lparr>race_log := race_log s @ [c], race_main := Main_over
         (if rc r = -1 then Inl (Raise (System_error (err r) ''Error killing a process'')) else Inr ())\<rparr>
     | Main_over _ \<Rightarrow> s)"

lemma moves_iff:
  "task_moves P s s' \<longleftrightarrow> \<not> task_over s \<and> s' = task_next P s"
  "main_moves P s s' \<longleftrightarrow> \<not> main_over s \<and> s' = main_next P s"
  by (auto simp: task_moves.simps task_over_def task_next_def Let_def split: task_at.splits)
    (auto simp: main_moves.simps main_over_def main_next_def Let_def split: main_at.splits)

definition runs_to :: "('s \<Rightarrow> 's \<Rightarrow> bool) \<Rightarrow> ('s \<Rightarrow> bool) \<Rightarrow> 's \<Rightarrow> 's \<Rightarrow> bool" where
  "runs_to step over s s' \<longleftrightarrow> step\<^sup>*\<^sup>* s s' \<and> over s'"

lemma runs_to_next:
  assumes step: "\<And>s s'. step s s' \<longleftrightarrow> \<not> over s \<and> s' = f s"
  shows "runs_to step over s s' \<longleftrightarrow> (if over s then s' = s else runs_to step over (f s) s')"
proof (cases "over s")
  case True
  then show ?thesis unfolding runs_to_def by (auto simp: step elim: converse_rtranclpE)
next
  case False
  then have "step s (f s)" by (simp add: step)
  have "step\<^sup>*\<^sup>* s s' \<and> over s' \<longleftrightarrow> step\<^sup>*\<^sup>* (f s) s' \<and> over s'"
  proof
    assume "step\<^sup>*\<^sup>* s s' \<and> over s'"
    with False show "step\<^sup>*\<^sup>* (f s) s' \<and> over s'" by (auto simp: step elim: converse_rtranclpE)
  next
    assume "step\<^sup>*\<^sup>* (f s) s' \<and> over s'"
    with \<open>step s (f s)\<close> show "step\<^sup>*\<^sup>* s s' \<and> over s'" by (auto intro: converse_rtranclp_into_rtranclp)
  qed
  with False show ?thesis by (simp add: runs_to_def)
qed

text \<open>
  C15. The steps are the code.  If the task alone makes its steps until it is over, the object, the system
  calls and the outcome are those of \<open>process::wait\<close>, errors and failed assertions included; the manager
  alone computes \<open>kill_process\<close>.
\<close>

theorem race_steps_are_the_code:
  "(runs_to (task_moves P) task_over (race_start p t) s \<longleftrightarrow>
     (case process_wait P (p, t) of (r, (p', t')) \<Rightarrow>
        s = \<lparr>race_process = p', race_log = t', race_task = Task_over r, race_main = Main_checks\<rparr>)) \<and>
   (runs_to (main_moves P) main_over (race_start p t) s \<longleftrightarrow>
     (case kill_process P started terminated get_pid PROC (p, t) of (r, (p', t')) \<Rightarrow>
        s = \<lparr>race_process = p', race_log = t', race_task = Task_checks, race_main = Main_over r\<rparr>))"
proof -
  note task = runs_to_next [where step = "task_moves P" and over = task_over, OF moves_iff(1)]
  note main = runs_to_next [where step = "main_moves P" and over = main_over, OF moves_iff(2)]
  show ?thesis
    by (auto simp: race_start_def task main task_over_def main_over_def task_next_def main_next_def Let_def
        process_wait_def kill_process_def get_pid_def util_kill_def act_simps)
qed

section \<open>Both threads\<close>

text \<open>
  The invariant, for a process with \<open>pid\<close> that runs in the beginning: each thread makes its call at
  most once, and not before it has come to it.
\<close>

definition race_init :: "int \<Rightarrow> race \<Rightarrow> bool" where
  "race_init pid s \<longleftrightarrow> s = race_start (race_process s) [] \<and> started (race_process s) \<and>
     \<not> terminated (race_process s) \<and> proc_pid (race_process s) = pid"

definition race_ok :: "platform \<Rightarrow> int \<Rightarrow> race \<Rightarrow> bool" where
  "race_ok P pid s \<longleftrightarrow> started (race_process s) \<and> proc_pid (race_process s) = pid \<and>
     (let w = Sys_waitpid pid; k = Sys_kill pid (sigkill P)
      in set (race_log s) \<subseteq> {w, k} \<and> distinct (race_log s) \<and>
        (race_task s \<in> {Task_checks, Task_calls} \<longrightarrow> w \<notin> set (race_log s)) \<and>
        (race_main s \<in> {Main_checks, Main_calls} \<longrightarrow> k \<notin> set (race_log s)) \<and>
        (race_task s \<noteq> Task_over (Inr ()) \<longrightarrow> \<not> terminated (race_process s)) \<and>
        race_task s \<noteq> Task_over (Inl Assert_failed) \<and> race_main s \<noteq> Main_over (Inl Assert_failed))"

interpretation race: invariant "race_init pid" "race_step P" "race_ok P pid" for P pid
proof unfold_locales
  fix s
  assume "race_init pid s"
  then have "race_log s = []" "race_task s = Task_checks" "race_main s = Main_checks"
    unfolding race_init_def race_start_def by (metis race.select_convs)+
  with \<open>race_init pid s\<close> show "race_ok P pid s" by (simp add: race_init_def race_ok_def)
next
  fix s s'
  assume "race_ok P pid s" and "race_step P s s'"
  then consider "task_moves P s s'" | "main_moves P s s'" unfolding race_step_def by blast
  then show "race_ok P pid s'"
  proof cases
    case 1
    then show ?thesis
      by (cases rule: task_moves.cases)
        (use \<open>race_ok P pid s\<close> in \<open>simp_all add: race_ok_def Let_def started_def terminated_def\<close>)
  next
    case 2
    then show ?thesis
      by (cases rule: main_moves.cases)
        (use \<open>race_ok P pid s\<close> in \<open>simp_all add: race_ok_def Let_def started_def terminated_def\<close>)
  qed
qed

lemma reach_next:
  assumes "reachable init (race_step P) s"
  shows "\<not> task_over s \<Longrightarrow> reachable init (race_step P) (task_next P s)"
    and "\<not> main_over s \<Longrightarrow> reachable init (race_step P) (main_next P s)"
  using assms by (auto intro: reach_step simp: race_step_def moves_iff)

lemma two_element_lists:
  assumes "set xs \<subseteq> {w, k}" and "distinct xs"
  shows "xs \<in> {[], [w], [k], [w, k], [k, w]}"
proof (cases xs)
  case Nil
  then show ?thesis by simp
next
  case (Cons x ys)
  show ?thesis
  proof (cases ys)
    case Nil
    with Cons assms show ?thesis by auto
  next
    case ys: (Cons y zs)
    with Cons assms have "x \<noteq> y" "x \<in> {w, k}" "y \<in> {w, k}" by auto
    moreover from this Cons ys assms have "zs = []" by (cases zs) auto
    ultimately show ?thesis using Cons ys by auto
  qed
qed

text \<open>Once \<open>terminated_\<close> is set, \<open>kill_process\<close> that has not looked yet does nothing.\<close>

lemma looks_late:
  assumes "(race_step P)\<^sup>*\<^sup>* s s'" and "started (race_process s)" and "terminated (race_process s)"
    and "race_task s = Task_over (Inr ())" and "race_main s = Main_checks"
  shows "race_log s' = race_log s"
proof -
  have "race_log s' = race_log s \<and> race_process s' = race_process s \<and> race_task s' = Task_over (Inr ()) \<and>
      race_main s' \<in> {Main_checks, Main_over (Inr ())}"
    using assms(1)
  proof (induction rule: rtranclp_induct)
    case base
    with assms show ?case by simp
  next
    case (step s1 s2)
    with assms(2,3) show ?case
      by (auto simp: race_step_def moves_iff task_over_def main_over_def main_next_def Let_def)
  qed
  then show ?thesis by simp
qed

text \<open>What a call does to the log.\<close>

lemma task_next_log:
  "race_task s = Task_calls \<Longrightarrow> race_log (task_next P s) = race_log s @ [Sys_waitpid (proc_pid (race_process s))]"
  "race_main (task_next P s) = race_main s" "proc_pid (race_process (task_next P s)) = proc_pid (race_process s)"
  by (auto simp: task_next_def Let_def split: task_at.splits)

lemma main_next_log:
  "race_main s = Main_calls \<Longrightarrow> race_log (main_next P s) = race_log s @ [Sys_kill (proc_pid (race_process s)) (sigkill P)]"
  "race_task (main_next P s) = race_task s" "race_process (main_next P s) = race_process s"
  by (auto simp: main_next_def Let_def split: main_at.splits)

text \<open>
  C14. The window between \<open>waitpid\<close> and \<open>terminated_ = true\<close>.  Let the task of a running process be in \<open>wait\<close>
  while the manager is in \<open>kill_process\<close> for the same object.  Each of the two system calls is made at most
  once, no assertion fails, and nothing else can be said: every order and every omission happens, so also
  a \<open>kill\<close> for a process that has just been reaped, whose pid may by then belong to somebody else.
  If \<open>terminated_\<close> has been set before \<open>kill_process\<close> looks, there is no kill any more.
\<close>

theorem kill_race_logs:
  fixes P :: platform and p :: process
  defines "w \<equiv> Sys_waitpid (proc_pid p)" and "k \<equiv> Sys_kill (proc_pid p) (sigkill P)"
  assumes "started p" and "\<not> terminated p"
  shows "race_log ` {s. reachable (\<lambda>s. s = race_start p []) (race_step P) s} = {[], [w], [k], [w, k], [k, w]} \<and>
    (kills_only_living P [w, k] \<longleftrightarrow> \<not> reaps P [] w) \<and> kills_only_living P [k, w] \<and>
    (\<forall>s. reachable (\<lambda>s. s = race_start p []) (race_step P) s \<longrightarrow>
       race_task s \<noteq> Task_over (Inl Assert_failed) \<and> race_main s \<noteq> Main_over (Inl Assert_failed)) \<and>
    (\<forall>s s'. reachable (\<lambda>s. s = race_start p []) (race_step P) s \<longrightarrow>
       terminated (race_process s) \<and> race_main s = Main_checks \<and> (race_step P)\<^sup>*\<^sup>* s s' \<longrightarrow> race_log s' = race_log s)"
proof -
  let ?reach = "reachable (\<lambda>s. s = race_start p []) (race_step P)"
  have ok: "race_ok P (proc_pid p) s" if "?reach s" for s
  proof -
    have "reachable (race_init (proc_pid p)) (race_step P) s"
      using that by (induction rule: reachable.induct)
        (auto simp: race_init_def race_start_def assms intro: reach_init reach_step)
    from race.reachable_inv [OF this] show ?thesis .
  qed
  then have "race_log s \<in> {[], [w], [k], [w, k], [k, w]}" if "?reach s" for s
    using that by (intro two_element_lists) (simp_all add: race_ok_def Let_def w_def k_def)
  moreover have "race_log s' = race_log s"
    if "?reach s" "terminated (race_process s)" "race_main s = Main_checks" "(race_step P)\<^sup>*\<^sup>* s s'" for s s'
  proof -
    from ok [OF that(1)] that(2) have "started (race_process s)" "race_task s = Task_over (Inr ())"
      unfolding race_ok_def Let_def by blast+
    with that show ?thesis by (intro looks_late)
  qed
  moreover have "xs \<in> race_log ` {s. ?reach s}" if "xs \<in> {[], [w], [k], [w, k], [k, w]}" for xs
  proof -
    let ?s0 = "race_start p []"
    let ?s2 = "\<lparr>race_process = p, race_log = [], race_task = Task_calls, race_main = Main_calls\<rparr>"
    let ?m = "main_next P" and ?t = "task_next P"
    have 0: "?reach ?s0" by (rule reach_init) simp
    have 1: "?reach (?m ?s0)" by (rule reach_next(2) [OF 0]) (simp add: race_start_def main_over_def)
    have "?reach (?t (?m ?s0))"
      by (rule reach_next(1) [OF 1]) (simp add: task_over_def main_next_log race_start_def)
    moreover have "?t (?m ?s0) = ?s2"
      by (simp add: race_start_def main_next_def task_next_def Let_def assms)
    ultimately have 2: "?reach ?s2" by simp
    have 3: "?reach (?t ?s2)" by (rule reach_next(1) [OF 2]) (simp add: task_over_def)
    have 4: "?reach (?m (?t ?s2))" by (rule reach_next(2) [OF 3]) (simp add: main_over_def task_next_log)
    have 5: "?reach (?m ?s2)" by (rule reach_next(2) [OF 2]) (simp add: main_over_def)
    have 6: "?reach (?t (?m ?s2))" by (rule reach_next(1) [OF 5]) (simp add: task_over_def main_next_log)
    have img: "race_log s \<in> race_log ` {s. ?reach s}" if "?reach s" for s using that by blast
    have "race_log ?s0 = []" "race_log (?t ?s2) = [w]" "race_log (?m (?t ?s2)) = [w, k]"
      "race_log (?m ?s2) = [k]" "race_log (?t (?m ?s2)) = [k, w]"
      by (simp_all add: task_next_log main_next_log w_def k_def) (simp add: race_start_def)
    with img [OF 0] img [OF 3] img [OF 4] img [OF 5] img [OF 6] that show ?thesis
      by (elim insertE emptyE) simp_all
  qed
  moreover have "kills_only_living P ([] @ [w] @ [k]) \<longleftrightarrow> \<not> reaps P [] w"
    by (simp add: w_def k_def kills_only_living_def reaped_def All_less_Suc is_kill_def)
  moreover have "kills_only_living P ([] @ [k] @ [w])"
    by (simp add: w_def k_def kills_only_living_def reaped_def All_less_Suc is_kill_def)
  moreover have "race_task s \<noteq> Task_over (Inl Assert_failed) \<and> race_main s \<noteq> Main_over (Inl Assert_failed)"
    if "?reach s" for s using ok [OF that] unfolding race_ok_def Let_def by blast
  ultimately show ?thesis unfolding append_Nil append_Cons by blast
qed

definition racing :: process where
  "racing = \<lparr>proc_args = [''/bin/true''], proc_pid = 7, proc_status = 0, proc_terminated = False\<rparr>"

theorem kill_race_logs_witness:
  "\<exists>s. reachable (\<lambda>s. s = race_start racing []) (race_step good_platform) s \<and>
     race_log s = [Sys_waitpid 7, Sys_kill 7 9] \<and> \<not> kills_only_living good_platform (race_log s)"
proof -
  have p: "started racing" "\<not> terminated racing" by (simp_all add: racing_def started_def terminated_def)
  have "reaps good_platform [] (Sys_waitpid (proc_pid racing))"
    by (simp add: racing_def) (simp add: good_platform_def)
  moreover have "sigkill good_platform = 9" by (simp add: good_platform_def)
  ultimately have late: "\<not> kills_only_living good_platform [Sys_waitpid 7, Sys_kill 7 9]"
    and logs: "[Sys_waitpid 7, Sys_kill 7 9] \<in>
      race_log ` {s. reachable (\<lambda>s. s = race_start racing []) (race_step good_platform) s}"
    using kill_race_logs [OF p, of good_platform] by (simp_all add: racing_def)
  from logs obtain s where "reachable (\<lambda>s. s = race_start racing []) (race_step good_platform) s"
    "race_log s = [Sys_waitpid 7, Sys_kill 7 9]" by (metis (no_types, lifting) imageE mem_Collect_eq)
  with late show ?thesis by auto
qed

end
