(* ===== verification/Double.thy ===== *)
theory Double
  imports "HOL-Library.Word" "HOL-Library.Log_Nat"
begin

text \<open>
  The part of IEEE 754 double precision the program computes with: conversion of a 64-bit
  counter and division, both rounded to nearest, ties to even.  All operands are non-negative and
  quotients lie between \<open>2^-64\<close> and \<open>2^128\<close>, so neither overflow nor subnormal numbers
  occur; a division by zero gives an infinity or a NaN.
\<close>

datatype double = Fin rat | Inf | NaN

text \<open>The binary exponent of a positive rational.\<close>

definition ilog2 :: "rat \<Rightarrow> int" where
  "ilog2 r = (let (p, q) = quotient_of r; k = bitlen p - bitlen q
     in if 2 powi k \<le> r then k else k - 1)"

definition round_half_even :: "rat \<Rightarrow> int" where
  "round_half_even r = (let f = \<lfloor>r\<rfloor>; d = r - of_int f
     in if d < 1 / 2 then f else if 1 / 2 < d then f + 1 else if even f then f else f + 1)"

definition round53 :: "rat \<Rightarrow> rat" where
  "round53 r = (if r = 0 then 0
     else let e = ilog2 r - 52 in of_int (round_half_even (r / 2 powi e)) * 2 powi e)"

definition double_of_u64 :: "64 word \<Rightarrow> double" where
  "double_of_u64 w = Fin (round53 (of_int (uint w)))"

fun double_div :: "double \<Rightarrow> double \<Rightarrow> double" where
  "double_div (Fin a) (Fin b) =
     (if b \<noteq> 0 then Fin (round53 (a / b)) else if a = 0 then NaN else Inf)"
| "double_div (Fin a) Inf = Fin 0"
| "double_div Inf (Fin b) = Inf"
| "double_div _ _ = NaN"

section \<open>Rounding\<close>

lemma ilog2_bounds:
  assumes "0 < r"
  shows "2 powi ilog2 r \<le> r \<and> r < 2 powi (ilog2 r + 1)"
proof -
  obtain p q where pq: "quotient_of r = (p, q)" by (cases "quotient_of r")
  have q: "0 < q" using quotient_of_denom_pos [OF pq] .
  have r: "r = of_int p / of_int q" using quotient_of_div [OF pq] .
  have p: "0 < p" using assms q r by (simp add: zero_less_divide_iff)
  have pow: "of_int (2 ^ nat (bitlen m)) = (2 :: rat) powi bitlen m"
      "of_int (2 ^ nat (bitlen m - 1)) = (2 :: rat) powi (bitlen m - 1)" if "0 < m" for m :: int
    using that bitlen_nonneg [of m] bitlen_eq_zero_iff [of m]
    by (auto simp: power_int_def)
  have bounds: "(2 :: rat) powi (bitlen m - 1) \<le> of_int m \<and> of_int m < (2 :: rat) powi bitlen m"
    if "0 < m" for m :: int
    using bitlen_bounds [OF that] pow [OF that] by (metis of_int_le_iff of_int_less_iff)
  let ?k = "bitlen p - bitlen q"
  have "2 powi (?k - 1) < r"
  proof -
    have "(2 :: rat) powi (?k - 1) * of_int q < 2 powi (?k - 1) * 2 powi bitlen q"
      using bounds [OF q] by (intro mult_strict_left_mono) simp_all
    also have "\<dots> = 2 powi (bitlen p - 1)" by (simp flip: power_int_add)
    also have "\<dots> \<le> of_int p" using bounds [OF p] by simp
    finally show ?thesis using q by (simp add: r pos_less_divide_eq)
  qed
  moreover have "r < 2 powi (?k + 1)"
  proof -
    have "of_int p < (2 :: rat) powi bitlen p" using bounds [OF p] by simp
    also have "\<dots> = 2 powi (?k + 1) * 2 powi (bitlen q - 1)" by (simp flip: power_int_add)
    also have "\<dots> \<le> 2 powi (?k + 1) * of_int q"
      using bounds [OF q] by (intro mult_left_mono) simp_all
    finally show ?thesis using q by (simp add: r pos_divide_less_eq)
  qed
  ultimately show ?thesis by (auto simp: ilog2_def pq Let_def)
qed

lemma round_half_even_int [simp]: "round_half_even (of_int n) = n"
  by (simp add: round_half_even_def)

lemma round_half_even_error: "\<bar>of_int (round_half_even x) - x\<bar> \<le> 1 / 2"
  using floor_correct [of x] unfolding round_half_even_def Let_def
  by (simp only: abs_le_iff split: if_split) linarith

lemma round_half_even_mono_int: "of_int m \<le> x \<Longrightarrow> m \<le> round_half_even x"
  "x \<le> of_int m \<Longrightarrow> round_half_even x \<le> m"
  using round_half_even_error [of x] by linarith+

text \<open>The result is off by at most one part in \<open>2^53\<close>.\<close>

lemma round53_error:
  assumes "0 \<le> r"
  shows "\<bar>round53 r - r\<bar> \<le> r / 2 ^ 53"
proof (cases "r = 0")
  case True
  then show ?thesis by (simp add: round53_def)
next
  case False
  with assms have r: "0 < r" by simp
  let ?e = "ilog2 r - 52" and ?u = "2 powi (ilog2 r - 52) :: rat"
  have u: "0 < ?u" by simp
  have "round53 r - r = (of_int (round_half_even (r / ?u)) - r / ?u) * ?u"
    using r u by (simp add: round53_def Let_def field_simps)
  then have "\<bar>round53 r - r\<bar> = \<bar>of_int (round_half_even (r / ?u)) - r / ?u\<bar> * ?u"
    by (simp add: abs_mult)
  also have "\<dots> \<le> 1 / 2 * ?u" using round_half_even_error u by (intro mult_right_mono) simp_all
  also have "?u = 2 powi ilog2 r / 2 ^ 52" by (simp add: power_int_diff)
  also have "1 / 2 * (2 powi ilog2 r / 2 ^ 52) \<le> r / 2 ^ 53"
    using ilog2_bounds [OF r] by (simp add: field_simps)
  finally show ?thesis .
qed

lemma ilog2_less: "0 < r \<Longrightarrow> r < 2 ^ n \<Longrightarrow> ilog2 r < int n"
  using ilog2_bounds [of r]
  by (intro power_int_le_imp_less_exp [of "2 :: rat"]) auto

lemma scaled_bounds:
  assumes "0 < r"
  shows "2 ^ 52 \<le> r / 2 powi (ilog2 r - 52)" "r / 2 powi (ilog2 r - 52) < 2 ^ 53"
proof -
  have split: "(2 :: rat) powi (ilog2 r - 52) * 2 ^ 52 = 2 powi ilog2 r"
      "(2 :: rat) powi (ilog2 r - 52) * 2 ^ 53 = 2 powi (ilog2 r + 1)"
    by (simp_all add: power_int_diff power_int_add)
  show "2 ^ 52 \<le> r / 2 powi (ilog2 r - 52)"
    using ilog2_bounds [OF assms] split by (simp add: pos_le_divide_eq mult.commute)
  show "r / 2 powi (ilog2 r - 52) < 2 ^ 53"
    using ilog2_bounds [OF assms] split by (simp add: pos_divide_less_eq mult.commute)
qed

lemma round53_pos: "0 < r \<Longrightarrow> 0 < round53 r"
proof -
  assume r: "0 < r"
  have "2 ^ 52 \<le> round_half_even (r / 2 powi (ilog2 r - 52))"
    using scaled_bounds(1) [OF r] by (intro round_half_even_mono_int) simp
  then have "(0 :: rat) < of_int (round_half_even (r / 2 powi (ilog2 r - 52)))" by simp
  then show ?thesis using r by (simp add: round53_def Let_def)
qed

lemma round53_nonneg: "0 \<le> r \<Longrightarrow> 0 \<le> round53 r"
  using round53_pos [of r] by (cases "r = 0") (auto simp: round53_def)

text \<open>Integers below \<open>2^53\<close> are represented exactly.\<close>

lemma round53_exact:
  assumes "0 \<le> n" and "n < 2 ^ 53"
  shows "round53 (of_int n) = of_int n"
proof (cases "n = 0")
  case True
  then show ?thesis by (simp add: round53_def)
next
  case False
  with assms have n: "(0 :: rat) < of_int n" by simp
  have "(of_int n :: rat) < 2 ^ 53" using assms(2) by (metis of_int_less_iff of_int_numeral of_int_power)
  from ilog2_less [OF n this] have e: "ilog2 (of_int n) \<le> 52" by simp
  define k where "k = nat (52 - ilog2 (of_int n))"
  have "ilog2 (of_int n) - 52 = - int k" using e by (simp add: k_def)
  then have "(2 :: rat) powi (ilog2 (of_int n) - 52) = 1 / 2 ^ k" by (simp add: power_int_minus_divide)
  moreover have "round_half_even (of_int n * 2 ^ k) = n * 2 ^ k"
    using round_half_even_int [of "n * 2 ^ k"] by simp
  ultimately show ?thesis using False by (simp add: round53_def Let_def)
qed

lemma round53_le_one: "0 < r \<Longrightarrow> r \<le> 1 \<Longrightarrow> round53 r \<le> 1"
proof (cases "r = 1")
  case True
  then show ?thesis using round53_exact [of 1] by simp
next
  case False
  assume r: "0 < r" "r \<le> 1"
  with False have "ilog2 r < int 0" by (intro ilog2_less) simp_all
  then have one: "(2 :: rat) powi (ilog2 r + 1) \<le> 2 powi 0" by (intro power_int_increasing) simp_all
  let ?u = "(2 :: rat) powi (ilog2 r - 52)" and ?m = "round_half_even (r / 2 powi (ilog2 r - 52))"
  have "?m \<le> 2 ^ 53" using scaled_bounds(2) [OF r(1)] by (intro round_half_even_mono_int) simp
  then have "(of_int ?m :: rat) \<le> 2 ^ 53" by (metis of_int_le_iff of_int_numeral of_int_power)
  then have "of_int ?m * ?u \<le> 2 ^ 53 * ?u" by (intro mult_right_mono) simp_all
  also have "2 ^ 53 * ?u = 2 powi (ilog2 r + 1)" by (simp add: power_int_diff power_int_add)
  also note one
  finally have "of_int ?m * ?u \<le> 1" by simp
  then show ?thesis using r by (simp only: round53_def Let_def) simp
qed

text \<open>A quotient by a rounded quotient.\<close>

lemma round53_scaled:
  assumes a: "0 < a" and b: "0 < b" and v: "0 \<le> v"
  shows "\<bar>round53 (v / round53 (a / b)) - v * b / a\<bar> \<le> v * b / a / 2 ^ 51"
proof -
  define r where "r = a / b"
  define s where "s = round53 r"
  define x where "x = v * b / a"
  define y where "y = v / s"
  have r: "0 < r" using a b by (simp add: r_def)
  have s: "0 < s" using round53_pos [OF r] by (simp add: s_def)
  have x: "0 \<le> x" using a b v by (simp add: x_def)
  have y: "0 \<le> y" using s v by (simp add: y_def)
  have sr: "\<bar>s - r\<bar> \<le> r / 2 ^ 53" using round53_error [of r] r by (simp add: s_def)
  then have "r - s \<le> r / 2 ^ 53" by (simp only: abs_le_iff) linarith
  then have half: "r / 2 \<le> s" using r by simp
  have "(y - x) * s = x * (r - s)"
    using s a b by (simp add: y_def x_def r_def field_simps)
  then have "\<bar>y - x\<bar> * s = x * \<bar>r - s\<bar>" using s x by (metis abs_mult abs_of_nonneg abs_of_pos)
  also have "\<dots> \<le> x * (r / 2 ^ 53)" using x sr by (intro mult_left_mono) (simp_all add: abs_minus_commute)
  also have "\<dots> = x / 2 ^ 52 * (r / 2)" by simp
  also have "\<dots> \<le> x / 2 ^ 52 * s" using half x by (intro mult_left_mono) simp_all
  finally have yx: "\<bar>y - x\<bar> \<le> x / 2 ^ 52" using s by simp
  have "\<bar>round53 y - y\<bar> \<le> y / 2 ^ 53" by (rule round53_error [OF y])
  also have "y \<le> x + x / 2 ^ 52" using abs_le_D1 [OF yx] by linarith
  then have "y / 2 ^ 53 \<le> (x + x / 2 ^ 52) / 2 ^ 53" by (intro divide_right_mono) simp_all
  also have "\<dots> \<le> x / 2 ^ 52" using x by simp
  finally have "\<bar>round53 y - x\<bar> \<le> x / 2 ^ 52 + x / 2 ^ 52"
    using yx by linarith
  then show ?thesis by (simp add: y_def s_def r_def x_def mult.commute)
qed

end
