(* ===== verification/Perf_Event.thy ===== *)
theory Perf_Event
  imports Platform Double
begin

text \<open>
  \<open>perf/event\<close>: one performance counter of a process, generic in the class \<open>Impl\<close> that talks to
  the kernel.  Counters are 64-bit words and wrap around; samples are doubles.
\<close>

section \<open>Types\<close>

datatype perf_event_type = HARDWARE | RAW | Other_event_type int

definition EXCLUDE_NONE :: "8 word" where "EXCLUDE_NONE = 0"
definition EXCLUDE_USER :: "8 word" where "EXCLUDE_USER = 1"
definition EXCLUDE_KERNEL :: "8 word" where "EXCLUDE_KERNEL = 2"
definition EXCLUDE_HV :: "8 word" where "EXCLUDE_HV = 4"

record event_info =
  info_type :: perf_event_type
  info_code :: u64
  info_modifiers :: "8 word"

datatype event_read_mode = RELATIVE | AGGREGATED

record event_sample =
  sample_value :: double
  sample_scaling :: double
  sample_enabled :: bool

record count_type =
  raw_value :: u64
  time_enabled :: u64
  time_running :: u64

definition zero_count :: count_type where
  "zero_count = \<lparr>raw_value = 0, time_enabled = 0, time_running = 0\<rparr>"

text \<open>What \<open>event\<close> uses of its \<open>Impl\<close>.\<close>

record 'i event_impl =
  impl_open :: "event_info \<Rightarrow> int \<Rightarrow> bool \<Rightarrow> ('i, unit) sys"
  impl_read :: "('i, count_type) sys"
  impl_delete :: "('i, unit) sys"

record 'i event =
  ev_info :: event_info
  ev_impl :: 'i
  ev_count :: count_type
  ev_prev :: count_type

definition put_ev_impl :: "'i \<Rightarrow> 'i event \<Rightarrow> 'i event" where
  "put_ev_impl v e = e\<lparr>ev_impl := v\<rparr>"

section \<open>Operations\<close>

unbundle bit_operations_syntax

definition valid_modifiers :: "8 word \<Rightarrow> bool" where
  "valid_modifiers modifiers \<longleftrightarrow> modifiers \<le> (EXCLUDE_USER OR EXCLUDE_KERNEL OR EXCLUDE_HV)"

text \<open>\<open>count_\<close> has no initialiser; \<open>junk\<close> is what happens to be there.\<close>

definition event_new :: "count_type \<Rightarrow> event_info \<Rightarrow> 'i \<Rightarrow> ('s, 'i event) sys" where
  "event_new junk info i =
     act_bind (assert_that (\<lambda>_. valid_modifiers (info_modifiers info))) (\<lambda>_.
       ret \<lparr>ev_info = info, ev_impl = i, ev_count = junk, ev_prev = zero_count\<rparr>)"

definition event_open :: "'i event_impl \<Rightarrow> int \<Rightarrow> bool \<Rightarrow> ('i event, unit) sys" where
  "event_open I pid attach =
     act_bind (reading ev_info) (\<lambda>info. zoom ev_impl put_ev_impl (impl_open I info pid attach))"

definition event_read :: "'i event_impl \<Rightarrow> ('i event, unit) sys" where
  "event_read I =
     act_bind (zoom ev_impl put_ev_impl (impl_read I)) (\<lambda>c. modify (\<lambda>e. e\<lparr>ev_count := c\<rparr>))"

definition minus_count :: "count_type \<Rightarrow> count_type \<Rightarrow> count_type" where
  "minus_count c p = \<lparr>raw_value = raw_value c - raw_value p,
     time_enabled = time_enabled c - time_enabled p, time_running = time_running c - time_running p\<rparr>"

definition sample_of :: "count_type \<Rightarrow> event_sample" where
  "sample_of c =
     (if time_running c = 0
      then \<lparr>sample_value = Fin 0, sample_scaling = Fin 0, sample_enabled = (time_enabled c > 0)\<rparr>
      else let scaling = double_div (double_of_u64 (time_running c)) (double_of_u64 (time_enabled c))
           in \<lparr>sample_value = double_div (double_of_u64 (raw_value c)) scaling,
               sample_scaling = scaling, sample_enabled = True\<rparr>)"

definition event_scale :: "event_read_mode \<Rightarrow> ('i event, event_sample) sys" where
  "event_scale mode =
     act_bind (reading ev_count) (\<lambda>c.
     act_bind (reading ev_prev) (\<lambda>p.
       if time_running c > time_enabled c
       then raise (Runtime_error ''Event ran for longer than it was enabled'')
       else if time_running c = 0 \<and> raw_value c \<noteq> raw_value p
       then raise (Runtime_error ''Unexpected event value'')
       else case mode of
           RELATIVE \<Rightarrow>
             act_bind (modify (\<lambda>e. e\<lparr>ev_prev := ev_count e\<rparr>)) (\<lambda>_. ret (sample_of (minus_count c p)))
         | AGGREGATED \<Rightarrow> ret (sample_of c)))"

definition event_delete :: "'i event_impl \<Rightarrow> ('i event, unit) sys" where
  "event_delete I = zoom ev_impl put_ev_impl (impl_delete I)"

interpretation ev_impl_member: lens ev_impl put_ev_impl
  by unfold_locales (simp_all add: put_ev_impl_def)

section \<open>Scaling\<close>

text \<open>The values \<open>scale\<close> accepts.\<close>

definition plausible :: "count_type \<Rightarrow> count_type \<Rightarrow> bool" where
  "plausible p c \<longleftrightarrow>
     time_running c \<le> time_enabled c \<and> (time_running c = 0 \<longrightarrow> raw_value c = raw_value p)"

lemma event_scale_run:
  "event_scale mode (e, t) =
     (if \<not> time_running (ev_count e) \<le> time_enabled (ev_count e)
      then (Inl (Raise (Runtime_error ''Event ran for longer than it was enabled'')), (e, t))
      else if \<not> plausible (ev_prev e) (ev_count e)
      then (Inl (Raise (Runtime_error ''Unexpected event value'')), (e, t))
      else case mode of
        RELATIVE \<Rightarrow> (Inr (sample_of (minus_count (ev_count e) (ev_prev e))), (e\<lparr>ev_prev := ev_count e\<rparr>, t))
      | AGGREGATED \<Rightarrow> (Inr (sample_of (ev_count e)), (e, t)))"
  by (auto simp: event_scale_def plausible_def act_simps split: event_read_mode.split)

lemma double_of_u64_exact: "uint w < 2 ^ 53 \<Longrightarrow> double_of_u64 w = Fin (of_int (uint w))"
  using round53_exact [of "uint w"] by (simp add: double_of_u64_def)

lemma uint_pos: "w \<noteq> 0 \<Longrightarrow> 0 < uint w"
  using uint_0_iff [of w] uint_ge_0 [of w] by linarith

text \<open>A counter that ran all the time it was enabled is not scaled.\<close>

lemma sample_unscaled:
  assumes "time_running c = time_enabled c" and "time_running c \<noteq> 0"
    and "uint (time_running c) < 2 ^ 53" and "uint (raw_value c) < 2 ^ 53"
  shows "sample_of c = \<lparr>sample_value = Fin (of_int (uint (raw_value c))), sample_scaling = Fin 1,
    sample_enabled = True\<rparr>"
proof -
  have "(of_int (uint (time_running c)) :: rat) \<noteq> 0"
    using assms(2) by (simp only: of_int_eq_0_iff uint_0_iff not_False_eq_True)
  moreover have "round53 1 = 1" using round53_exact [of 1] by simp
  ultimately show ?thesis
    using assms round53_exact [of "uint (raw_value c)"]
    by (simp add: sample_of_def double_of_u64_exact Let_def)
qed

section \<open>Sampling again and again\<close>

text \<open>
  A client that reads and scales \<open>n\<close> times and catches what is thrown; \<open>None\<close> where there was
  no sample.
\<close>

definition try_sample :: "'i event_impl \<Rightarrow> event_read_mode \<Rightarrow> ('i event, event_sample option) sys" where
  "try_sample I mode =
     catching (act_bind (act_bind (event_read I) (\<lambda>_. event_scale mode)) (\<lambda>x. ret (Some x))) (\<lambda>_. ret None)"

definition sample_times :: "'i event_impl \<Rightarrow> event_read_mode \<Rightarrow> nat \<Rightarrow> ('i event, event_sample option list) sys"
  where "sample_times I mode n = transform (\<lambda>_. try_sample I mode) [0..<n]"

text \<open>A kernel that reports the counts of a list, one per read.\<close>

definition next_count :: "(count_type list, count_type) sys" where
  "next_count st = (case fst st of
     [] \<Rightarrow> (Inl (Raise (System_error 0 ''Error reading PMC event'')), st)
   | c # cs \<Rightarrow> (Inr c, (cs, snd st)))"

definition playback :: "count_type list event_impl" where
  "playback = \<lparr>impl_open = (\<lambda>_ _ _. ret ()), impl_read = next_count, impl_delete = ret ()\<rparr>"

text \<open>The counts accepted in a sequence of reads, and the last of them.\<close>

fun accepted :: "count_type \<Rightarrow> count_type list \<Rightarrow> count_type list" where
  "accepted p [] = []"
| "accepted p (c # cs) = (if plausible p c then c # accepted c cs else accepted p cs)"

fun deltas :: "count_type \<Rightarrow> count_type list \<Rightarrow> count_type list" where
  "deltas p [] = []"
| "deltas p (c # cs) = minus_count c p # deltas c cs"

lemma try_sample_playback:
  "try_sample playback mode (\<lparr>ev_info = i, ev_impl = c # cs, ev_count = k, ev_prev = p\<rparr>, t) =
     (Inr (if plausible p c
           then Some (case mode of RELATIVE \<Rightarrow> sample_of (minus_count c p) | AGGREGATED \<Rightarrow> sample_of c)
           else None),
      (\<lparr>ev_info = i, ev_impl = cs, ev_count = c,
        ev_prev = (if plausible p c \<and> mode = RELATIVE then c else p)\<rparr>, t))"
proof -
  have "event_read playback (\<lparr>ev_info = i, ev_impl = c # cs, ev_count = k, ev_prev = p\<rparr>, t) =
      (Inr (), (\<lparr>ev_info = i, ev_impl = cs, ev_count = c, ev_prev = p\<rparr>, t))"
    by (simp add: event_read_def playback_def next_count_def zoom_def act_bind_def modify_def put_ev_impl_def)
  then show ?thesis
    by (auto simp: try_sample_def catching_def act_bind_def event_scale_run ret_def plausible_def
        split: event_read_mode.split)
qed

lemma transform_Cons_run:
  "f x st = (Inr y, st1) \<Longrightarrow> transform f xs st1 = (Inr ys, st2) \<Longrightarrow>
     transform f (x # xs) st = (Inr (y # ys), st2)"
  by (simp add: act_simps)

lemma transform_const: "length xs = length ys \<Longrightarrow> transform (\<lambda>_. m) xs st = transform (\<lambda>_. m) ys st"
  by (induction xs ys arbitrary: st rule: list_induct2)
    (auto simp: act_bind_def split: prod.split sum.split)

lemma sample_times_Suc:
  "try_sample I mode st = (Inr x, st1) \<Longrightarrow> sample_times I mode n st1 = (Inr xs, st2) \<Longrightarrow>
     sample_times I mode (Suc n) st = (Inr (x # xs), st2)"
  unfolding sample_times_def
  by (subst transform_const [of _ "0 # [0..<n]"]) (simp, rule transform_Cons_run)

text \<open>In relative mode the samples are those of the differences between accepted counts.\<close>

lemma sample_times_relative:
  "\<exists>xs e'. sample_times playback RELATIVE (length cs)
      (\<lparr>ev_info = i, ev_impl = cs @ rest, ev_count = k, ev_prev = p\<rparr>, t) = (Inr xs, (e', t)) \<and>
    length xs = length cs \<and> map the (filter (\<lambda>x. x \<noteq> None) xs) = map sample_of (deltas p (accepted p cs)) \<and>
    ev_impl e' = rest \<and> ev_prev e' = last (p # accepted p cs)"
proof (induction cs arbitrary: p k)
  case Nil
  then show ?case by (simp add: sample_times_def ret_def)
next
  case (Cons c cs)
  let ?p = "if plausible p c then c else p"
  obtain xs e' where ih: "sample_times playback RELATIVE (length cs)
      (\<lparr>ev_info = i, ev_impl = cs @ rest, ev_count = c, ev_prev = ?p\<rparr>, t) = (Inr xs, (e', t))"
    "length xs = length cs" "map the (filter (\<lambda>x. x \<noteq> None) xs) = map sample_of (deltas ?p (accepted ?p cs))"
    "ev_impl e' = rest" "ev_prev e' = last (?p # accepted ?p cs)"
    using Cons.IH [of c ?p] by blast
  have "try_sample playback RELATIVE (\<lparr>ev_info = i, ev_impl = (c # cs) @ rest, ev_count = k, ev_prev = p\<rparr>, t) =
      (Inr (if plausible p c then Some (sample_of (minus_count c p)) else None),
       (\<lparr>ev_info = i, ev_impl = cs @ rest, ev_count = c, ev_prev = ?p\<rparr>, t))"
    by (simp add: try_sample_playback)
  from sample_times_Suc [OF this ih(1)] ih(2-5) show ?case by auto
qed

lemma deltas_telescope:
  "sum_list (map raw_value (deltas p cs)) = raw_value (last (p # cs)) - raw_value p"
  by (induction cs arbitrary: p) (simp_all add: minus_count_def)

section \<open>Properties\<close>

text \<open>
  C23. Relative samples cover everything exactly once.  However often an event is read in relative
  mode, and however many of the readings are rejected with an exception, the samples delivered are
  those of the differences between one accepted reading and the next, so that the counts they
  stand for add up, modulo \<open>2^64\<close>, to the last accepted reading minus the first: a rejected reading
  is not lost but covered by the next sample.
\<close>

theorem relative_samples_telescope:
  "\<exists>xs e' ds. sample_times playback RELATIVE (length cs)
      (\<lparr>ev_info = i, ev_impl = cs @ rest, ev_count = k, ev_prev = p\<rparr>, t) = (Inr xs, (e', t)) \<and>
    length xs = length cs \<and> map the (filter (\<lambda>x. x \<noteq> None) xs) = map sample_of ds \<and>
    length ds = length (accepted p cs) \<and> ev_prev e' = last (p # accepted p cs) \<and>
    sum_list (map raw_value ds) = raw_value (ev_prev e') - raw_value p"
proof -
  have len: "length (deltas p xs) = length xs" for p xs
    by (induction xs arbitrary: p) simp_all
  from sample_times_relative [of cs i rest k p t] show ?thesis
    using deltas_telescope [of p "accepted p cs"] len by metis
qed

text \<open>
  C24. What a sample is worth.  While counters stay below \<open>2^53\<close> and a counter did not run longer
  than it was enabled, the scaling reported lies between 0 and 1, and the value reported is
  the counter times enabled over running up to a relative error of \<open>2^-51\<close>, in spite of two
  conversions and two divisions in double precision; without multiplexing it is exact.
\<close>

theorem sample_accuracy:
  assumes "0 < uint (time_running c)" and "uint (time_running c) \<le> uint (time_enabled c)"
    and "uint (time_enabled c) < 2 ^ 53" and "uint (raw_value c) < 2 ^ 53"
  shows "\<exists>x s. sample_of c = \<lparr>sample_value = Fin x, sample_scaling = Fin s, sample_enabled = True\<rparr> \<and>
    0 < s \<and> s \<le> 1 \<and>
    (let exact = of_int (uint (raw_value c)) * of_int (uint (time_enabled c)) / of_int (uint (time_running c))
     in \<bar>x - exact\<bar> \<le> exact / 2 ^ 51) \<and>
    (time_running c = time_enabled c \<longrightarrow> s = 1 \<and> x = of_int (uint (raw_value c)))"
proof -
  define v en run :: int where "v = uint (raw_value c)" and "en = uint (time_enabled c)"
    and "run = uint (time_running c)"
  have pos: "0 < run" "run \<le> en" "0 \<le> v" using assms by (simp_all add: v_def en_def run_def)
  have nz: "time_running c \<noteq> 0" using assms(1) by auto
  define s where "s = round53 (of_int run / of_int en)"
  define x where "x = round53 (of_int v / s)"
  have d: "double_of_u64 (raw_value c) = Fin (of_int v)" "double_of_u64 (time_enabled c) = Fin (of_int en)"
      "double_of_u64 (time_running c) = Fin (of_int run)"
    using assms unfolding v_def en_def run_def by (intro double_of_u64_exact; linarith)+
  have q: "0 < (of_int run :: rat) / of_int en" "(of_int run :: rat) / of_int en \<le> 1"
    using pos by simp_all
  have s: "0 < s" "s \<le> 1" unfolding s_def by (rule round53_pos [OF q(1)], rule round53_le_one [OF q])
  have sample: "sample_of c = \<lparr>sample_value = Fin x, sample_scaling = Fin s, sample_enabled = True\<rparr>"
    using nz pos s(1) by (simp add: sample_of_def Let_def d x_def flip: s_def)
  moreover have "\<bar>x - of_int v * of_int en / of_int run\<bar> \<le> of_int v * of_int en / of_int run / 2 ^ 51"
    unfolding x_def s_def using pos by (intro round53_scaled) simp_all
  moreover have "s = 1 \<and> x = of_int v" if "time_running c = time_enabled c"
  proof -
    have "uint (time_running c) < 2 ^ 53" using assms by linarith
    from sample_unscaled [OF that nz this assms(4)] sample show ?thesis by (simp add: v_def)
  qed
  ultimately show ?thesis using s unfolding v_def en_def run_def Let_def by blast
qed

theorem sample_accuracy_witness:
  "\<exists>x. sample_of \<lparr>raw_value = 2000, time_enabled = 1000, time_running = 500\<rparr> =
     \<lparr>sample_value = Fin x, sample_scaling = Fin (1 / 2), sample_enabled = True\<rparr> \<and>
     \<bar>x - 4000\<bar> \<le> 4000 / 2 ^ 51"
proof -
  let ?c = "\<lparr>raw_value = 2000, time_enabled = 1000, time_running = 500\<rparr> :: count_type"
  have "sample_scaling (sample_of ?c) = Fin (1 / 2)" by code_simp
  moreover have "0 < uint (time_running ?c)" "uint (time_running ?c) \<le> uint (time_enabled ?c)"
    "uint (time_enabled ?c) < 2 ^ 53" "uint (raw_value ?c) < 2 ^ 53" by simp_all
  from sample_accuracy [OF this] obtain x s where
    "sample_of ?c = \<lparr>sample_value = Fin x, sample_scaling = Fin s, sample_enabled = True\<rparr>"
    "\<bar>x - 4000\<bar> \<le> 4000 / 2 ^ 51" by (auto simp: Let_def)
  ultimately show ?thesis by simp
qed

end
