(* ===== verification/Perf_Backends.thy ===== *)
theory Perf_Backends
  imports Perf_Event Std_Map "HOL-Library.List_Lexorder" "HOL-Library.Char_ord"
begin

text \<open>
  The two classes an event can be built on, \<open>event_linux_impl\<close> (\<open>perf/event_linux\<close>) and
  \<open>event_dummy_impl\<close>, and the tables of generic events.
\<close>

section \<open>\<open>event_linux_impl\<close>\<close>

record event_linux_impl =
  pe_fd :: int

text \<open>The member initialiser: 0 stands for ``not open''.\<close>

definition event_linux_new :: event_linux_impl where
  "event_linux_new = \<lparr>pe_fd = 0\<rparr>"

text \<open>
  The assignments to \<open>attr\<close>.  Its flags are unsigned bit fields of width 1, so an integer assigned
  to one of them is reduced modulo 2, and a bool is stored as it is.
\<close>

definition bit_field :: "8 word \<Rightarrow> 1 word" where
  "bit_field v = ucast v"

definition flag :: "bool \<Rightarrow> 1 word" where
  "flag b = (if b then 1 else 0)"

definition linux_attr :: "platform \<Rightarrow> event_info \<Rightarrow> bool \<Rightarrow> 32 word \<Rightarrow> perf_event_attr" where
  "linux_attr P info attach type =
     \<lparr>attr_type = type, attr_size = perf_attr_sizeof P, attr_config = info_code info,
      attr_read_format = perf_format_total_time_enabled P OR perf_format_total_time_running P,
      attr_disabled = flag (\<not> attach), attr_inherit = 1,
      attr_exclude_user = bit_field (info_modifiers info AND EXCLUDE_USER),
      attr_exclude_kernel = bit_field (info_modifiers info AND EXCLUDE_KERNEL),
      attr_exclude_hv = bit_field (info_modifiers info AND EXCLUDE_HV),
      attr_enable_on_exec = flag (\<not> attach)\<rparr>"

definition linux_open :: "platform \<Rightarrow> event_info \<Rightarrow> int \<Rightarrow> bool \<Rightarrow> (event_linux_impl, unit) sys" where
  "linux_open P info pid attach =
     (let opening = (\<lambda>type.
        act_bind (call_ne P (Sys_perf_event_open (linux_attr P info attach type) pid) (-1)
            ''Error opening the event'')
          (\<lambda>r. modify (\<lambda>i. i\<lparr>pe_fd := rc r\<rparr>)))
      in case info_type info of
           HARDWARE \<Rightarrow> opening (perf_type_hardware P)
         | RAW \<Rightarrow> opening (perf_type_raw P)
         | Other_event_type _ \<Rightarrow> halt Assert_failed)"

definition linux_close :: "platform \<Rightarrow> (event_linux_impl, unit) sys" where
  "linux_close P =
     catching
       (act_bind (reading pe_fd) (\<lambda>fd. discard (call_eq P (Sys_close fd) 0 ''Error closing the event'')))
       (\<lambda>_. ret ())"

definition linux_delete :: "platform \<Rightarrow> (event_linux_impl, unit) sys" where
  "linux_delete P = branch (\<lambda>i. pe_fd i \<noteq> 0) (linux_close P) (ret ())"

definition count_of_bytes :: "platform \<Rightarrow> byte list \<Rightarrow> count_type" where
  "count_of_bytes P bs =
     \<lparr>raw_value = load_u64 P (take 8 bs), time_enabled = load_u64 P (take 8 (drop 8 bs)),
      time_running = load_u64 P (take 8 (drop 16 bs))\<rparr>"

definition linux_read :: "platform \<Rightarrow> (event_linux_impl, count_type) sys" where
  "linux_read P =
     act_bind (reading pe_fd) (\<lambda>fd.
       act_bind (call_eq P (Sys_read fd 24) 24 ''Error reading PMC event'')
         (\<lambda>r. ret (count_of_bytes P (out_bytes r))))"

definition linux_impl :: "platform \<Rightarrow> event_linux_impl event_impl" where
  "linux_impl P = \<lparr>impl_open = linux_open P, impl_read = linux_read P, impl_delete = linux_delete P\<rparr>"

section \<open>\<open>event_dummy_impl\<close>\<close>

definition dummy_open :: "event_info \<Rightarrow> int \<Rightarrow> bool \<Rightarrow> (unit, unit) sys" where
  "dummy_open info pid attach = ret ()"

definition dummy_close :: "(unit, unit) sys" where
  "dummy_close = ret ()"

definition dummy_read :: "(unit, count_type) sys" where
  "dummy_read = ret zero_count"

definition dummy_impl :: "unit event_impl" where
  "dummy_impl = \<lparr>impl_open = dummy_open, impl_read = dummy_read, impl_delete = ret ()\<rparr>"

section \<open>Generic events\<close>

record generic_events =
  cycles :: u64
  instructions :: u64

text \<open>\<open>std::map\<close> built from a braced list: the first of two entries with the same key stays.\<close>

definition smap_of :: "('k::linorder \<times> 'v) list \<Rightarrow> ('k, 'v) smap" where
  "smap_of kvs = fold (\<lambda>(k, v) m. snd (smap_emplace k v m)) kvs []"

definition generic_events_map_default :: "(string, generic_events) smap" where
  "generic_events_map_default = smap_of [(''dummy'', \<lparr>cycles = 0, instructions = 0\<rparr>)]"

definition generic_events_map_linux :: "platform \<Rightarrow> (string, generic_events) smap" where
  "generic_events_map_linux P = smap_of
     [(''linux'', \<lparr>cycles = perf_count_hw_cpu_cycles P, instructions = perf_count_hw_instructions P\<rparr>),
      (''dummy'', \<lparr>cycles = 0, instructions = 0\<rparr>)]"

text \<open>The definition in \<open>perf/event.cc\<close> is weak, so a Linux build links the other one.\<close>

definition get_generic_events_map :: "platform \<Rightarrow> (string, generic_events) smap" where
  "get_generic_events_map P =
     (case host P of Linux \<Rightarrow> generic_events_map_linux P | Mac \<Rightarrow> generic_events_map_default)"

definition create_generic_events :: "platform \<Rightarrow> string \<Rightarrow> ('s, generic_events) sys" where
  "create_generic_events P impl_name =
     (case map_of (get_generic_events_map P) impl_name of
        None \<Rightarrow> raise (Invalid_argument ''Invalid event type'')
      | Some g \<Rightarrow> ret g)"

lemma smap_of_two:
  "map_of (smap_of [(a, v), (b, w)]) k = (if k = a then Some v else if k = b then Some w else None)"
  "map_of (smap_of [(a, v)]) k = (if k = a then Some v else None)"
  by (auto simp: smap_of_def smap_emplace_def split: if_splits)

lemma create_generic_events_run:
  "create_generic_events P name st =
     (if name = ''dummy'' then (Inr \<lparr>cycles = 0, instructions = 0\<rparr>, st)
      else if name = ''linux'' \<and> host P = Linux
      then (Inr \<lparr>cycles = perf_count_hw_cpu_cycles P, instructions = perf_count_hw_instructions P\<rparr>, st)
      else (Inl (Raise (Invalid_argument ''Invalid event type'')), st))"
  by (auto simp: create_generic_events_def get_generic_events_map_def generic_events_map_linux_def
      generic_events_map_default_def smap_of_two act_simps split: host_os.split)

section \<open>The attributes an event is opened with\<close>

lemma bit_field_simps:
  "bit_field (m AND EXCLUDE_USER) = (if odd m then 1 else 0)"
  "bit_field (m AND EXCLUDE_KERNEL) = 0" "bit_field (m AND EXCLUDE_HV) = 0"
proof -
  show "bit_field (m AND EXCLUDE_USER) = (if odd m then 1 else 0)"
    by (simp add: bit_field_def EXCLUDE_USER_def and_one_eq mod_2_eq_odd)
  show "bit_field (m AND EXCLUDE_KERNEL) = 0" "bit_field (m AND EXCLUDE_HV) = 0"
    unfolding bit_field_def EXCLUDE_KERNEL_def EXCLUDE_HV_def
    by (rule bit_word_eqI; simp add: bit_simps)+
qed

lemma known_type_open:
  assumes "info_type info \<in> {HARDWARE, RAW}"
  shows "\<exists>type r. linux_open P info pid attach (i, t) =
      (r, (if rc (answer P t (Sys_perf_event_open (linux_attr P info attach type) pid)) = -1 then i
           else i\<lparr>pe_fd := rc (answer P t (Sys_perf_event_open (linux_attr P info attach type) pid))\<rparr>,
       t @ [Sys_perf_event_open (linux_attr P info attach type) pid]))"
  using assms by (cases "info_type info") (auto simp: linux_open_def Let_def act_simps)

text \<open>
  C39. The modifiers \<open>EXCLUDE_KERNEL\<close> and \<open>EXCLUDE_HV\<close> have no effect.  Opening an event makes one
  call, with the event code, disabled until \<open>exec\<close> exactly if it is not attached to a running
  process, and inherited by children; user mode is excluded exactly if \<open>EXCLUDE_USER\<close> is among the
  modifiers.  But the kernel is asked to count kernel and hypervisor events whatever the modifiers are:
  the flags are bit fields one bit wide, and assigning 2 or 4 to them stores 0.
\<close>

theorem kernel_never_excluded:
  assumes "info_type info \<in> {HARDWARE, RAW}"
  shows "\<exists>attr. snd (snd (linux_open P info pid attach (i, t))) = t @ [Sys_perf_event_open attr pid] \<and>
    attr_config attr = info_code info \<and> attr_inherit attr = 1 \<and>
    attr_disabled attr = flag (\<not> attach) \<and> attr_enable_on_exec attr = flag (\<not> attach) \<and>
    attr_exclude_user attr = flag (odd (info_modifiers info)) \<and>
    attr_exclude_kernel attr = 0 \<and> attr_exclude_hv attr = 0"
proof -
  obtain type r i' where "linux_open P info pid attach (i, t) =
      (r, (i', t @ [Sys_perf_event_open (linux_attr P info attach type) pid]))"
    using known_type_open [OF assms] by metis
  then show ?thesis
    by (intro exI [of _ "linux_attr P info attach type"]) (simp add: linux_attr_def bit_field_simps flag_def)
qed

theorem kernel_never_excluded_witness:
  "\<exists>attr. snd (snd (linux_open good_platform
       \<lparr>info_type = RAW, info_code = 192, info_modifiers = EXCLUDE_KERNEL OR EXCLUDE_HV\<rparr> 7 True
       (event_linux_new, []))) = [Sys_perf_event_open attr 7] \<and>
     attr_exclude_kernel attr = 0 \<and> attr_exclude_hv attr = 0"
  using kernel_never_excluded [of "\<lparr>info_type = RAW, info_code = 192,
      info_modifiers = EXCLUDE_KERNEL OR EXCLUDE_HV\<rparr>" good_platform 7 True event_linux_new "[]"]
  by auto

end
