(* ===== verification/Event_Manager.thy ===== *)
theory Event_Manager
  imports Perf_Backends
begin

text \<open>
  \<open>perf/event_manager\<close>: the events of one process, generic in the class of event; opened
  together, read together, and closed with the manager.
\<close>

section \<open>State and operations\<close>

text \<open>What the manager uses of its \<open>Event\<close>.\<close>

record 'e event_ops =
  op_open :: "int \<Rightarrow> bool \<Rightarrow> ('e, unit) sys"
  op_read :: "('e, unit) sys"
  op_scale :: "event_read_mode \<Rightarrow> ('e, event_sample) sys"
  op_delete :: "('e, unit) sys"

definition ops_of :: "'i event_impl \<Rightarrow> 'i event event_ops" where
  "ops_of I = \<lparr>op_open = event_open I, op_read = event_read I, op_scale = event_scale,
     op_delete = event_delete I\<rparr>"

record 'e event_manager =
  mgr_events :: "'e list"
  latest_samples :: "event_sample list"

definition no_sample :: event_sample where
  "no_sample = \<lparr>sample_value = Fin 0, sample_scaling = Fin 0, sample_enabled = False\<rparr>"

definition put_mgr_events :: "'e list \<Rightarrow> 'e event_manager \<Rightarrow> 'e event_manager" where
  "put_mgr_events es m = m\<lparr>mgr_events := es\<rparr>"

definition on_events :: "('e list, 'a) sys \<Rightarrow> ('e event_manager, 'a) sys" where
  "on_events = zoom mgr_events put_mgr_events"

text \<open>Destroying the members destroys the events in the vector.\<close>

definition event_manager_delete :: "'e event_ops \<Rightarrow> ('e event_manager, unit) sys" where
  "event_manager_delete E =
     block [on_events (discard (each (op_delete E))), modify (put_mgr_events [])]"

definition default_event_factory :: "count_type \<Rightarrow> 'i \<Rightarrow> event_info \<Rightarrow> ('s, 'i event) sys" where
  "default_event_factory junk impl_init info = event_new junk info impl_init"

definition event_manager_new ::
    "'e event_ops \<Rightarrow> (event_info \<Rightarrow> ('e event_manager, 'e) sys) \<Rightarrow> event_info list \<Rightarrow> int \<Rightarrow> bool
     \<Rightarrow> ('e event_manager, unit) sys" where
  "event_manager_new E factory infos pid attach =
     block
       [modify (\<lambda>_. \<lparr>mgr_events = [], latest_samples = replicate (length infos) no_sample\<rparr>),
        unwinding
          (block
            [block (map (\<lambda>info. act_bind (factory info)
               (\<lambda>e. modify (\<lambda>m. put_mgr_events (mgr_events m @ [e]) m))) infos),
             on_events (discard (each (op_open E pid attach)))])
          (event_manager_delete E)]"

text \<open>
  \<open>std::transform\<close> over the events into the samples: the sample of an event is stored before the
  next event is scaled.
\<close>

fun scale_each ::
    "'e event_ops \<Rightarrow> event_read_mode \<Rightarrow> 'e list \<times> event_sample list \<Rightarrow> syscall list
     \<Rightarrow> unit outcome \<times> ('e list \<times> event_sample list) \<times> syscall list" where
  "scale_each E mode (e # es, x # xs) t =
     (case op_scale E mode (e, t) of
        (Inl b, (e', t')) \<Rightarrow> (Inl b, ((e' # es, x # xs), t'))
      | (Inr y, (e', t')) \<Rightarrow>
          (case scale_each E mode (es, xs) t' of
             (r, ((es', xs'), t'')) \<Rightarrow> (r, ((e' # es', y # xs'), t''))))"
| "scale_each E mode st t = (Inr (), (st, t))"

definition scale_events :: "'e event_ops \<Rightarrow> event_read_mode \<Rightarrow> ('e event_manager, unit) sys" where
  "scale_events E mode st =
     (case scale_each E mode (mgr_events (fst st), latest_samples (fst st)) (snd st) of
        (r, ((es, xs), t)) \<Rightarrow> (r, (\<lparr>mgr_events = es, latest_samples = xs\<rparr>, t)))"

definition read_events :: "'e event_ops \<Rightarrow> event_read_mode \<Rightarrow> ('e event_manager, event_sample list) sys" where
  "read_events E mode =
     act_bind
       (block [on_events (discard (each (op_read E))), scale_events E mode])
       (\<lambda>_. reading latest_samples)"

interpretation mgr_events_member: lens mgr_events put_mgr_events
  by unfold_locales (simp_all add: put_mgr_events_def)

lemma mgr_events_put [simp]:
  "mgr_events (put_mgr_events es m) = es" "latest_samples (put_mgr_events es m) = latest_samples m"
  "put_mgr_events es (put_mgr_events es' m) = put_mgr_events es m"
  by (simp_all add: put_mgr_events_def)

lemma ops_of_simps [simp]:
  "op_open (ops_of I) = event_open I" "op_read (ops_of I) = event_read I"
  "op_scale (ops_of I) = event_scale" "op_delete (ops_of I) = event_delete I"
  by (simp_all add: ops_of_def)

section \<open>Reading\<close>

lemma event_scale_silent: "event_scale mode (e, t) = (r, (e', t')) \<Longrightarrow> t' = t"
  by (auto simp: event_scale_run split: if_splits event_read_mode.splits)

lemma scale_each_ok:
  assumes "\<And>e. e \<in> set es \<Longrightarrow> plausible (ev_prev e) (ev_count e)" and "length xs = length es"
  shows "scale_each (ops_of I) mode (es, xs) t =
    (Inr (), ((map (\<lambda>e. if mode = RELATIVE then e\<lparr>ev_prev := ev_count e\<rparr> else e) es,
       map (\<lambda>e. sample_of (case mode of RELATIVE \<Rightarrow> minus_count (ev_count e) (ev_prev e)
                           | AGGREGATED \<Rightarrow> ev_count e)) es), t))"
  using assms
proof (induction es arbitrary: xs)
  case Nil
  then show ?case by simp
next
  case (Cons e es)
  obtain x xs' where xs: "xs = x # xs'" using Cons.prems(2) by (cases xs) auto
  have "plausible (ev_prev e) (ev_count e)" using Cons.prems(1) by simp
  then have "time_running (ev_count e) \<le> time_enabled (ev_count e)" "plausible (ev_prev e) (ev_count e)"
    by (auto simp: plausible_def)
  with Cons.IH [of xs'] Cons.prems xs show ?case
    by (cases mode) (simp_all add: event_scale_run)
qed

section \<open>Descriptors\<close>

text \<open>The descriptors \<open>perf_event_open\<close> returned in a log, 0 excepted, and those closed in it.\<close>

definition opened_by :: "platform \<Rightarrow> syscall list \<Rightarrow> syscall \<Rightarrow> int list" where
  "opened_by P t c = (case c of
     Sys_perf_event_open _ _ \<Rightarrow> (let fd = rc (answer P t c) in if fd \<in> {-1, 0} then [] else [fd])
   | _ \<Rightarrow> [])"

fun perf_opened_from :: "platform \<Rightarrow> syscall list \<Rightarrow> syscall list \<Rightarrow> int list" where
  "perf_opened_from P pre [] = []"
| "perf_opened_from P pre (c # t) = opened_by P pre c @ perf_opened_from P (pre @ [c]) t"

definition perf_opened :: "platform \<Rightarrow> syscall list \<Rightarrow> int list" where
  "perf_opened P t = perf_opened_from P [] t"

definition perf_closed :: "syscall list \<Rightarrow> int list" where
  "perf_closed t = concat (map (\<lambda>c. case c of Sys_close fd \<Rightarrow> [fd] | _ \<Rightarrow> []) t)"

lemma perf_opened_snoc [simp]: "perf_opened P (t @ [c]) = perf_opened P t @ opened_by P t c"
proof -
  have "perf_opened_from P pre (t @ [c]) = perf_opened_from P pre t @ opened_by P (pre @ t) c" for pre
    by (induction t arbitrary: pre) simp_all
  then show ?thesis by (simp add: perf_opened_def)
qed

lemma perf_opened_Nil [simp]: "perf_opened P [] = []" "perf_closed [] = []"
  by (simp_all add: perf_opened_def perf_closed_def)

lemma perf_closed_append [simp]: "perf_closed (t @ u) = perf_closed t @ perf_closed u"
  by (simp add: perf_closed_def)

lemma perf_closed_one [simp]:
  "perf_closed [Sys_close fd] = [fd]" "perf_closed [Sys_perf_event_open a p] = []"
  "perf_closed [Sys_read fd n] = []" "perf_closed [Sleep_for ms] = []"
  by (simp_all add: perf_closed_def)

lemma opened_by_simps [simp]:
  "opened_by P t (Sys_close fd) = []" "opened_by P t (Sys_read fd n) = []" "opened_by P t (Sleep_for ms) = []"
  by (simp_all add: opened_by_def)

type_synonym linux_event = "event_linux_impl event"

definition fds :: "linux_event list \<Rightarrow> int list" where
  "fds es = filter (\<lambda>fd. fd \<noteq> 0) (map (\<lambda>e. pe_fd (ev_impl e)) es)"

abbreviation linux_ops :: "platform \<Rightarrow> linux_event event_ops" where
  "linux_ops P \<equiv> ops_of (linux_impl P)"

lemma fds_simps [simp]:
  "fds [] = []" "fds (e # es) = (if pe_fd (ev_impl e) = 0 then [] else [pe_fd (ev_impl e)]) @ fds es"
  "fds (es @ es') = fds es @ fds es'"
  by (simp_all add: fds_def)

definition known_type :: "event_info \<Rightarrow> bool" where
  "known_type info \<longleftrightarrow> info_type info \<in> {HARDWARE, RAW}"

lemma linux_open_account:
  assumes "known_type (ev_info e)" and "pe_fd (ev_impl e) = 0"
    and "event_open (linux_impl P) pid attach (e, t) = (r, (e', t'))"
  shows "perf_opened P t' = perf_opened P t @ fds [e'] \<and> perf_closed t' = perf_closed t \<and>
    ev_info e' = ev_info e \<and> (\<forall>x. r = Inl x \<longrightarrow> x \<in> range Raise)"
  using assms
  by (cases "info_type (ev_info e)")
    (auto simp: event_open_def linux_impl_def linux_open_def put_ev_impl_def known_type_def act_simps
      opened_by_def Let_def split: if_splits)

lemma linux_each_open:
  assumes "\<And>e. e \<in> set es \<Longrightarrow> known_type (ev_info e) \<and> pe_fd (ev_impl e) = 0"
    and "each (event_open (linux_impl P) pid attach) (es, t) = (r, (es', t'))"
  shows "perf_opened P t' = perf_opened P t @ fds es' \<and> perf_closed t' = perf_closed t \<and>
    (\<forall>x. r = Inl x \<longrightarrow> x \<in> range Raise)"
  using assms
proof (induction es arbitrary: t r es' t')
  case Nil
  then show ?case by auto
next
  case (Cons e es)
  obtain r1 e1 t1 where o: "event_open (linux_impl P) pid attach (e, t) = (r1, (e1, t1))"
    by (metis prod.collapse)
  have e: "known_type (ev_info e)" "pe_fd (ev_impl e) = 0" using Cons.prems(1) by simp_all
  note acc = linux_open_account [OF e o]
  show ?case
  proof (cases r1)
    case (Inl x)
    have "fds es = []" using Cons.prems(1) by (auto simp: fds_def filter_empty_conv)
    with Inl acc o Cons.prems(2) show ?thesis by auto
  next
    case (Inr u)
    obtain r2 es2 t2 where o2: "each (event_open (linux_impl P) pid attach) (es, t1) = (r2, (es2, t2))"
      by (metis prod.collapse)
    have "perf_opened P t2 = perf_opened P t1 @ fds es2 \<and> perf_closed t2 = perf_closed t1 \<and>
        (\<forall>x. r2 = Inl x \<longrightarrow> x \<in> range Raise)"
      using Cons.prems(1) by (intro Cons.IH [OF _ o2]) simp
    with Inr acc o o2 Cons.prems(2) show ?thesis by (auto split: sum.splits)
  qed
qed

lemma linux_each_delete:
  "\<exists>us t'. each (event_delete (linux_impl P)) (es, t) = (Inr us, (es, t')) \<and>
     perf_opened P t' = perf_opened P t \<and> perf_closed t' = perf_closed t @ fds es"
proof (induction es arbitrary: t)
  case Nil
  then show ?case by simp
next
  case (Cons e es)
  have "\<exists>t1. event_delete (linux_impl P) (e, t) = (Inr (), (e, t1)) \<and>
      perf_opened P t1 = perf_opened P t \<and> perf_closed t1 = perf_closed t @ fds [e]"
    by (auto simp: event_delete_def linux_impl_def linux_delete_def linux_close_def put_ev_impl_def act_simps)
  then obtain t1 where "event_delete (linux_impl P) (e, t) = (Inr (), (e, t1))"
      "perf_opened P t1 = perf_opened P t" "perf_closed t1 = perf_closed t @ fds [e]" by blast
  moreover from Cons.IH [of t1] obtain us t' where
    "each (event_delete (linux_impl P)) (es, t1) = (Inr us, (es, t'))"
    "perf_opened P t' = perf_opened P t1" "perf_closed t' = perf_closed t1 @ fds es" by blast
  ultimately show ?case by simp
qed

lemma linux_manager_delete:
  "\<exists>t'. event_manager_delete (linux_ops P) (m, t) = (Inr (), (put_mgr_events [] m, t')) \<and>
     perf_opened P t' = perf_opened P t \<and> perf_closed t' = perf_closed t @ fds (mgr_events m)"
  using linux_each_delete [of P "mgr_events m" t]
  by (auto simp: event_manager_delete_def on_events_def put_mgr_events_def act_simps)

abbreviation linux_factory :: "count_type \<Rightarrow> event_info \<Rightarrow> ('s, linux_event) sys" where
  "linux_factory junk \<equiv> default_event_factory junk event_linux_new"

lemma default_factory_run:
  "default_event_factory junk i info st =
     (if valid_modifiers (info_modifiers info)
      then (Inr \<lparr>ev_info = info, ev_impl = i, ev_count = junk, ev_prev = zero_count\<rparr>, st)
      else (Inl Assert_failed, st))"
  by (simp add: default_event_factory_def event_new_def act_simps)

definition new_event :: "count_type \<Rightarrow> 'i \<Rightarrow> event_info \<Rightarrow> 'i event" where
  "new_event junk i info = \<lparr>ev_info = info, ev_impl = i, ev_count = junk, ev_prev = zero_count\<rparr>"

text \<open>Making the events: all of them, or an abort before anything has been opened.\<close>

lemma make_events:
  "block (map (\<lambda>info. act_bind (default_event_factory junk i info)
       (\<lambda>e. modify (\<lambda>m. put_mgr_events (mgr_events m @ [e]) m))) infos) (m, t) =
     (if \<forall>info \<in> set infos. valid_modifiers (info_modifiers info)
      then (Inr (), (put_mgr_events (mgr_events m @ map (new_event junk i) infos) m, t))
      else (Inl Assert_failed,
        (put_mgr_events (mgr_events m @ map (new_event junk i)
           (takeWhile (\<lambda>info. valid_modifiers (info_modifiers info)) infos)) m, t)))"
  by (induction infos arbitrary: m)
    (auto simp: default_factory_run act_bind_def modify_def put_mgr_events_def new_event_def)

lemma new_manager_account:
  assumes types: "\<And>info. info \<in> set infos \<Longrightarrow> known_type info"
    and run: "event_manager_new (linux_ops P) (linux_factory junk) infos pid attach (m, t) = (r, (m', t'))"
  shows "if r = Inr ()
    then perf_opened P t' = perf_opened P t @ fds (mgr_events m') \<and> perf_closed t' = perf_closed t
    else \<exists>F. perf_opened P t' = perf_opened P t @ F \<and> perf_closed t' = perf_closed t @ F"
proof -
  let ?m0 = "\<lparr>mgr_events = [], latest_samples = replicate (length infos) no_sample\<rparr>"
  let ?es = "map (new_event junk event_linux_new) infos"
  show ?thesis
  proof (cases "\<forall>info \<in> set infos. valid_modifiers (info_modifiers info)")
    case False
    with run have "r = Inl Assert_failed \<and> t' = t"
      by (auto simp: event_manager_new_def unwinding_def catching_def modify_def act_bind_def make_events)
    then show ?thesis by auto
  next
    case True
    obtain r1 es1 t1 where o: "each (event_open (linux_impl P) pid attach) (?es, t) = (r1, (es1, t1))"
      by (metis prod.collapse)
    have acc: "perf_opened P t1 = perf_opened P t @ fds es1 \<and> perf_closed t1 = perf_closed t \<and>
        (\<forall>x. r1 = Inl x \<longrightarrow> x \<in> range Raise)"
      by (rule linux_each_open [OF _ o]) (auto simp: types new_event_def event_linux_new_def)
    show ?thesis
    proof (cases r1)
      case (Inr us)
      with o True run acc show ?thesis
        by (auto simp: event_manager_new_def unwinding_def catching_def modify_def act_bind_def
            make_events on_events_def zoom_def discard_def ret_def)
    next
      case (Inl x)
      then obtain y where "x = Raise y" using acc by auto
      moreover obtain t2 where "event_manager_delete (linux_ops P) (put_mgr_events es1 ?m0, t1) =
          (Inr (), (put_mgr_events [] (put_mgr_events es1 ?m0), t2))"
        "perf_opened P t2 = perf_opened P t1" "perf_closed t2 = perf_closed t1 @ fds es1"
        using linux_manager_delete [of P "put_mgr_events es1 ?m0" t1] by auto
      ultimately show ?thesis using Inl o True run acc
        by (auto simp: event_manager_new_def unwinding_def catching_def modify_def act_bind_def
            make_events on_events_def zoom_def discard_def ret_def raise_def halt_def)
    qed
  qed
qed

text \<open>Reading and scaling leave descriptors alone.\<close>

definition same_fds_rel :: "platform \<Rightarrow> linux_event event_manager \<times> syscall list \<Rightarrow>
    linux_event event_manager \<times> syscall list \<Rightarrow> bool" where
  "same_fds_rel P st st' \<longleftrightarrow> fds (mgr_events (fst st')) = fds (mgr_events (fst st)) \<and>
     perf_opened P (snd st') = perf_opened P (snd st) \<and> perf_closed (snd st') = perf_closed (snd st)"

interpretation same_fds: effect_rel "same_fds_rel P" for P
  by unfold_locales (auto simp: same_fds_rel_def)

lemma linux_each_read:
  assumes "each (event_read (linux_impl P)) (es, t) = (r, (es', t'))"
  shows "fds es' = fds es \<and> perf_opened P t' = perf_opened P t \<and> perf_closed t' = perf_closed t"
  using assms
proof (induction es arbitrary: t r es' t')
  case Nil
  then show ?case by simp
next
  case (Cons e es)
  obtain r1 e1 t1 where o: "event_read (linux_impl P) (e, t) = (r1, (e1, t1))" by (metis prod.collapse)
  then have "fds [e1] = fds [e] \<and> perf_opened P t1 = perf_opened P t \<and> perf_closed t1 = perf_closed t"
    by (auto simp: event_read_def linux_impl_def linux_read_def put_ev_impl_def act_simps split: if_splits)
  with Cons.prems o Cons.IH show ?case by (fastforce split: sum.splits prod.splits)
qed

lemma outcomes_each [effects]: "outcomes E m \<Longrightarrow> outcomes E (each m)"
proof (rule outcomesI)
  fix st e st'
  assume m: "outcomes E m" and "each m st = (Inl e, st')"
  then show "e \<in> E"
    by (induction m st arbitrary: st' rule: each.induct)
      (auto split: prod.splits sum.splits dest: outcomesD)
qed

lemma outcomes_scale_events [effects]:
  assumes "outcomes F (op_scale E mode)"
  shows "outcomes F (scale_events E mode)"
proof -
  have "scale_each E mode st t = (Inl e, st') \<Longrightarrow> e \<in> F" for st t e st'
    using assms
    by (induction E mode st t arbitrary: st' rule: scale_each.induct)
      (auto split: prod.splits sum.splits dest: outcomesD)
  then show ?thesis
    by (intro outcomesI) (auto simp: scale_events_def split: prod.splits)
qed

lemma linux_scale_each:
  assumes "scale_each (linux_ops P) mode (es, xs) t = (r, ((es', xs'), t'))"
  shows "fds es' = fds es \<and> t' = t"
  using assms
proof (induction "linux_ops P" mode "(es, xs)" t arbitrary: es xs r es' xs' t' rule: scale_each.induct)
  case (1 mode e es x xs t)
  obtain r1 e1 t1 where o: "event_scale mode (e, t) = (r1, (e1, t1))" by (metis prod.collapse)
  then have "fds [e1] = fds [e] \<and> t1 = t"
    by (auto simp: event_scale_run split: if_splits event_read_mode.splits)
  with 1 o show ?case by (fastforce split: sum.splits prod.splits)
qed auto

lemma read_same_fds: "abides (same_fds_rel P) (read_events (linux_ops P) mode)"
proof -
  have "abides (same_fds_rel P) (on_events (discard (each (event_read (linux_impl P)))))"
    by (rule abidesI) (auto simp: on_events_def zoom_def discard_def act_bind_def ret_def same_fds_rel_def
        dest!: linux_each_read split: prod.splits sum.splits)
  moreover have "abides (same_fds_rel P) (scale_events (linux_ops P) mode)"
    by (rule abidesI) (auto simp: scale_events_def same_fds_rel_def dest!: linux_scale_each split: prod.splits)
  ultimately show ?thesis
    by (auto simp: read_events_def intro!: effects)
qed

section \<open>Properties\<close>

text \<open>
  C22. Every event descriptor is closed exactly once.  A manager is built for any list of events,
  read any number of times in any mode, with every exception of the reads caught, and destroyed;
  or its construction fails at any of the events.  In every case the descriptors the kernel handed
  out, 0 excepted, are exactly the descriptors closed, each once and in the same order.
\<close>

theorem perf_descriptors_closed_once:
  assumes "\<forall>info \<in> set infos. known_type info"
  shows "let t' = snd (snd (block
      [event_manager_new (linux_ops P) (linux_factory junk) infos pid attach,
       block (map (\<lambda>mode. catching (discard (read_events (linux_ops P) mode)) (\<lambda>_. ret ())) modes),
       event_manager_delete (linux_ops P)] (m, [])))
    in perf_opened P t' = perf_closed t'"
proof -
  let ?reads = "block (map (\<lambda>mode. catching (discard (read_events (linux_ops P) mode)) (\<lambda>_. ret ())) modes)"
  obtain r m1 t1 where new: "event_manager_new (linux_ops P) (linux_factory junk) infos pid attach (m, []) =
      (r, (m1, t1))" by (metis prod.collapse)
  have acc: "if r = Inr () then perf_opened P t1 = fds (mgr_events m1) \<and> perf_closed t1 = []
      else \<exists>F. perf_opened P t1 = F \<and> perf_closed t1 = F"
    using new_manager_account [OF _ new] assms by (simp split: if_splits)
  show ?thesis
  proof (cases r)
    case (Inl x)
    with new acc show ?thesis by (simp add: Let_def)
  next
    case (Inr u)
    have "abides (same_fds_rel P) ?reads" by (auto intro!: effects read_same_fds)
    moreover obtain r2 m2 t2 where reads: "?reads (m1, t1) = (r2, (m2, t2))" by (metis prod.collapse)
    ultimately have same: "same_fds_rel P (m1, t1) (m2, t2)" by (rule abidesD)
    have "outcomes {} (catching (discard (read_events (linux_ops P) mode)) (\<lambda>_. ret ()))" for mode
    proof -
      have "outcomes (range Raise) (event_read (linux_impl P))"
        by (auto simp: event_read_def linux_impl_def linux_read_def intro!: effects)
      moreover have "outcomes (range Raise) (event_scale mode' :: (linux_event, event_sample) sys)" for mode'
        by (rule outcomesI) (auto simp: event_scale_run split: if_splits event_read_mode.splits)
      ultimately show ?thesis
        by (auto simp: read_events_def on_events_def intro!: effects outcomes_each outcomes_scale_events)
    qed
    then have "outcomes {} ?reads" by (intro outcomes_block) auto
    with reads have r2: "r2 = Inr ()" by (cases r2) (auto dest: outcomesD)
    obtain t3 where "event_manager_delete (linux_ops P) (m2, t2) = (Inr (), (put_mgr_events [] m2, t3))"
        "perf_opened P t3 = perf_opened P t2" "perf_closed t3 = perf_closed t2 @ fds (mgr_events m2)"
      using linux_manager_delete by blast
    with new reads r2 acc same Inr show ?thesis by (simp add: Let_def same_fds_rel_def)
  qed
qed

text \<open>
  Read first, scale afterwards.  If every counter can be read, the manager returns one sample
  per event, in the order of the events, each from the count just read, and keeps them; scaling makes
  no system call, so all counters are read back to back.  If a read throws, the exception goes on
  and the samples of the last time are untouched.
\<close>

theorem read_events_spec:
  assumes "length (latest_samples m) = length (mgr_events m)"
    and "each (event_read I) (mgr_events m, t) = (r, (es, t1))"
    and "\<And>e. e \<in> set es \<Longrightarrow> plausible (ev_prev e) (ev_count e)"
  shows "read_events (ops_of I) mode (m, t) =
    (case r of
       Inl x \<Rightarrow> (Inl x, (m\<lparr>mgr_events := es\<rparr>, t1))
     | Inr _ \<Rightarrow>
        (let xs = map (\<lambda>e. sample_of (case mode of RELATIVE \<Rightarrow> minus_count (ev_count e) (ev_prev e)
                                      | AGGREGATED \<Rightarrow> ev_count e)) es;
             es' = map (\<lambda>e. if mode = RELATIVE then e\<lparr>ev_prev := ev_count e\<rparr> else e) es
         in (Inr xs, (\<lparr>mgr_events = es', latest_samples = xs\<rparr>, t1))))"
  using assms scale_each_ok [where es = es and xs = "latest_samples m", OF assms(3)] each_length [OF assms(2)]
  by (cases r)
    (simp_all add: read_events_def on_events_def zoom_def discard_def act_bind_def ret_def
      scale_events_def reading_def put_mgr_events_def Let_def)

definition two_infos :: "event_info list" where
  "two_infos = [\<lparr>info_type = HARDWARE, info_code = 0, info_modifiers = EXCLUDE_NONE\<rparr>,
     \<lparr>info_type = HARDWARE, info_code = 1, info_modifiers = EXCLUDE_USER\<rparr>]"

theorem perf_descriptors_closed_once_witness:
  "let t' = snd (snd (block
      [event_manager_new (linux_ops good_platform) (linux_factory zero_count) two_infos 7 True,
       block (map (\<lambda>mode. catching (discard (read_events (linux_ops good_platform) mode)) (\<lambda>_. ret ()))
         [RELATIVE, AGGREGATED]),
       event_manager_delete (linux_ops good_platform)] (\<lparr>mgr_events = [], latest_samples = []\<rparr>, [])))
    in perf_opened good_platform t' = perf_closed t'"
  by (rule perf_descriptors_closed_once) (simp add: two_infos_def known_type_def)

theorem read_events_spec_witness:
  "read_events (ops_of dummy_impl) RELATIVE
     (\<lparr>mgr_events = [new_event zero_count () (hd two_infos)], latest_samples = [no_sample]\<rparr>, []) =
   (Inr [no_sample], (\<lparr>mgr_events = [new_event zero_count () (hd two_infos)], latest_samples = [no_sample]\<rparr>, []))"
proof -
  let ?e = "new_event zero_count () (hd two_infos)"
  let ?m = "\<lparr>mgr_events = [?e], latest_samples = [no_sample]\<rparr>"
  have read: "each (event_read dummy_impl) (mgr_events ?m, []) = (Inr [()], ([?e], []))"
    by (simp add: event_read_def dummy_impl_def dummy_read_def new_event_def put_ev_impl_def act_simps)
  have ok: "plausible (ev_prev e) (ev_count e)" if "e \<in> set [?e]" for e
    using that by (simp add: plausible_def new_event_def zero_count_def)
  have zero: "sample_of (minus_count zero_count zero_count) = no_sample"
    by (simp add: sample_of_def minus_count_def zero_count_def no_sample_def)
  have len: "length (latest_samples ?m) = length (mgr_events ?m)" by simp
  show ?thesis
    using read_events_spec [OF len read ok, of RELATIVE]
    by (simp add: Let_def new_event_def zero)
qed

end
