(* ===== verification/Pmc_Sampler.thy ===== *)
theory Pmc_Sampler
  imports Exec_Monitor Property_Tree Event_Manager "HOL-Library.Multiset"
begin

text \<open>
  \<open>exec_monitor/pmc_sampler\<close>: a monitor that attaches an event manager to every process it is
  told about and samples all of them in every turn.  It is a template over the manager; the two
  instances registered with the factory are the ones for \<open>event_linux_impl\<close> and
  \<open>event_dummy_impl\<close>.
\<close>

section \<open>State and operations\<close>

record 'e pmc_sampler =
  pmc_interval :: nat
  pmc_events :: "event_info list"
  event_managers :: "(int, 'e event_manager) smap"

text \<open>What the template uses of its parameter.\<close>

record 'e manager_ops =
  mo_new :: "event_info list \<Rightarrow> int \<Rightarrow> bool \<Rightarrow> ('e event_manager, unit) sys"
  mo_read :: "event_read_mode \<Rightarrow> ('e event_manager, event_sample list) sys"
  mo_delete :: "('e event_manager, unit) sys"

definition manager_of :: "'i event_impl \<Rightarrow> count_type \<Rightarrow> 'i \<Rightarrow> 'i event manager_ops" where
  "manager_of I junk impl_init =
     \<lparr>mo_new = event_manager_new (ops_of I) (default_event_factory junk impl_init),
      mo_read = read_events (ops_of I), mo_delete = event_manager_delete (ops_of I)\<rparr>"

definition no_manager :: "'e event_manager" where
  "no_manager = \<lparr>mgr_events = [], latest_samples = []\<rparr>"

definition put_event_managers :: "(int, 'e event_manager) smap \<Rightarrow> 'e pmc_sampler \<Rightarrow> 'e pmc_sampler" where
  "put_event_managers v s = s\<lparr>event_managers := v\<rparr>"

text \<open>
  The manager is built before the map is looked at; if the pid is already there, \<open>emplace\<close>
  destroys it again and the assertion fails.
\<close>

definition pmc_add_process :: "'e manager_ops \<Rightarrow> int \<Rightarrow> ('e pmc_sampler, unit) sys" where
  "pmc_add_process M pid st =
     (case mo_new M (pmc_events (fst st)) pid True (no_manager, snd st) of
        (Inl x, (_, t)) \<Rightarrow> (Inl x, (fst st, t))
      | (Inr _, (m, t)) \<Rightarrow>
          let res = smap_emplace pid m (event_managers (fst st));
              (_, (_, t')) = (if fst res then (Inr (), (m, t)) else mo_delete M (m, t))
          in block [modify (put_event_managers (snd res)), assert_that (\<lambda>_. fst res)] (fst st, t'))"

definition on_second_of_pair :: "('v, 'a) sys \<Rightarrow> ('k \<times> 'v, 'a) sys" where
  "on_second_of_pair = zoom snd (\<lambda>v p. (fst p, v))"

definition pmc_loop_impl :: "platform \<Rightarrow> 'e manager_ops \<Rightarrow> ('e pmc_sampler, unit) sys" where
  "pmc_loop_impl P M =
     block
       [act_bind (reading pmc_interval) (\<lambda>ms. discard (call P (Sleep_for ms))),
        zoom event_managers put_event_managers (discard (each (on_second_of_pair (mo_read M RELATIVE))))]"

definition pmc_sampler_new ::
    "platform \<Rightarrow> 'pt ptree_ops \<Rightarrow> 'e manager_ops \<Rightarrow> 'pt \<Rightarrow> ('e pmc_sampler monitor, unit) sys" where
  "pmc_sampler_new P T M properties =
     act_bind (lift_get (get_unsigned T properties ''exec_monitor.sampling_length'')) (\<lambda>ms.
       block
         [modify (\<lambda>_. exec_monitor_new
            \<lparr>pmc_interval = unat ms, pmc_events = [], event_managers = []\<rparr>),
          register_event_handler PROCESS_CREATED (\<lambda>event. pmc_add_process M (ev_pid event)),
          act_bind (lift_get (get_string T properties ''exec_monitor.event'')) (\<lambda>name.
            act_bind (create_generic_events P name) (\<lambda>default_events.
              on_impl (modify (\<lambda>s. s\<lparr>pmc_events :=
                [\<lparr>info_type = HARDWARE, info_code = cycles default_events, info_modifiers = EXCLUDE_NONE\<rparr>,
                 \<lparr>info_type = HARDWARE, info_code = instructions default_events,
                  info_modifiers = EXCLUDE_NONE\<rparr>]\<rparr>))))])"

text \<open>The destructor, after the thread has been joined: the managers in the map are destroyed.\<close>

definition pmc_sampler_delete :: "'e manager_ops \<Rightarrow> ('e pmc_sampler, unit) sys" where
  "pmc_sampler_delete M =
     zoom event_managers put_event_managers (discard (each (on_second_of_pair (mo_delete M))))"

abbreviation pmc_class :: "platform \<Rightarrow> 'e manager_ops \<Rightarrow> 'e pmc_sampler monitor_class" where
  "pmc_class P M \<equiv> plain_class (pmc_loop_impl P M)"

abbreviation pmc_handler :: "'e manager_ops \<Rightarrow> exec_event \<Rightarrow> ('e pmc_sampler, unit) sys" where
  "pmc_handler M \<equiv> \<lambda>event. pmc_add_process M (ev_pid event)"

definition linux_manager :: "platform \<Rightarrow> count_type \<Rightarrow> linux_event manager_ops" where
  "linux_manager P junk = manager_of (linux_impl P) junk event_linux_new"

definition dummy_manager :: "count_type \<Rightarrow> unit event manager_ops" where
  "dummy_manager junk = manager_of dummy_impl junk ()"

interpretation event_managers_member: lens event_managers put_event_managers
  by unfold_locales (simp_all add: put_event_managers_def)

section \<open>Linux: descriptors\<close>

text \<open>
  Descriptors opened, closed and held balance: what is opened is added to what is held, and what is
  closed is taken from it.
\<close>

definition accounted_rel :: "platform \<Rightarrow> ('s \<Rightarrow> int multiset) \<Rightarrow> 's \<times> syscall list \<Rightarrow> 's \<times> syscall list \<Rightarrow> bool" where
  "accounted_rel P h st st' \<longleftrightarrow>
     mset (perf_opened P (snd st')) + mset (perf_closed (snd st)) + h (fst st) =
     mset (perf_opened P (snd st)) + mset (perf_closed (snd st')) + h (fst st')"

lemma balance_trans:
  fixes a b c d e f g h k :: "'a multiset"
  assumes "b + d + g = a + e + h" and "c + e + h = b + f + k"
  shows "c + d + g = a + f + k"
proof -
  have "(c + d + g) + (b + e + h) = (b + d + g) + (c + e + h)" by (simp add: ac_simps)
  also have "\<dots> = (a + e + h) + (b + f + k)" using assms by simp
  also have "\<dots> = (a + f + k) + (b + e + h)" by (simp add: ac_simps)
  finally show ?thesis by (rule add_right_imp_eq)
qed

interpretation accounted: effect_rel "accounted_rel P h" for P h
  by unfold_locales (simp add: accounted_rel_def, unfold accounted_rel_def, rule balance_trans)

abbreviation accounted :: "platform \<Rightarrow> ('s \<Rightarrow> int multiset) \<Rightarrow> ('s, 'a) sys \<Rightarrow> bool" where
  "accounted P h \<equiv> abides (accounted_rel P h)"

definition sum_over :: "('e \<Rightarrow> int multiset) \<Rightarrow> 'e list \<Rightarrow> int multiset" where
  "sum_over h es = \<Sum>\<^sub># (image_mset h (mset es))"

lemma sum_over_simps [simp]: "sum_over h [] = {#}" "sum_over h (e # es) = h e + sum_over h es"
  by (simp_all add: sum_over_def)

lemma accounted_each:
  assumes "accounted P h m"
  shows "accounted P (sum_over h) (each m)"
proof (rule abidesI)
  fix es t r es' t'
  assume "each m (es, t) = (r, (es', t'))"
  then show "accounted_rel P (sum_over h) (es, t) (es', t')"
  proof (induction es arbitrary: t r es' t')
    case Nil
    then show ?case by (simp add: accounted_rel_def)
  next
    case (Cons e es)
    obtain r1 e1 t1 where m: "m (e, t) = (r1, (e1, t1))" by (metis prod.collapse)
    have "accounted_rel P h (e, t) (e1, t1)" by (rule abidesD [OF assms m])
    then have 1: "accounted_rel P (sum_over h) (e # es, t) (e1 # es, t1)"
      by (simp add: accounted_rel_def add.assoc [symmetric])
    show ?case
    proof (cases r1)
      case (Inl x)
      with Cons.prems m 1 show ?thesis by simp
    next
      case (Inr y)
      obtain r2 es2 t2 where rest: "each m (es, t1) = (r2, (es2, t2))" by (metis prod.collapse)
      from Cons.IH [OF rest] have 2: "accounted_rel P (sum_over h) (e1 # es, t1) (e1 # es2, t2)"
        by (auto simp: accounted_rel_def ac_simps)
      have "es' = e1 # es2 \<and> t' = t2" using Cons.prems m Inr rest by (auto split: sum.splits)
      with accounted.trans [OF 1 2] show ?thesis by simp
    qed
  qed
qed

lemma accounted_zoom:
  assumes "accounted P h m" and "\<And>s. h' s = h (get s)" and "\<And>v s. get (put v s) = v"
  shows "accounted P h' (zoom get put m)"
proof (rule abidesI)
  fix s t r s' t'
  assume "zoom get put m (s, t) = (r, (s', t'))"
  then obtain v where "m (get s, t) = (r, (v, t'))" "s' = put v s"
    by (auto simp: zoom_def split: prod.splits)
  with abidesD [OF assms(1)] show "accounted_rel P h' (s, t) (s', t')"
    by (auto simp: accounted_rel_def assms(2,3))
qed

definition manager_fds :: "linux_event event_manager \<Rightarrow> int multiset" where
  "manager_fds m = mset (fds (mgr_events m))"

definition all_fds :: "linux_event pmc_sampler \<Rightarrow> int multiset" where
  "all_fds s = sum_over (\<lambda>p. manager_fds (snd p)) (event_managers s)"

lemma accounted_read: "accounted P manager_fds (read_events (linux_ops P) mode)"
  by (rule abides_mono [OF read_same_fds])
    (simp add: same_fds_rel_def accounted_rel_def manager_fds_def)

lemma accounted_sleep: "accounted P h (call P (Sleep_for ms))"
  by (rule abidesI) (auto simp: accounted_rel_def act_simps)

lemma accounted_loop: "accounted P all_fds (pmc_loop_impl P (linux_manager P junk))"
proof -
  have "accounted P (\<lambda>p. manager_fds (snd p)) (on_second_of_pair (read_events (linux_ops P) RELATIVE))"
    unfolding on_second_of_pair_def by (rule accounted_zoom [OF accounted_read]) simp_all
  from accounted.resp_discard [OF accounted_each [OF this]]
  have "accounted P all_fds (zoom event_managers put_event_managers
      (discard (each (on_second_of_pair (read_events (linux_ops P) RELATIVE)))))"
    by (rule accounted_zoom) (simp_all add: all_fds_def put_event_managers_def)
  then show ?thesis
    by (auto simp: pmc_loop_impl_def linux_manager_def manager_of_def intro!: effects accounted_sleep)
qed

lemma sum_over_put:
  "k \<notin> fst ` set m \<Longrightarrow> sum_over h (smap_put k v m) = h (k, v) + sum_over h m"
  by (induction k v m rule: smap_put.induct) (auto simp: ac_simps)

lemma accounted_add:
  assumes "\<forall>info \<in> set (pmc_events s). known_type info"
    and "pmc_add_process (linux_manager P junk) pid (s, t) = (r, (s', t'))"
  shows "accounted_rel P all_fds (s, t) (s', t')"
proof -
  let ?M = "linux_manager P junk"
  obtain r1 m t1 where new: "mo_new ?M (pmc_events s) pid True (no_manager, t) = (r1, (m, t1))"
    by (metis prod.collapse)
  then have "event_manager_new (linux_ops P) (linux_factory junk) (pmc_events s) pid True (no_manager, t) =
      (r1, (m, t1))" by (simp add: linux_manager_def manager_of_def)
  from new_manager_account [OF _ this] assms(1)
  have acc: "if r1 = Inr ()
      then perf_opened P t1 = perf_opened P t @ fds (mgr_events m) \<and> perf_closed t1 = perf_closed t
      else \<exists>F. perf_opened P t1 = perf_opened P t @ F \<and> perf_closed t1 = perf_closed t @ F" by blast
  show ?thesis
  proof (cases r1)
    case (Inl x)
    with assms(2) new acc show ?thesis
      by (auto simp: pmc_add_process_def accounted_rel_def ac_simps)
  next
    case (Inr u)
    show ?thesis
    proof (cases "map_of (event_managers s) pid")
      case None
      then have "pid \<notin> fst ` set (event_managers s)" by (simp add: map_of_eq_None_iff)
      with assms(2) new acc Inr None show ?thesis
        by (auto simp: pmc_add_process_def Let_def smap_emplace_def act_simps put_event_managers_def
            accounted_rel_def all_fds_def sum_over_put manager_fds_def ac_simps)
    next
      case (Some m')
      obtain t2 where del: "mo_delete ?M (m, t1) = (Inr (), (put_mgr_events [] m, t2))"
          "perf_opened P t2 = perf_opened P t1" "perf_closed t2 = perf_closed t1 @ fds (mgr_events m)"
        using linux_manager_delete [of P m t1] by (auto simp: linux_manager_def manager_of_def)
      with assms(2) new acc Inr Some show ?thesis
        by (auto simp: pmc_add_process_def Let_def smap_emplace_def act_simps put_event_managers_def
            accounted_rel_def all_fds_def ac_simps)
    qed
  qed
qed

lemma set_smap_put_new: "k \<notin> fst ` set m \<Longrightarrow> set (smap_put k v m) = insert (k, v) (set m)"
  by (induction k v m rule: smap_put.induct) auto

text \<open>What the monitor's thread maintains on Linux.\<close>

definition pmc_account :: "platform \<Rightarrow> linux_event pmc_sampler \<times> syscall list \<Rightarrow> bool" where
  "pmc_account P st \<longleftrightarrow> (\<forall>info \<in> set (pmc_events (fst st)). known_type info) \<and>
     mset (perf_opened P (snd st)) = mset (perf_closed (snd st)) + all_fds (fst st)"

lemma account_step:
  "pmc_account P st \<Longrightarrow> accounted_rel P all_fds st st' \<Longrightarrow> pmc_events (fst st') = pmc_events (fst st) \<Longrightarrow>
     pmc_account P st'"
  by (auto simp: pmc_account_def accounted_rel_def ac_simps)

lemma pmc_events_kept:
  "keeps (\<lambda>s. pmc_events s = infos) (pmc_loop_impl P M)"
  "keeps (\<lambda>s. pmc_events s = infos) (pmc_add_process M pid)"
proof -
  have "keeps (\<lambda>s. pmc_events s = infos) (zoom event_managers put_event_managers m)" for m :: "(_, 'b) sys"
    by (rule keepsI) (auto simp: zoom_def put_event_managers_def split: prod.splits)
  then show "keeps (\<lambda>s. pmc_events s = infos) (pmc_loop_impl P M)"
    by (auto simp: pmc_loop_impl_def intro!: effects)
  show "keeps (\<lambda>s. pmc_events s = infos) (pmc_add_process M pid)"
    by (rule keepsI) (auto simp: pmc_add_process_def Let_def act_simps put_event_managers_def
        split: prod.splits sum.splits if_splits)
qed

lemma pmc_account_kept:
  "maintains (pmc_account P) (pmc_loop_impl P (linux_manager P junk))"
  "maintains (pmc_account P) (pmc_add_process (linux_manager P junk) pid)"
proof -
  show "maintains (pmc_account P) (pmc_loop_impl P (linux_manager P junk))"
    by (rule maintainsI, erule account_step, rule abidesD [OF accounted_loop], assumption)
      (auto dest: keepsD [OF pmc_events_kept(1)])
  show "maintains (pmc_account P) (pmc_add_process (linux_manager P junk) pid)"
  proof (rule maintainsI)
    fix s t r s' t'
    assume acc: "pmc_account P (s, t)" and run: "pmc_add_process (linux_manager P junk) pid (s, t) = (r, (s', t'))"
    from acc have "\<forall>info \<in> set (pmc_events s). known_type info" by (simp add: pmc_account_def)
    from account_step [OF acc accounted_add [OF this run]] keepsD [OF pmc_events_kept(2) run refl]
    show "pmc_account P (s', t')" by simp
  qed
qed

interpretation pmc_linux: monitor_impl "pmc_class P (linux_manager P junk)" "pmc_handler (linux_manager P junk)"
  "pmc_account P" for P junk
  by unfold_locales (simp_all add: plain_class_def pmc_account_kept)

lemma linux_each_manager_delete:
  "\<exists>us ms' t'. each (on_second_of_pair (event_manager_delete (linux_ops P))) (ms, t) = (Inr us, (ms', t')) \<and>
     perf_opened P t' = perf_opened P t \<and>
     mset (perf_closed t') = mset (perf_closed t) + sum_over (\<lambda>p. manager_fds (snd p)) ms \<and>
     sum_over (\<lambda>p. manager_fds (snd p)) ms' = {#}"
proof (induction ms arbitrary: t)
  case Nil
  then show ?case by simp
next
  case (Cons p ms)
  obtain t1 where "event_manager_delete (linux_ops P) (snd p, t) = (Inr (), (put_mgr_events [] (snd p), t1))"
      "perf_opened P t1 = perf_opened P t" "perf_closed t1 = perf_closed t @ fds (mgr_events (snd p))"
    using linux_manager_delete by blast
  moreover from Cons.IH [of t1] obtain us ms' t' where
    "each (on_second_of_pair (event_manager_delete (linux_ops P))) (ms, t1) = (Inr us, (ms', t'))"
    "perf_opened P t' = perf_opened P t1"
    "mset (perf_closed t') = mset (perf_closed t1) + sum_over (\<lambda>p. manager_fds (snd p)) ms"
    "sum_over (\<lambda>p. manager_fds (snd p)) ms' = {#}" by blast
  moreover from calculation have "on_second_of_pair (event_manager_delete (linux_ops P)) (p, t) =
      (Inr (), ((fst p, put_mgr_events [] (snd p)), t1))"
    by (simp add: on_second_of_pair_def zoom_def)
  ultimately show ?case
    by (intro exI [of _ "() # us"] exI [of _ "(fst p, put_mgr_events [] (snd p)) # ms'"] exI [of _ t'])
      (simp add: manager_fds_def ac_simps)
qed

section \<open>The dummy instance\<close>

text \<open>Events of the dummy class always read 0.\<close>

definition idle_manager :: "unit event event_manager \<Rightarrow> bool" where
  "idle_manager m \<longleftrightarrow> (\<forall>e \<in> set (mgr_events m). ev_prev e = zero_count)"

lemma dummy_read_manager:
  assumes "idle_manager m"
  shows "\<exists>xs m'. read_events (ops_of dummy_impl) RELATIVE (m, t) = (Inr xs, (m', t)) \<and> idle_manager m'"
proof -
  let ?zero = "\<lambda>e. e\<lparr>ev_count := zero_count\<rparr>"
  have read: "each (event_read dummy_impl) (es, t) = (Inr (map (\<lambda>_. ()) es), (map ?zero es, t))"
    for es :: "unit event list"
    by (induction es) (simp_all add: event_read_def dummy_impl_def dummy_read_def put_ev_impl_def act_simps)
  have "\<exists>xs' es'. scale_each (ops_of dummy_impl) RELATIVE (map ?zero es, xs) t = (Inr (), ((es', xs'), t)) \<and>
      (\<forall>e \<in> set es'. ev_prev e = zero_count)" if "\<forall>e \<in> set es. ev_prev e = zero_count" for es xs
    using that
  proof (induction es arbitrary: xs)
    case Nil
    then show ?case by simp
  next
    case (Cons e es)
    have ok: "plausible zero_count zero_count" "time_running zero_count \<le> time_enabled zero_count"
      by (simp_all add: plausible_def zero_count_def)
    show ?case
    proof (cases xs)
      case Nil
      with Cons.prems show ?thesis by simp
    next
      case xs: (Cons x xs')
      from Cons.IH [of xs'] Cons.prems obtain ys es' where
        "scale_each (ops_of dummy_impl) RELATIVE (map ?zero es, xs') t = (Inr (), ((es', ys), t))"
        "\<forall>e \<in> set es'. ev_prev e = zero_count" by auto
      with Cons.prems ok xs show ?thesis by (simp add: event_scale_run)
    qed
  qed
  from this [of "mgr_events m" "latest_samples m"] assms obtain ys es' where
    "scale_each (ops_of dummy_impl) RELATIVE (map ?zero (mgr_events m), latest_samples m) t = (Inr (), ((es', ys), t))"
    "\<forall>e \<in> set es'. ev_prev e = zero_count" by (auto simp: idle_manager_def)
  then show ?thesis
    by (simp add: read_events_def on_events_def zoom_def read discard_def act_bind_def ret_def
        scale_events_def reading_def idle_manager_def)
qed


lemma dummy_new_manager:
  assumes "\<forall>info \<in> set infos. valid_modifiers (info_modifiers info)"
  shows "\<exists>m'. mo_new (dummy_manager junk) infos pid attach (m, t) = (Inr (), (m', t)) \<and> idle_manager m'"
proof -
  have "each (event_open dummy_impl pid attach) (es, t) = (Inr (map (\<lambda>_. ()) es), (es, t))"
    for es :: "unit event list"
    by (induction es) (simp_all add: event_open_def dummy_impl_def dummy_open_def put_ev_impl_def act_simps)
  with assms show ?thesis
    by (auto simp: dummy_manager_def manager_of_def event_manager_new_def unwinding_def catching_def
        modify_def act_bind_def make_events on_events_def zoom_def discard_def ret_def idle_manager_def
        new_event_def)
qed

text \<open>
  Every announced process is either sampled or still to be handled, and none twice; \<open>A\<close> are all
  that ever will be announced.
\<close>

definition dummy_ready :: "int set \<Rightarrow> exec_event list \<Rightarrow> unit event pmc_sampler \<Rightarrow> bool" where
  "dummy_ready A evs s \<longleftrightarrow>
     smap_ok (event_managers s) \<and> (\<forall>info \<in> set (pmc_events s). valid_modifiers (info_modifiers info)) \<and>
     (\<forall>m \<in> snd ` set (event_managers s). idle_manager m) \<and> distinct (map ev_pid evs) \<and>
     fst ` set (event_managers s) \<inter> ev_pid ` set evs = {} \<and>
     fst ` set (event_managers s) \<union> ev_pid ` set evs = A"

lemma dummy_each_read:
  assumes "\<forall>m \<in> snd ` set ms. idle_manager m"
  shows "\<exists>xs ms'. each (on_second_of_pair (mo_read (dummy_manager junk) RELATIVE)) (ms, t) = (Inr xs, (ms', t)) \<and>
    (\<forall>m \<in> snd ` set ms'. idle_manager m) \<and> map fst ms' = map fst ms"
  using assms
proof (induction ms)
  case Nil
  then show ?case by simp
next
  case (Cons p ms)
  obtain xs m' where "mo_read (dummy_manager junk) RELATIVE (snd p, t) = (Inr xs, (m', t))" "idle_manager m'"
    using dummy_read_manager [of "snd p" t] Cons.prems by (auto simp: dummy_manager_def manager_of_def)
  then have "on_second_of_pair (mo_read (dummy_manager junk) RELATIVE) (p, t) = (Inr xs, ((fst p, m'), t))"
      "idle_manager m'"
    by (simp_all add: on_second_of_pair_def zoom_def)
  with Cons show ?case by auto
qed

lemma dummy_loop:
  assumes "dummy_ready A evs s"
  shows "\<exists>s' t'. pmc_loop_impl P (dummy_manager junk) (s, t) = (Inr (), (s', t')) \<and> dummy_ready A evs s'"
proof -
  have "\<forall>m \<in> snd ` set (event_managers s). idle_manager m" using assms by (simp add: dummy_ready_def)
  from dummy_each_read [OF this, of junk "t @ [Sleep_for (pmc_interval s)]"] obtain xs ms' where
    each: "each (on_second_of_pair (mo_read (dummy_manager junk) RELATIVE))
      (event_managers s, t @ [Sleep_for (pmc_interval s)]) = (Inr xs, (ms', t @ [Sleep_for (pmc_interval s)]))"
    and idle: "\<forall>m \<in> snd ` set ms'. idle_manager m" and keys: "map fst ms' = map fst (event_managers s)"
    by blast
  from arg_cong [OF keys, of set] have "fst ` set ms' = fst ` set (event_managers s)" by simp
  moreover from keys assms have "smap_ok ms'" by (simp add: dummy_ready_def smap_ok_def)
  ultimately show ?thesis using each idle assms
    by (simp add: pmc_loop_impl_def act_simps put_event_managers_def dummy_ready_def)
qed

lemma dummy_add:
  assumes "dummy_ready A (e # evs) s"
  shows "\<exists>s' t'. pmc_handler (dummy_manager junk) e (s, t) = (Inr (), (s', t')) \<and> dummy_ready A evs s'"
proof -
  obtain m where new: "mo_new (dummy_manager junk) (pmc_events s) (ev_pid e) True (no_manager, t) =
      (Inr (), (m, t))" and m: "idle_manager m"
    using dummy_new_manager assms by (metis dummy_ready_def)
  have fresh: "ev_pid e \<notin> fst ` set (event_managers s)" using assms by (auto simp: dummy_ready_def)
  then have "map_of (event_managers s) (ev_pid e) = None" by (simp add: map_of_eq_None_iff)
  then have run: "pmc_handler (dummy_manager junk) e (s, t) =
      (Inr (), (put_event_managers (smap_put (ev_pid e) m (event_managers s)) s, t))"
    using new by (simp add: pmc_add_process_def Let_def smap_emplace_def act_simps)
  note set_smap_put_new [OF fresh, of m]
  with assms m have "dummy_ready A evs (put_event_managers (smap_put (ev_pid e) m (event_managers s)) s)"
    by (auto simp: dummy_ready_def put_event_managers_def)
  with run show ?thesis by blast
qed

interpretation pmc_dummy: monitor_total "pmc_class P (dummy_manager junk)" "pmc_handler (dummy_manager junk)"
  "\<lambda>evs st. dummy_ready A evs (fst st)" for P junk A
proof unfold_locales
  fix evs and m :: "unit event pmc_sampler" and t :: "syscall list"
  assume "dummy_ready A evs (fst (m, t))"
  then show "\<exists>m' t'. loop_impl (pmc_class P (dummy_manager junk)) (m, t) = (Inr (), (m', t')) \<and>
      dummy_ready A evs (fst (m', t'))"
    using dummy_loop [of A evs m P junk t] by (simp add: plain_class_def)
next
  fix e evs and m :: "unit event pmc_sampler" and t :: "syscall list"
  assume "dummy_ready A (e # evs) (fst (m, t))"
  then show "\<exists>m' t'. pmc_handler (dummy_manager junk) e (m, t) = (Inr (), (m', t')) \<and>
      dummy_ready A evs (fst (m', t'))"
    using dummy_add [of A e evs m junk t] by simp
qed

section \<open>Properties\<close>

text \<open>
  C21. The Linux sampler leaks no counter.  Start its thread with no manager and let any events
  arrive at any time, some of them for processes that do not exist or that are reported a second
  time; let counters fail to open or to read.  However the thread ends, once the sampler is
  destroyed the event descriptors the kernel handed out, 0 excepted, are exactly those closed, each
  as often.
\<close>

theorem pmc_descriptors_balanced:
  assumes "registered (pmc_handler (linux_manager P junk)) s"
    and "\<forall>info \<in> set (pmc_events (impl s)). known_type info" and "event_managers (impl s) = []"
    and "monitor_thread (pmc_class P (linux_manager P junk)) False turns (s, []) = (r, (s', t'))"
    and "pmc_sampler_delete (linux_manager P junk) (impl s', t') = (r2, (m2, t2))"
  shows "r2 = Inr () \<and> mset (perf_opened P t2) = mset (perf_closed t2)"
proof -
  have "pmc_account P (impl s, [])" using assms(2,3) by (simp add: pmc_account_def all_fds_def)
  from pmc_linux.thread_keeps_inv [OF assms(1) this assms(4)]
  have acc: "mset (perf_opened P t') = mset (perf_closed t') + all_fds (impl s')"
    by (simp add: pmc_account_def)
  from linux_each_manager_delete [of P "event_managers (impl s')" t'] obtain us ms t3 where
    "each (on_second_of_pair (event_manager_delete (linux_ops P))) (event_managers (impl s'), t') =
       (Inr us, (ms, t3))"
    "perf_opened P t3 = perf_opened P t'"
    "mset (perf_closed t3) = mset (perf_closed t') + all_fds (impl s')"
    unfolding all_fds_def by blast
  with acc assms(5) show ?thesis
    by (auto simp: pmc_sampler_delete_def linux_manager_def manager_of_def zoom_def discard_def act_simps)
qed

text \<open>
  The dummy sampler follows every process.  If no process is reported twice, its thread returns
  whatever arrives when, and afterwards the processes that have a manager are exactly those that
  were announced, except for the ones whose event is still in the queue.
\<close>

theorem pmc_dummy_follows:
  assumes "registered (pmc_handler (dummy_manager junk)) s" and "event_managers (impl s) = []"
    and "\<forall>info \<in> set (pmc_events (impl s)). valid_modifiers (info_modifiers info)"
    and "distinct (map ev_pid (queue (event_queue s) @ concat (concat turns)))"
  shows "\<exists>s' t'. monitor_thread (pmc_class P (dummy_manager junk)) False turns (s, t) = (Inr (), (s', t')) \<and>
    fst ` set (event_managers (impl s')) =
      ev_pid ` set (queue (event_queue s) @ concat (concat turns)) - ev_pid ` set (queue (event_queue s'))"
proof -
  let ?all = "queue (event_queue s) @ concat (concat turns)"
  have "dummy_ready (ev_pid ` set ?all) ?all (fst (impl s, t))"
    using assms(2-4) by (simp add: dummy_ready_def)
  from pmc_dummy.thread_returns [OF assms(1) this, of P] obtain s' t' where
    "monitor_thread (pmc_class P (dummy_manager junk)) False turns (s, t) = (Inr (), (s', t'))"
    and ready: "dummy_ready (ev_pid ` set ?all) (queue (event_queue s')) (impl s')" by auto
  moreover from ready have "fst ` set (event_managers (impl s')) =
      ev_pid ` set ?all - ev_pid ` set (queue (event_queue s'))"
    unfolding dummy_ready_def by blast
  ultimately show ?thesis by blast
qed

text \<open>A sampler of two events, told of the processes 7, 7 and 8.\<close>

definition sampler_example ::
    "'e manager_ops \<Rightarrow> int list \<Rightarrow> 'e pmc_sampler monitor" where
  "sampler_example M pids =
     (exec_monitor_new \<lparr>pmc_interval = 500, pmc_events = two_infos, event_managers = []\<rparr>)\<lparr>
       initialized := True, event_queue := \<lparr>queue = map (\<lambda>p. no_event\<lparr>ev_pid := p\<rparr>) pids\<rparr>,
       event_handlers := [(PROCESS_CREATED, pmc_handler M)]\<rparr>"

lemma sampler_example_simps:
  "registered (pmc_handler M) (sampler_example M pids)"
  "pmc_events (impl (sampler_example M pids)) = two_infos"
  "event_managers (impl (sampler_example M pids)) = []"
  "queue (event_queue (sampler_example M pids)) = map (\<lambda>p. no_event\<lparr>ev_pid := p\<rparr>) pids"
  by (simp_all add: sampler_example_def registered_def exec_monitor_new_def)

theorem pmc_descriptors_balanced_witness:
  "\<exists>r s' t' r2 m2 t2. monitor_thread (pmc_class good_platform (linux_manager good_platform zero_count)) False [[], []]
      (sampler_example (linux_manager good_platform zero_count) [7, 7, 8], []) = (r, (s', t')) \<and>
    pmc_sampler_delete (linux_manager good_platform zero_count) (impl s', t') = (r2, (m2, t2)) \<and>
    mset (perf_opened good_platform t2) = mset (perf_closed t2)"
proof -
  let ?M = "linux_manager good_platform zero_count"
  obtain r s' t' where run: "monitor_thread (pmc_class good_platform ?M) False [[], []]
      (sampler_example ?M [7, 7, 8], []) = (r, (s', t'))" by (metis prod.collapse)
  obtain r2 m2 t2 where del: "pmc_sampler_delete ?M (impl s', t') = (r2, (m2, t2))" by (metis prod.collapse)
  have "\<forall>info \<in> set (pmc_events (impl (sampler_example ?M [7, 7, 8]))). known_type info"
    by (simp add: sampler_example_simps two_infos_def known_type_def)
  from pmc_descriptors_balanced [OF sampler_example_simps(1) this sampler_example_simps(3) run del] run del
  show ?thesis by blast
qed

theorem pmc_dummy_follows_witness:
  "\<exists>s' t'. monitor_thread (pmc_class good_platform (dummy_manager zero_count)) False [[], [[no_event]]]
      (sampler_example (dummy_manager zero_count) [7, 8], []) = (Inr (), (s', t')) \<and>
    fst ` set (event_managers (impl s')) = {7, 8, 0} - ev_pid ` set (queue (event_queue s'))"
proof -
  let ?M = "dummy_manager zero_count"
  have "\<forall>info \<in> set (pmc_events (impl (sampler_example ?M [7, 8]))). valid_modifiers (info_modifiers info)"
    by (simp add: sampler_example_simps two_infos_def valid_modifiers_def EXCLUDE_NONE_def EXCLUDE_USER_def
        EXCLUDE_KERNEL_def EXCLUDE_HV_def)
  from pmc_dummy_follows [OF sampler_example_simps(1,3) this, of "[[], [[no_event]]]" good_platform "[]"]
  show ?thesis by (simp add: sampler_example_simps no_event_def)
qed

end
