(* ===== verification/Exec_Manager.thy ===== *)
theory Exec_Manager
  imports Factory Simple_Monitor Cpu_Hopper Pmc_Sampler
begin

text \<open>
  \<open>core/exec_manager\<close>, the base class of execution managers, and the execution monitors
  registered with the factory.  A manager owns its monitor through a pointer to the base class;
  here it keeps the monitor together with its table of virtual functions and its destructor.
\<close>

section \<open>Monitors behind a base pointer\<close>

record 'm made_monitor =
  made_class :: "'m monitor_class"
  made_object :: "'m monitor"
  made_delete :: "('m monitor, unit) sys"

text \<open>The derived classes of the program.\<close>

datatype any_monitor =
    Any_simple simple_monitor
  | Any_hopper cpu_hopper
  | Any_linux "linux_event pmc_sampler"
  | Any_dummy "unit event pmc_sampler"

text \<open>
  A derived object seen as one of any class: \<open>wrap\<close> is the constructor of \<open>any_monitor\<close> and \<open>out\<close>
  its inverse.
\<close>

definition embed :: "('m \<Rightarrow> 'a) \<Rightarrow> ('a \<Rightarrow> 'm) \<Rightarrow> ('m, 'x) sys \<Rightarrow> ('a, 'x) sys" where
  "embed wrap out = zoom out (\<lambda>v _. wrap v)"

definition embed_class :: "('m \<Rightarrow> 'a) \<Rightarrow> ('a \<Rightarrow> 'm) \<Rightarrow> 'm monitor_class \<Rightarrow> 'a monitor_class" where
  "embed_class wrap out V =
     \<lparr>initialize_impl = embed wrap out (initialize_impl V), finalize_impl = embed wrap out (finalize_impl V),
      prepare_impl = embed wrap out (prepare_impl V), loop_impl = embed wrap out (loop_impl V)\<rparr>"

definition embed_monitor :: "('m \<Rightarrow> 'a) \<Rightarrow> ('a \<Rightarrow> 'm) \<Rightarrow> 'm monitor \<Rightarrow> 'a monitor" where
  "embed_monitor wrap out s =
     \<lparr>initialized = initialized s, thread_joinable = thread_joinable s, event_queue = event_queue s,
      event_handlers = map (\<lambda>(type, h). (type, \<lambda>e. embed wrap out (h e))) (event_handlers s),
      impl = wrap (impl s)\<rparr>"

text \<open>
  \<open>std::make_unique\<close> of a derived class: storage \<open>raw\<close> is allocated and the constructor run on it.
  The destructor destroys the members of the derived class (\<open>del\<close>), then those of the base class.
\<close>

definition make_monitor ::
    "('m \<Rightarrow> 'a) \<Rightarrow> ('a \<Rightarrow> 'm) \<Rightarrow> 'm monitor_class \<Rightarrow> ('m, unit) sys \<Rightarrow> ('m monitor, unit) sys \<Rightarrow> 'm monitor
     \<Rightarrow> ('s, 'a made_monitor) sys" where
  "make_monitor wrap out V del ctor raw st =
     (case ctor (raw, snd st) of
        (Inl e, (_, t)) \<Rightarrow> (Inl e, (fst st, t))
      | (Inr _, (m, t)) \<Rightarrow>
          (Inr \<lparr>made_class = embed_class wrap out V, made_object = embed_monitor wrap out m,
             made_delete = block [on_impl (embed wrap out del), monitor_delete]\<rparr>, (fst st, t)))"

text \<open>Storage no constructor has run on yet.\<close>

definition raw_simple :: simple_monitor where
  "raw_simple = \<lparr>sm_sampling_interval = 0\<rparr>"

definition raw_hopper :: cpu_hopper where
  "raw_hopper = \<lparr>sampling_interval = 0, cpu_mapping = [], allocated_cpus = []\<rparr>"

definition raw_sampler :: "'e pmc_sampler" where
  "raw_sampler = \<lparr>pmc_interval = 0, pmc_events = [], event_managers = []\<rparr>"

fun as_simple :: "any_monitor \<Rightarrow> simple_monitor" where
  "as_simple (Any_simple m) = m"
| "as_simple _ = raw_simple"

fun as_hopper :: "any_monitor \<Rightarrow> cpu_hopper" where
  "as_hopper (Any_hopper m) = m"
| "as_hopper _ = raw_hopper"

fun as_linux :: "any_monitor \<Rightarrow> linux_event pmc_sampler" where
  "as_linux (Any_linux m) = m"
| "as_linux _ = raw_sampler"

fun as_dummy :: "any_monitor \<Rightarrow> unit event pmc_sampler" where
  "as_dummy (Any_dummy m) = m"
| "as_dummy _ = raw_sampler"

type_synonym ('pt, 's) monitor_creator = "'pt \<Rightarrow> ('s, any_monitor made_monitor) sys"

definition simple_monitor_creator :: "platform \<Rightarrow> 'pt ptree_ops \<Rightarrow> ('pt, 's) monitor_creator" where
  "simple_monitor_creator P T properties =
     make_monitor Any_simple as_simple (simple_class P) (ret ()) (simple_monitor_new T properties)
       (exec_monitor_new raw_simple)"

definition cpu_hopper_creator :: "platform \<Rightarrow> 'pt ptree_ops \<Rightarrow> ('pt, 's) monitor_creator" where
  "cpu_hopper_creator P T properties =
     make_monitor Any_hopper as_hopper (hopper_class P) (ret ()) (cpu_hopper_new P T properties)
       (exec_monitor_new raw_hopper)"

definition pmc_linux_creator :: "platform \<Rightarrow> 'pt ptree_ops \<Rightarrow> count_type \<Rightarrow> ('pt, 's) monitor_creator" where
  "pmc_linux_creator P T junk properties =
     (let M = linux_manager P junk
      in make_monitor Any_linux as_linux (pmc_class P M) (pmc_sampler_delete M)
        (pmc_sampler_new P T M properties) (exec_monitor_new raw_sampler))"

definition pmc_dummy_creator :: "platform \<Rightarrow> 'pt ptree_ops \<Rightarrow> count_type \<Rightarrow> ('pt, 's) monitor_creator" where
  "pmc_dummy_creator P T junk properties =
     (let M = dummy_manager junk
      in make_monitor Any_dummy as_dummy (pmc_class P M) (pmc_sampler_delete M)
        (pmc_sampler_new P T M properties) (exec_monitor_new raw_sampler))"

text \<open>The static \<open>registar\<close> objects; the sampler for Linux is compiled in only there.\<close>

definition simple_monitor_registar :: "platform \<Rightarrow> 'pt ptree_ops \<Rightarrow> string \<times> ('pt, 's) monitor_creator" where
  "simple_monitor_registar P T = (''simple'', simple_monitor_creator P T)"

definition cpu_hopper_registar :: "platform \<Rightarrow> 'pt ptree_ops \<Rightarrow> string \<times> ('pt, 's) monitor_creator" where
  "cpu_hopper_registar P T = (''cpu-hopper'', cpu_hopper_creator P T)"

definition pmc_sampler_linux_registar ::
    "platform \<Rightarrow> 'pt ptree_ops \<Rightarrow> count_type \<Rightarrow> string \<times> ('pt, 's) monitor_creator" where
  "pmc_sampler_linux_registar P T junk = (''pmc-sampler[linux]'', pmc_linux_creator P T junk)"

definition pmc_sampler_dummy_registar ::
    "platform \<Rightarrow> 'pt ptree_ops \<Rightarrow> count_type \<Rightarrow> string \<times> ('pt, 's) monitor_creator" where
  "pmc_sampler_dummy_registar P T junk = (''pmc-sampler[dummy]'', pmc_dummy_creator P T junk)"

definition monitor_registars ::
    "platform \<Rightarrow> 'pt ptree_ops \<Rightarrow> count_type \<Rightarrow> (string \<times> ('pt, 's) monitor_creator) list" where
  "monitor_registars P T junk =
     [simple_monitor_registar P T, cpu_hopper_registar P T] @
     (case host P of Linux \<Rightarrow> [pmc_sampler_linux_registar P T junk] | Mac \<Rightarrow> []) @
     [pmc_sampler_dummy_registar P T junk]"

section \<open>The manager\<close>

record 'm exec_manager =
  exec_monitor :: "'m made_monitor"
  execution_ended :: bool

definition put_object :: "'m monitor \<Rightarrow> ('m, 'z) exec_manager_scheme \<Rightarrow> ('m, 'z) exec_manager_scheme" where
  "put_object v s = s\<lparr>exec_monitor := (exec_monitor s)\<lparr>made_object := v\<rparr>\<rparr>"

text \<open>A call through the pointer to the base class.\<close>

definition on_monitor ::
    "('m made_monitor \<Rightarrow> ('m monitor, 'a) sys) \<Rightarrow> (('m, 'z) exec_manager_scheme, 'a) sys" where
  "on_monitor f =
     act_bind (reading exec_monitor) (\<lambda>p. zoom (\<lambda>s. made_object (exec_monitor s)) put_object (f p))"

text \<open>The constructor; \<open>F\<close> is the table of the factory for monitors.\<close>

definition exec_manager_new ::
    "'pt ptree_ops \<Rightarrow> ('pt \<Rightarrow> (('m, 'z) exec_manager_scheme, 'm made_monitor) sys) factory \<Rightarrow> 'pt
     \<Rightarrow> (('m, 'z) exec_manager_scheme, unit) sys" where
  "exec_manager_new T F properties =
     act_bind (lift_get (get_string T properties ''exec_monitor.type'')) (\<lambda>ident.
       act_bind (factory_create F ident properties) (\<lambda>p.
         modify (\<lambda>s. s\<lparr>exec_monitor := p, execution_ended := False\<rparr>)))"

definition is_execution_over :: "('m, 'z) exec_manager_scheme \<Rightarrow> bool" where
  "is_execution_over s = execution_ended s"

definition execution_end :: "(('m, 'z) exec_manager_scheme, unit) sys" where
  "execution_end = modify (\<lambda>s. s\<lparr>execution_ended := True\<rparr>)"

definition exec_manager_start ::
    "(('m, 'z) exec_manager_scheme, unit) sys \<Rightarrow> (('m, 'z) exec_manager_scheme, unit) sys" where
  "exec_manager_start start_impl =
     block [on_monitor (\<lambda>p. monitor_initialize (made_class p)), start_impl]"

definition prepare_exec_monitor :: "(('m, 'z) exec_manager_scheme, unit) sys" where
  "prepare_exec_monitor = on_monitor (\<lambda>p. monitor_prepare (made_class p))"

definition start_exec_monitor :: "(('m, 'z) exec_manager_scheme, unit) sys" where
  "start_exec_monitor = on_monitor (\<lambda>_. monitor_start)"

text \<open>The thread of the monitor has some turns; the guard of its loop is the flag of the manager.\<close>

definition let_monitor_run :: "exec_event list list list \<Rightarrow> (('m, 'z) exec_manager_scheme, unit) sys" where
  "let_monitor_run turns =
     act_bind (reading is_execution_over) (\<lambda>over. on_monitor (\<lambda>p. monitor_run (made_class p) over turns))"

definition stop_exec_monitor :: "(('m, 'z) exec_manager_scheme, unit) sys" where
  "stop_exec_monitor =
     block [act_bind (reading is_execution_over) (\<lambda>over. on_monitor (\<lambda>_. monitor_join over)),
            on_monitor (\<lambda>p. monitor_finalize (made_class p))]"

definition notify_process_creation :: "int \<Rightarrow> (('m, 'z) exec_manager_scheme, unit) sys" where
  "notify_process_creation pid = on_monitor (\<lambda>_. enqueue_event \<lparr>ev_type = PROCESS_CREATED, ev_pid = pid\<rparr>)"

text \<open>The destructor: what remains of the base object is its monitor.\<close>

definition exec_manager_delete :: "(('m, 'z) exec_manager_scheme, unit) sys" where
  "exec_manager_delete = on_monitor made_delete"


interpretation made_object_member: lens "\<lambda>s. made_object (exec_monitor s)" put_object
  by unfold_locales (simp_all add: put_object_def)

section \<open>What monitors may ask of the system\<close>

text \<open>Sleeping, binding processes to CPUs, and performance counters.\<close>

definition monitor_calls :: "syscall set" where
  "monitor_calls = range Sleep_for \<union> range Sys_close \<union> {c. \<exists>p n. c = Sys_sched_setaffinity p n} \<union>
     {c. \<exists>a p. c = Sys_perf_event_open a p} \<union> {c. \<exists>fd n. c = Sys_read fd n}"

lemma monitor_calls_simps [simp]:
  "Sleep_for n \<in> monitor_calls" "Sys_close fd \<in> monitor_calls" "Sys_sched_setaffinity p c \<in> monitor_calls"
  "Sys_perf_event_open a p \<in> monitor_calls" "Sys_read fd n \<in> monitor_calls"
  "Sys_waitpid p \<notin> monitor_calls" "Sys_fork \<notin> monitor_calls" "Sys_kill p g \<notin> monitor_calls"
  "Sys_write fd bs \<notin> monitor_calls" "Sys_execvp f as \<notin> monitor_calls"
  by (auto simp: monitor_calls_def)

definition quiet_class :: "'m monitor_class \<Rightarrow> bool" where
  "quiet_class V \<longleftrightarrow> emits monitor_calls (initialize_impl V) \<and> emits monitor_calls (finalize_impl V) \<and>
     emits monitor_calls (prepare_impl V) \<and> emits monitor_calls (loop_impl V)"

definition quiet_monitor :: "(exec_event \<Rightarrow> ('m, unit) sys) \<Rightarrow> 'm made_monitor \<Rightarrow> bool" where
  "quiet_monitor h p \<longleftrightarrow> quiet_class (made_class p) \<and> registered h (made_object p) \<and>
     (\<forall>e. emits monitor_calls (h e)) \<and> emits monitor_calls (made_delete p)"

lemma emits_embed [effects]: "emits C m \<Longrightarrow> emits C (embed wrap out m)"
  unfolding embed_def by (rule emits_zoom)

lemma emits_each [effects]:
  assumes "emits C m"
  shows "emits C (each m)"
proof (rule abidesI)
  fix es t r es' t'
  assume "each m (es, t) = (r, (es', t'))"
  then show "emits_rel C (es, t) (es', t')"
  proof (induction es arbitrary: t r es' t')
    case Nil
    then show ?case by (simp add: emits_rel_def)
  next
    case (Cons e es)
    obtain r1 e1 t1 where m: "m (e, t) = (r1, (e1, t1))" by (metis prod.collapse)
    with emitsD [OF assms] have 1: "emits_rel C (e, t) (e1, t1)" by (simp add: emits_rel_def)
    obtain r2 es2 t2 where rest: "each m (es, t1) = (r2, (es2, t2))" by (metis prod.collapse)
    from Cons.IH [OF rest] have "emits_rel C (es, t1) (es2, t2)" .
    with 1 have "emits_rel C (e # es, t) (e1 # es2, t2)" by (auto simp: emits_rel_def)
    moreover from 1 have "emits_rel C (e # es, t) (e1 # es, t1)" by (auto simp: emits_rel_def)
    ultimately show ?case using Cons.prems m rest by (cases r1) (auto split: sum.splits)
  qed
qed

lemma emits_silent: "(\<And>s t r s' t'. m (s, t) = (r, (s', t')) \<Longrightarrow> t' = t) \<Longrightarrow> emits C m"
  by (rule abidesI) (fastforce simp: emits_rel_def)

lemma quiet_plain: "emits monitor_calls loop \<Longrightarrow> quiet_class (plain_class loop)"
  by (auto simp: quiet_class_def plain_class_def intro!: effects)

lemma quiet_embed: "quiet_class V \<Longrightarrow> quiet_class (embed_class wrap out V)"
  by (auto simp: quiet_class_def embed_class_def intro!: effects)

lemma emits_hopper:
  assumes "range Sleep_for \<union> {c. \<exists>p n. c = Sys_sched_setaffinity p n} \<subseteq> C"
  shows "emits C (hopper_loop_impl P)" and "emits C (hopper_add_process P pid)"
proof -
  have bind: "emits C (bind_process P pid cpu)" for pid cpu
    by (rule abidesI) (use assms in \<open>auto simp: bind_process_run bind_calls_def emits_rel_def split: host_os.splits\<close>)
  have sleep: "emits C (call P (Sleep_for ms))" for ms using assms by (intro effects) auto
  have find: "emits C find_available_cpu"
    by (rule emits_silent) (auto simp: find_available_run split: if_splits)
  show "emits C (hopper_add_process P pid)"
    by (auto simp: hopper_add_process_def intro!: effects bind find)
  show "emits C (hopper_loop_impl P)"
    by (auto simp: hopper_loop_impl_def hop_processes_def hop_one_def hop_process_def
        intro!: effects bind find sleep split: option.split)
qed

text \<open>The operations of an event manager, for the two kinds of counter.\<close>

definition quiet_counter :: "syscall set \<Rightarrow> 'i event_impl \<Rightarrow> bool" where
  "quiet_counter C I \<longleftrightarrow> (\<forall>info pid attach. emits C (impl_open I info pid attach)) \<and>
     emits C (impl_read I) \<and> emits C (impl_delete I)"

lemma quiet_counters: "quiet_counter monitor_calls (linux_impl P)" "quiet_counter C dummy_impl"
proof -
  have close: "emits monitor_calls (linux_close P)"
    by (auto simp: linux_close_def intro!: effects)
  show "quiet_counter monitor_calls (linux_impl P)"
    by (auto simp: quiet_counter_def linux_impl_def linux_open_def linux_read_def linux_delete_def
        intro!: effects close split: perf_event_type.split)
  show "quiet_counter C dummy_impl"
    by (auto simp: quiet_counter_def dummy_impl_def dummy_open_def dummy_read_def dummy_close_def intro!: effects)
qed

lemma emits_unwinding [effects]: "emits C m \<Longrightarrow> emits C c \<Longrightarrow> emits C (unwinding m c)"
  unfolding unwinding_def by (intro effects) simp_all

lemma emits_manager:
  assumes "quiet_counter C I"
  shows "emits C (mo_new (manager_of I junk i) infos pid attach)"
    and "emits C (mo_read (manager_of I junk i) mode)"
    and "emits C (mo_delete (manager_of I junk i))"
proof -
  have del: "emits C (event_manager_delete (ops_of I))"
    using assms by (auto simp: event_manager_delete_def on_events_def event_delete_def quiet_counter_def
        intro!: effects)
  then show "emits C (mo_delete (manager_of I junk i))" by (simp add: manager_of_def)
  have "emits C (default_event_factory junk i info)" for info
    by (rule emits_silent) (auto simp: default_factory_run split: if_splits)
  with assms del show "emits C (mo_new (manager_of I junk i) infos pid attach)"
    by (auto simp: manager_of_def event_manager_new_def on_events_def event_open_def quiet_counter_def
        intro!: effects)
  have "scale_each (ops_of I) mode st t = (r, (st', t')) \<Longrightarrow> t' = t" for st t r st' t'
    by (induction "ops_of I" mode st t arbitrary: r st' t' rule: scale_each.induct)
      (fastforce split: prod.splits sum.splits dest: event_scale_silent)+
  then have "emits C (scale_events (ops_of I) mode)"
    by (intro emits_silent) (auto simp: scale_events_def split: prod.splits)
  with assms show "emits C (mo_read (manager_of I junk i) mode)"
    by (auto simp: manager_of_def read_events_def on_events_def event_read_def quiet_counter_def
        intro!: effects)
qed

lemma emits_pmc:
  assumes sleep: "range Sleep_for \<subseteq> C" and "\<And>infos pid. emits C (mo_new M infos pid True)"
    and "emits C (mo_read M RELATIVE)" and "emits C (mo_delete M)"
  shows "emits C (pmc_loop_impl P M)" and "emits C (pmc_add_process M pid)"
    and "emits C (pmc_sampler_delete M)"
proof -
  have "Sleep_for ms \<in> C" for ms using sleep by auto
  then show "emits C (pmc_loop_impl P M)"
    using assms(3) by (auto simp: pmc_loop_impl_def on_second_of_pair_def intro!: effects)
  show "emits C (pmc_sampler_delete M)"
    using assms(4) by (auto simp: pmc_sampler_delete_def on_second_of_pair_def intro!: effects)
  show "emits C (pmc_add_process M pid)"
  proof (rule abidesI)
    fix s t r s' t'
    assume run: "pmc_add_process M pid (s, t) = (r, (s', t'))"
    obtain r1 m t1 where new: "mo_new M (pmc_events s) pid True (no_manager, t) = (r1, (m, t1))"
      by (metis prod.collapse)
    obtain r2 m2 t2 where del: "mo_delete M (m, t1) = (r2, (m2, t2))" by (metis prod.collapse)
    have "t' = t1 \<or> t' = t2"
      using run new del by (auto simp: pmc_add_process_def Let_def act_simps split: sum.splits if_splits)
    with emitsD [OF assms(2) new] emitsD [OF assms(4) del]
    show "emits_rel C (s, t) (s', t')" by (auto simp: emits_rel_def)
  qed
qed

text \<open>What a constructor of a derived monitor delivers.\<close>

definition new_monitor :: "(exec_event \<Rightarrow> ('m, unit) sys) \<Rightarrow> 'm made_monitor \<Rightarrow> bool" where
  "new_monitor h p \<longleftrightarrow> quiet_monitor h p \<and> queue (event_queue (made_object p)) = [] \<and>
     \<not> initialized (made_object p) \<and> \<not> thread_joinable (made_object p)"

definition delivers :: "(exec_event \<Rightarrow> ('m, unit) sys) \<Rightarrow> ('m monitor, unit) sys \<Rightarrow> 'm monitor \<Rightarrow> bool" where
  "delivers h ctor raw \<longleftrightarrow> (\<forall>t r m t'. ctor (raw, t) = (r, (m, t')) \<longrightarrow> t' = t \<and> (r = Inr () \<longrightarrow>
     registered h m \<and> queue (event_queue m) = [] \<and> \<not> initialized m \<and> \<not> thread_joinable m))"

lemma made_is_new:
  assumes "quiet_class V" and "emits monitor_calls del" and "\<And>e. emits monitor_calls (h e)"
    and "delivers h ctor raw"
    and "make_monitor wrap out V del ctor raw (s, t) = (r, (s', t'))"
  shows "s' = s \<and> t' = t \<and> (\<forall>p. r = Inr p \<longrightarrow> new_monitor (\<lambda>e. embed wrap out (h e)) p)"
proof -
  obtain r1 m t1 where c: "ctor (raw, t) = (r1, (m, t1))" by (metis prod.collapse)
  from assms(4) c have t1: "t1 = t" and m: "r1 = Inr () \<Longrightarrow> registered h m \<and>
      queue (event_queue m) = [] \<and> \<not> initialized m \<and> \<not> thread_joinable m" by (simp_all add: delivers_def)
  have quiet: "emits monitor_calls (block [on_impl (embed wrap out del), monitor_delete])"
    using assms(2) by (auto simp: on_impl_def monitor_delete_def intro!: effects)
  show ?thesis
  proof (cases r1)
    case (Inl x)
    with c t1 assms(5) show ?thesis by (auto simp: make_monitor_def)
  next
    case (Inr u)
    with c t1 assms(1,3,5) m quiet show ?thesis
      by (auto simp: make_monitor_def new_monitor_def quiet_monitor_def embed_monitor_def registered_def
          intro!: quiet_embed effects)
  qed
qed

lemma constructors_deliver:
  "delivers (\<lambda>e. simple_add_process (ev_pid e)) (simple_monitor_new T properties) raw1"
  "delivers (hopper_handler P) (cpu_hopper_new P T properties) raw2"
  "delivers (pmc_handler M) (pmc_sampler_new P T M properties) raw3"
  by (auto simp: delivers_def simple_monitor_new_def cpu_hopper_new_def pmc_sampler_new_def lift_get_def
      register_event_handler_def smap_emplace_def exec_monitor_new_def registered_def cq_empty_def
      create_generic_events_def on_impl_def put_impl_def act_simps Let_def
      split: sum.splits option.splits)

lemma registered_monitors_new:
  assumes "(ident, c) \<in> set (monitor_registars P T junk)" and "c properties (s, t) = (r, (s', t'))"
  shows "s' = s \<and> t' = t \<and> (\<forall>p. r = Inr p \<longrightarrow> (\<exists>h. new_monitor h p))"
proof -
  have simple: "emits monitor_calls (simple_loop_impl P)" "emits monitor_calls (simple_add_process pid)" for pid
    by (auto simp: simple_loop_impl_def simple_add_process_def intro!: effects)
  have "range Sleep_for \<union> {c. \<exists>p n. c = Sys_sched_setaffinity p n} \<subseteq> monitor_calls" by (auto simp: monitor_calls_def)
  note hopper = emits_hopper [OF this]
  have sleep: "range Sleep_for \<subseteq> monitor_calls" by auto
  note linux = emits_pmc [where M = "linux_manager P junk", unfolded linux_manager_def,
    OF sleep emits_manager [OF quiet_counters(1)], folded linux_manager_def]
  note dummy = emits_pmc [where M = "dummy_manager junk", unfolded dummy_manager_def,
    OF sleep emits_manager [OF quiet_counters(2)], folded dummy_manager_def]
  note new = made_is_new [OF quiet_plain]
  have ret: "emits monitor_calls (ret ())" by (intro effects)
  from assms(1) consider "c = simple_monitor_creator P T" | "c = cpu_hopper_creator P T"
    | "c = pmc_linux_creator P T junk" | "c = pmc_dummy_creator P T junk"
    by (auto simp: monitor_registars_def simple_monitor_registar_def cpu_hopper_registar_def
        pmc_sampler_linux_registar_def pmc_sampler_dummy_registar_def split: host_os.splits)
  then show ?thesis
  proof cases
    case 1
    with assms(2) have "make_monitor Any_simple as_simple (simple_class P) (ret ()) (simple_monitor_new T properties)
        (exec_monitor_new raw_simple) (s, t) = (r, (s', t'))" by (simp add: simple_monitor_creator_def)
    from new [OF simple(1) ret simple(2) constructors_deliver(1) this] show ?thesis by blast
  next
    case 2
    with assms(2) have "make_monitor Any_hopper as_hopper (hopper_class P) (ret ()) (cpu_hopper_new P T properties)
        (exec_monitor_new raw_hopper) (s, t) = (r, (s', t'))" by (simp add: cpu_hopper_creator_def)
    from new [OF hopper(1) ret hopper(2) constructors_deliver(2) this] show ?thesis by blast
  next
    case 3
    with assms(2) have "make_monitor Any_linux as_linux (pmc_class P (linux_manager P junk)) (pmc_sampler_delete (linux_manager P junk))
        (pmc_sampler_new P T (linux_manager P junk) properties) (exec_monitor_new raw_sampler) (s, t) = (r, (s', t'))" by (simp add: pmc_linux_creator_def Let_def)
    from new [OF linux(1,3,2) constructors_deliver(3) this] show ?thesis by blast
  next
    case 4
    with assms(2) have "make_monitor Any_dummy as_dummy (pmc_class P (dummy_manager junk)) (pmc_sampler_delete (dummy_manager junk))
        (pmc_sampler_new P T (dummy_manager junk) properties) (exec_monitor_new raw_sampler) (s, t) = (r, (s', t'))" by (simp add: pmc_dummy_creator_def Let_def)
    from new [OF dummy(1,3,2) constructors_deliver(3) this] show ?thesis by blast
  qed
qed

text \<open>
  C28. Monitors keep to themselves.  Whatever monitor the factory creates for a configuration, its
  constructor makes no system call, it comes out uninitialised and not started, with an empty queue and
  a handler for new processes; and no function of it ever does anything but sleep, bind processes
  to CPUs and use performance counters.  In particular no monitor forks, kills or waits for a process.
\<close>

theorem registered_monitors_quiet:
  assumes "(ident, c) \<in> set (monitor_registars P T junk)" and "c properties (s, t) = (r, (s', t'))"
  shows "s' = s \<and> t' = t \<and> (\<forall>p. r = Inr p \<longrightarrow> (\<exists>h. new_monitor h p))"
  by (rule registered_monitors_new [OF assms])

theorem registered_monitors_quiet_witness:
  "\<exists>p h. snd (pmc_sampler_dummy_registar good_platform tree_ops zero_count)
       (Node [(''exec_monitor.event'', Leaf ''dummy'')]) ((), []) = (Inr p, ((), [])) \<and> new_monitor h p"
proof -
  let ?t = "Node [(''exec_monitor.event'', Leaf ''dummy'')]"
  let ?c = "snd (pmc_sampler_dummy_registar good_platform tree_ops zero_count)"
  have reg: "(''pmc-sampler[dummy]'', ?c) \<in> set (monitor_registars good_platform tree_ops zero_count)"
    by (simp add: monitor_registars_def pmc_sampler_dummy_registar_def)
  obtain r s' t' where run: "?c ?t ((), []) = (r, (s', t'))" by (metis prod.collapse)
  have "isl (fst (?c ?t ((), []))) = False" by code_simp
  then have "isl r = False" unfolding run by (simp only: fst_conv)
  then obtain p where p: "r = Inr p" by (cases r) simp_all
  note q = registered_monitors_quiet [OF reg, OF run]
  from q p have "\<exists>h. new_monitor h p" by (elim conjE) (erule allE, erule mp)
  moreover from q have "t' = []" by (rule conjunct1 [OF conjunct2])
  ultimately show ?thesis using run unfolding p by (metis unit.exhaust)
qed

end
