(* ===== verification/Simple_Manager.thy ===== *)
theory Simple_Manager
  imports Exec_Manager Benchmark Process_Sessions
begin

text \<open>
  \<open>exec_manager/simple\<close> and \<open>main\<close>: run all benchmarks of a configuration until the first one ends,
  then kill the others.

  The process objects live in \<open>shared (world s)\<close>, where the pointers in \<open>processes\<close> and those the
  process monitor holds refer to; the rest of \<open>world\<close> is the \<open>process_monitor\<close> that is local to
  \<open>start_impl\<close>.  What runs beside the main thread is an argument of the operations: the turns of the
  process monitor's tasks while \<open>wait_for_any\<close> waits (\<open>sched\<close>), before each kill (\<open>between\<close>) and in
  its destructor (\<open>final\<close>), and the turns of the monitor's thread with the events that arrive in them
  (\<open>turns\<close>).  The thread runs beside \<open>wait_for_any\<close>; its turns are accounted for right after it,
  before the flag it tests in every turn is set.
\<close>

section \<open>The manager\<close>

record 'm simple_manager = "'m exec_manager" +
  benchs :: "benchmark list"
  processes :: "nat option list"
  world :: "sync_process process_monitor"

definition put_world :: "sync_process process_monitor \<Rightarrow> 'm simple_manager \<Rightarrow> 'm simple_manager" where
  "put_world v s = s\<lparr>world := v\<rparr>"

definition on_world :: "(sync_process process_monitor, 'a) sys \<Rightarrow> ('m simple_manager, 'a) sys" where
  "on_world = zoom world put_world"

definition on_object :: "nat \<Rightarrow> (sync_process, 'a) sys \<Rightarrow> ('m simple_manager, 'a) sys" where
  "on_object ptr m = on_world (deref ptr m)"

text \<open>A local object whose destructor runs when its scope is left, normally or by an exception.\<close>

definition scoped :: "('s, 'c, unit) act \<Rightarrow> ('s, 'c, unit) act \<Rightarrow> ('s, 'c, unit) act" where
  "scoped body destroy = block [unwinding body destroy, destroy]"

fun number_from :: "32 word \<Rightarrow> benchmark list \<Rightarrow> benchmark list" where
  "number_from n [] = []"
| "number_from n (b # bs) = b\<lparr>bench_id := n\<rparr> # number_from (n + 1) bs"

definition simple_manager_new ::
    "'pt ptree_ops \<Rightarrow> ('pt \<Rightarrow> ('m simple_manager, 'm made_monitor) sys) factory \<Rightarrow> 'pt
     \<Rightarrow> ('m simple_manager, unit) sys" where
  "simple_manager_new T F properties =
     block
       [exec_manager_new T F properties,
        unwinding
          (act_bind (lift_get (get_child T properties ''exec_manager.benchmarks'')) (\<lambda>pt.
            act_bind (parse_vector T pt) (\<lambda>bs.
              modify (\<lambda>s. s\<lparr>benchs := bs, processes := replicate (length bs) None,
                world := process_monitor_new []\<rparr>))))
          exec_manager_delete,
        modify (\<lambda>s. s\<lparr>benchs := number_from 0 (benchs s)\<rparr>)]"

text \<open>\<open>std::make_shared\<close>: a new object, on whose storage \<open>raw\<close> the constructor runs.\<close>

definition make_process :: "platform \<Rightarrow> sync_process \<Rightarrow> string list \<Rightarrow> ('m simple_manager, nat) sys" where
  "make_process P raw args =
     act_bind (reading (\<lambda>s. length (shared (world s)))) (\<lambda>ptr.
       act_bind (on_world (modify (\<lambda>w. w\<lparr>shared := shared w @ [raw]\<rparr>))) (\<lambda>_.
         act_bind (on_object ptr (sync_new P args)) (\<lambda>_. ret ptr)))"

text \<open>\<open>junk\<close> is the uninitialised byte the child writes.\<close>

definition prepare_bench ::
    "platform \<Rightarrow> sync_process \<Rightarrow> byte \<Rightarrow> benchmark \<Rightarrow> ('m simple_manager, unit) sys" where
  "prepare_bench P raw junk bench =
     act_bind (make_process P raw (bench_args bench)) (\<lambda>process.
       unwinding
         (block
           [on_object process (sync_prepare P junk),
            act_bind (on_object process sync_pid) notify_process_creation,
            modify (\<lambda>s. s\<lparr>processes := (processes s)[unat (bench_id bench) := Some process]\<rparr>)])
         (on_object process (sync_delete P)))"

text \<open>A loop over \<open>processes_\<close>; dereferencing a null pointer ends the program.\<close>

definition each_process :: "(nat \<Rightarrow> ('m simple_manager, unit) sys) \<Rightarrow> ('m simple_manager, unit) sys" where
  "each_process f =
     act_bind (reading processes) (\<lambda>ps.
       block (map (\<lambda>p. case p of None \<Rightarrow> halt Terminated | Some ptr \<Rightarrow> f ptr) ps))"

definition run_tasks :: "platform \<Rightarrow> int list \<Rightarrow> ('m simple_manager, unit) sys" where
  "run_tasks P pids = on_world (block (map (run_task P (sync_class P)) pids))"

fun kill_each :: "platform \<Rightarrow> nat option list \<Rightarrow> int list list \<Rightarrow> ('m simple_manager, unit) sys" where
  "kill_each P [] between = ret ()"
| "kill_each P (p # ps) between =
     block
       [run_tasks P (concat (take 1 between)),
        case p of None \<Rightarrow> halt Terminated
        | Some ptr \<Rightarrow> catching (on_object ptr (sync_kill P PROC)) (\<lambda>_. ret ()),
        kill_each P ps (drop 1 between)]"

definition run_benchs ::
    "platform \<Rightarrow> turn list \<Rightarrow> exec_event list list list \<Rightarrow> int list list \<Rightarrow> ('m simple_manager, unit) sys" where
  "run_benchs P sched turns between =
     block
       [each_process (\<lambda>ptr. on_world (add_process (sync_class P) ptr)),
        prepare_exec_monitor,
        each_process (\<lambda>ptr. on_object ptr (sync_start P)),
        start_exec_monitor,
        on_world (discard (wait_for_any P (sync_class P) sched)),
        let_monitor_run turns,
        execution_end,
        stop_exec_monitor,
        act_bind (reading processes) (\<lambda>ps. kill_each P ps between)]"

definition simple_start_impl ::
    "platform \<Rightarrow> sync_process \<Rightarrow> byte \<Rightarrow> turn list \<Rightarrow> exec_event list list list \<Rightarrow> int list list \<Rightarrow> turn list
     \<Rightarrow> ('m simple_manager, unit) sys" where
  "simple_start_impl P raw junk sched turns between final =
     block
       [act_bind (reading benchs) (\<lambda>bs. block (map (prepare_bench P raw junk) bs)),
        on_world (modify (\<lambda>w. process_monitor_new (shared w))),
        scoped (run_benchs P sched turns between)
          (on_world (discard (process_monitor_delete P (sync_class P) final)))]"

text \<open>The implicit destructor: the last pointers to the processes go, then the monitor.\<close>

definition simple_manager_delete :: "platform \<Rightarrow> ('m simple_manager, unit) sys" where
  "simple_manager_delete P =
     block
       [act_bind (reading processes) (\<lambda>ps.
          block (map (\<lambda>p. case p of None \<Rightarrow> ret () | Some ptr \<Rightarrow> on_object ptr (sync_delete P)) ps)),
        exec_manager_delete]"

definition simple_manager_registar ::
    "'pt ptree_ops \<Rightarrow> ('pt \<Rightarrow> ('m simple_manager, 'm made_monitor) sys) factory
     \<Rightarrow> string \<times> ('pt \<Rightarrow> ('m simple_manager, unit) sys)" where
  "simple_manager_registar T F = (''simple'', simple_manager_new T F)"

section \<open>\<open>main\<close>\<close>

text \<open>A factory after the static initialisers have run.\<close>

definition factory_of :: "(string \<times> 'a) list \<Rightarrow> 'a factory" where
  "factory_of regs = fst (snd (run_registars regs (factory_instance, [] :: syscall list)))"

text \<open>
  \<open>help\<close> and \<open>config\<close> are what Boost.Program_options made of the command line, \<open>read_json\<close> is
  Boost's reader.  Nothing is caught: an exception ends the program.
\<close>

definition aser_main ::
    "platform \<Rightarrow> 'pt ptree_ops \<Rightarrow> (string \<Rightarrow> exn + 'pt) \<Rightarrow> count_type \<Rightarrow> bool \<Rightarrow> string option
     \<Rightarrow> (any_monitor simple_manager, unit) sys \<Rightarrow> (any_monitor simple_manager, unit) sys" where
  "aser_main P T read_json cnt help config start_impl =
     noexcept (case config of
         None \<Rightarrow> halt (Exited 1)
       | Some config_file \<Rightarrow>
           if help then halt (Exited 1)
           else act_bind (lift_get (read_json config_file)) (\<lambda>properties.
             act_bind (lift_get (get_string T properties ''exec_manager.type'')) (\<lambda>ident.
               block
                 [factory_create
                    (factory_of [simple_manager_registar T (factory_of (monitor_registars P T cnt))])
                    ident properties,
                  scoped (exec_manager_start start_impl) (simple_manager_delete P)])))"

end
