(* ===== verification/Manager_Runs.thy ===== *)
theory Manager_Runs
  imports Simple_Manager
begin

text \<open>
  What the main thread of a \<open>simple_manager\<close> does to the log and to its processes, phase by phase:
  preparing all benchmarks, running them, killing what is left.
\<close>

lemma number_from_length: "length (number_from k bs) = length bs"
  by (induction bs arbitrary: k) simp_all

section \<open>Calls\<close>

text \<open>Everything except forking, executing, writing to a pipe and waiting for a process.\<close>

definition writes :: "syscall set" where
  "writes = {c. \<exists>fd bs. c = Sys_write fd bs}"

definition waitings :: "syscall set" where
  "waitings = range Sys_waitpid"

definition base_calls :: "syscall set" where
  "base_calls = - (writes \<union> waitings \<union> {Sys_fork} \<union> {c. \<exists>f args. c = Sys_execvp f args})"

lemma base_calls_simps [simp]:
  "Sys_pipe \<in> base_calls" "Sys_pipe2 n \<in> base_calls" "Sys_close fd \<in> base_calls" "Sys_read fd k \<in> base_calls"
  "Sys_fcntl_getfd fd \<in> base_calls" "Sys_fcntl_setfd fd n \<in> base_calls" "Fs_exists p \<in> base_calls"
  "Sys_getpgid pid \<in> base_calls" "Sys_kill pid sig \<in> base_calls" "Sys_waitpid pid \<in> waitings"
  "Sys_write fd bs \<in> writes" "Sys_write fd bs \<notin> waitings" "Sys_fork \<notin> waitings" "Sys_fork \<notin> writes"
  "Sys_waitpid pid \<notin> writes" "Sys_waitpid pid \<notin> base_calls"
  by (auto simp: base_calls_def writes_def waitings_def)

lemma call_sets:
  "base_calls \<subseteq> - writes" "waitings \<subseteq> - writes" "{Sys_fork} \<subseteq> - writes"
  "base_calls \<subseteq> - {Sys_fork}" "waitings \<subseteq> - {Sys_fork}" "writes \<subseteq> - {Sys_fork}"
  "base_calls \<subseteq> - waitings" "writes \<subseteq> - waitings" "{Sys_fork} \<subseteq> - waitings"
  "monitor_calls \<subseteq> - waitings" "monitor_calls \<subseteq> - {Sys_fork}" "monitor_calls \<subseteq> - writes"
  by (auto simp: base_calls_def writes_def waitings_def monitor_calls_def)

lemma emits_pipe:
  "emits base_calls (pipe_close P ep)" "emits base_calls (pipe_read P n)" "emits writes (pipe_write P bs)"
  "emits base_calls (pipe_new P)" "emits base_calls (pipe_new_flags P flags)" "emits base_calls (pipe_delete P)"
proof -
  show close: "emits base_calls (pipe_close P ep)" for ep
    by (auto simp: abides_def emits_rel_def pipe_close_def act_simps)
  show "emits base_calls (pipe_read P n)" "emits writes (pipe_write P bs)"
    by (auto simp: abides_def emits_rel_def pipe_read_def pipe_write_def act_simps)
  show "emits base_calls (pipe_new P)" by (auto simp: pipe_new_def intro!: effects)
  show "emits base_calls (pipe_new_flags P flags)"
    by (auto simp: pipe_new_flags_def os_defs Let_def intro!: effects split: host_os.split)
  show "emits base_calls (pipe_delete P)" by (auto simp: pipe_delete_def intro!: effects close)
qed

lemma emits_kill_sync: "emits base_calls (sync_kill P mode)"
  by (cases mode) (auto simp: sync_kill_def kill_process_def util_kill_def util_kill_group_def sync_pid_def
      get_pid_def on_process_def intro!: effects)

lemma emits_sync_delete: "emits (base_calls \<union> waitings) (sync_delete P)"
proof -
  have "emits (base_calls \<union> waitings) (pipe_delete P)" by (rule emits_mono [OF emits_pipe(6)]) simp
  moreover have "emits (base_calls \<union> waitings) (process_delete P)"
    by (auto simp: process_delete_def kill_process_def get_pid_def util_kill_def process_wait_def intro!: effects)
  ultimately show ?thesis by (auto simp: sync_delete_def on_ready_def on_go_def on_process_def intro!: effects)
qed

lemma emits_sync_start: "emits (base_calls \<union> writes) (sync_start P)"
proof -
  have "emits (base_calls \<union> writes) (pipe_close P ep)" for ep by (rule emits_mono [OF emits_pipe(1)]) simp
  moreover have "emits (base_calls \<union> writes) (pipe_write P bs)" for bs by (rule emits_mono [OF emits_pipe(3)]) simp
  ultimately show ?thesis by (auto simp: sync_start_def on_go_def intro!: effects)
qed

lemma emits_sync_new: "emits (base_calls \<union> waitings) (sync_new P args)"
proof -
  let ?C = "base_calls \<union> waitings"
  have "emits ?C (pipe_delete P)" "emits ?C (pipe_new P)" "emits ?C (pipe_new_flags P flags)" for flags
    by (rule emits_mono [OF emits_pipe(6)], simp) (rule emits_mono [OF emits_pipe(4)], simp,
      rule emits_mono [OF emits_pipe(5)], simp)
  moreover have "emits ?C (process_delete P)"
    by (auto simp: process_delete_def kill_process_def get_pid_def util_kill_def process_wait_def intro!: effects)
  ultimately show ?thesis
    by (auto simp: sync_new_def process_new_def on_ready_def on_go_def on_process_def intro!: effects)
qed

text \<open>The parent's side of \<open>prepare\<close>.\<close>

lemma emits_sync_prepare:
  assumes "\<And>t. rc (answer P t Sys_fork) \<noteq> 0"
  shows "emits (- writes) (sync_prepare P junk)"
proof -
  let ?cfg = "sync_config P junk"
  have child: "emits (- writes) (wait_for_child P)"
  proof -
    have "emits (- writes) (pipe_close P ep)" for ep by (rule emits_mono [OF emits_pipe(1) call_sets(1)])
    moreover have "emits (- writes) (pipe_read P n)" for n by (rule emits_mono [OF emits_pipe(2) call_sets(1)])
    ultimately show ?thesis by (auto simp: wait_for_child_def on_ready_def on_go_def intro!: effects)
  qed
  have fork: "emits (- writes) (act_bind (call P Sys_fork) (\<lambda>r. if rc r = -1 then fork_error ?cfg (err r)
    else if rc r = 0 then start_child P ?cfg args else start_parent ?cfg sp_process put_process (rc r)))" for args
  proof -
    have "emits (- writes) (act_bind (call P Sys_fork) (\<lambda>r. if rc r = -1 then fork_error ?cfg (err r)
      else start_parent ?cfg sp_process put_process (rc r)))"
      by (auto simp: start_parent_def sync_config_def config_defs libc_error_code_def intro!: effects child)
    moreover have "act_bind (call P Sys_fork) (\<lambda>r. if rc r = -1 then fork_error ?cfg (err r)
        else if rc r = 0 then start_child P ?cfg args else start_parent ?cfg sp_process put_process (rc r)) =
      act_bind (call P Sys_fork) (\<lambda>r. if rc r = -1 then fork_error ?cfg (err r)
        else start_parent ?cfg sp_process put_process (rc r))"
      using assms by (auto simp: act_bind_def call_def)
    ultimately show ?thesis by simp
  qed
  have check: "emits (- writes) (check_path P path)" for path
    by (auto simp: check_path_def writes_def intro!: effects)
  have callback: "fork_setup ?cfg = ret ()" by (simp add: sync_config_def config_defs)
  show ?thesis unfolding sync_prepare_def process_start_def
    by (rule emits.resp_bind, rule emits.resp_pure, rule emits.resp_block)
      (auto simp: callback intro: fork check effects)
qed

section \<open>Actions that return\<close>

text \<open>\<open>if_returns R m\<close>: when \<open>m\<close> returns normally, the states before and after are related by \<open>R\<close>.\<close>

definition if_returns :: "('s \<times> 'c list \<Rightarrow> 's \<times> 'c list \<Rightarrow> bool) \<Rightarrow> ('s, 'c, 'a) act \<Rightarrow> bool" where
  "if_returns R m \<longleftrightarrow> (\<forall>st x st'. m st = (Inr x, st') \<longrightarrow> R st st')"

lemma if_returnsI: "(\<And>s t x s' t'. m (s, t) = (Inr x, (s', t')) \<Longrightarrow> R (s, t) (s', t')) \<Longrightarrow> if_returns R m"
  unfolding if_returns_def by auto

lemma if_returnsD: "if_returns R m \<Longrightarrow> m st = (Inr x, st') \<Longrightarrow> R st st'"
  unfolding if_returns_def by blast

lemma if_returns_abides: "abides R m \<Longrightarrow> if_returns R m"
  by (auto simp: if_returns_def dest: abidesD)

lemma unwinding_returns: "unwinding m c st = (Inr x, st') \<longleftrightarrow> m st = (Inr x, st')"
  by (auto simp: unwinding_def catching_def act_bind_def raise_def halt_def split: prod.splits sum.splits stop.splits)

lemma bind_returnsE:
  assumes "act_bind m f st = (Inr x, st')"
  obtains y st1 where "m st = (Inr y, st1)" and "f y st1 = (Inr x, st')"
  using assms by (auto simp: act_bind_def split: prod.splits sum.splits)

lemma block_returnsE:
  assumes "block (m # ms) st = (Inr x, st')"
  obtains st1 where "m st = (Inr (), st1)" and "block ms st1 = (Inr x, st')"
  using assms by (auto split: prod.splits sum.splits)

lemma zoom_returnsE:
  assumes "zoom get put m (s, t) = (Inr x, (s', t'))"
  obtains v where "m (get s, t) = (Inr x, (v, t'))" and "s' = put v s"
  using assms by (auto simp: zoom_def split: prod.splits)


section \<open>Preparing\<close>

lemma emits_waits:
  assumes "emits C m" and "C \<subseteq> - waitings" and "m (s, t) = (r, (s', t'))"
  shows "waits t' = waits t"
proof -
  from emitsD [OF assms(1,3)] obtain u where "t' = t @ u" "set u \<subseteq> C" by blast
  with assms(2) have "set u \<inter> waitings = {}" by blast
  then have "Sys_waitpid pid \<notin> set u" for pid by (auto simp: waitings_def)
  then have "count_list u (Sys_waitpid pid) = 0" for pid by (simp add: count_list_0_iff)
  with \<open>t' = t @ u\<close> show "waits t' = waits t" by (simp add: waits_def fun_eq_iff)
qed

lemma sync_new_returns:
  assumes "sync_new P args (p, t) = (Inr (), (p', t'))"
  shows "\<not> terminated (sp_process p') \<and> proc_args (sp_process p') = args \<and> waits t' = waits t"
proof -
  from assms obtain p1 t1 p2 t2 where
    1: "on_process (process_new args) (p, t) = (Inr (), (p1, t1))"
    and 2: "on_go (pipe_new_flags P (o_cloexec P)) (p1, t1) = (Inr (), (p2, t2))"
    and 3: "on_ready (pipe_new P) (p2, t2) = (Inr (), (p', t'))"
    unfolding sync_new_def
    by (auto simp: unwinding_returns simp del: block.simps(2) elim!: block_returnsE)
  have "\<not> terminated (sp_process p1)" "proc_args (sp_process p1) = args" "t1 = t"
    using 1 by (auto simp: on_process_def process_new_def put_process_def terminated_def act_simps split: if_splits)
  moreover have "sp_process p' = sp_process p1"
    using process_go.zoom_frame2 [OF 2 [unfolded on_go_def]]
      process_ready.zoom_frame2 [OF 3 [unfolded on_ready_def]] by simp
  moreover have "waits t2 = waits t1"
    by (rule emits_waits [OF emits_zoom [OF emits_pipe(5)] call_sets(7) 2 [unfolded on_go_def]])
  moreover have "waits t' = waits t2"
    by (rule emits_waits [OF emits_zoom [OF emits_pipe(4)] call_sets(7) 3 [unfolded on_ready_def]])
  ultimately show ?thesis by simp
qed

lemma start_child_stops: "\<exists>e st'. start_child P cfg args st = (Inl e, st')"
  by (auto simp: start_child_def act_simps split: prod.splits sum.splits)

lemma sync_callbacks:
  "fork_setup (sync_config P junk) = ret ()" "fork_success (sync_config P junk) = wait_for_child P"
  "fork_error (sync_config P junk) e = libc_error_code e ''Error forking process''"
  by (simp_all add: sync_config_def config_defs)

lemma keeps_on_pipe: "keeps (\<lambda>s. sp_process s = q) (on_go m)" "keeps (\<lambda>s. sp_process s = q) (on_ready m')"
  by (rule keepsI, auto simp: on_go_def dest: process_go.zoom_frame2)
    (rule keepsI, auto simp: on_ready_def dest: process_ready.zoom_frame2)

lemma wait_for_child_frame:
  "keeps (\<lambda>s. sp_process s = q) (wait_for_child P)" "emits base_calls (wait_for_child P)"
  by (auto simp: wait_for_child_def on_go_def on_ready_def intro!: effects keeps_on_pipe [unfolded on_go_def on_ready_def]
      emits_pipe)

lemma sync_prepare_returns:
  assumes "sync_prepare P junk (p, t) = (Inr (), (p', t'))" and "\<not> terminated (sp_process p)"
  shows "running p' \<and> proc_args (sp_process p') = proc_args (sp_process p) \<and> waits t' = waits t"
proof -
  let ?cfg = "sync_config P junk" and ?t = "t @ [Fs_exists (hd (proc_args (sp_process p))), Sys_fork]"
  let ?r = "rc (answer P (t @ [Fs_exists (hd (proc_args (sp_process p)))]) Sys_fork)"
  let ?p = "put_process ((sp_process p)\<lparr>proc_pid := ?r\<rparr>) p"
  obtain e st' where child: "start_child P ?cfg (proc_args (sp_process p)) (p, ?t) = (Inl e, st')"
    using start_child_stops by blast
  have "?r \<noteq> -1" and run: "wait_for_child P (?p, ?t) = (Inr (), (p', t'))"
    using assms(1) child
    by (auto simp: sync_prepare_def process_start_def check_path_def start_parent_def sync_callbacks
        libc_error_code_def put_process_def act_simps split: if_splits prod.splits sum.splits)
  have "sp_process p' = sp_process ?p" by (rule keepsD [OF wait_for_child_frame(1) run refl])
  with assms(2) \<open>?r \<noteq> -1\<close> have "running p'" "proc_args (sp_process p') = proc_args (sp_process p)" by (simp_all add: running_def started_def terminated_def put_process_def)
  moreover have "waits t' = waits ?t" by (rule emits_waits [OF wait_for_child_frame(2) call_sets(7) run])
  moreover have "waits ?t = waits t" by (simp add: waits_def fun_eq_iff)
  ultimately show ?thesis by simp
qed

text \<open>The new object is the last one.\<close>

lemma on_last_object:
  "on_object (length ps) m (s\<lparr>world := (world s)\<lparr>shared := ps @ [p]\<rparr>\<rparr>, t) =
     (case m (p, t) of (r, (q, t')) \<Rightarrow> (r, (s\<lparr>world := (world s)\<lparr>shared := ps @ [q]\<rparr>\<rparr>, t')))"
  by (simp add: on_object_def on_world_def deref_def zoom_def put_world_def split: prod.split)

text \<open>What one \<open>prepare_bench\<close> that returns has done.\<close>

lemma prepare_bench_calls:
  assumes "prepare_bench P raw junk b (s, t) = (Inr (), (s', t'))"
  shows "\<exists>p. shared (world s') = shared (world s) @ [p] \<and> running p \<and>
    proc_args (sp_process p) = bench_args b \<and>
    status (world s') = status (world s) \<and> ended_process_queue (world s') = ended_process_queue (world s) \<and>
    processes s' = (processes s)[unat (bench_id b) := Some (length (shared (world s)))] \<and>
    benchs s' = benchs s \<and> execution_ended s' = execution_ended s \<and>
    exec_monitor s' = (exec_monitor s)\<lparr>made_object := (made_object (exec_monitor s))
      \<lparr>event_queue := cq_push \<lparr>ev_type = PROCESS_CREATED, ev_pid = pid_of p\<rparr>
         (event_queue (made_object (exec_monitor s)))\<rparr>\<rparr> \<and>
    waits t' = waits t \<and>
    (\<exists>p1 t1. sync_new P (bench_args b) (raw, t) = (Inr (), (p1, t1)) \<and> sync_prepare P junk (p1, t1) = (Inr (), (p, t')))"
proof -
  let ?ptr = "length (shared (world s))"
  let ?grow = "\<lambda>p. s\<lparr>world := (world s)\<lparr>shared := shared (world s) @ [p]\<rparr>\<rparr>"
  note deref = on_last_object [where s = s and ps = "shared (world s)"]
  from assms obtain p1 t1 where new: "sync_new P (bench_args b) (raw, t) = (Inr (), (p1, t1))"
    and rest: "block
           [on_object ?ptr (sync_prepare P junk), act_bind (on_object ?ptr sync_pid) notify_process_creation,
            modify (\<lambda>s. s\<lparr>processes := (processes s)[unat (bench_id b) := Some ?ptr]\<rparr>)] (?grow p1, t1) =
         (Inr (), (s', t'))"
    unfolding prepare_bench_def make_process_def
    by (auto simp: deref reading_def modify_def ret_def on_world_def zoom_def put_world_def unwinding_returns
        simp del: block.simps(2) elim!: bind_returnsE split: prod.splits)
  from rest obtain p2 t2 where prep: "sync_prepare P junk (p1, t1) = (Inr (), (p2, t2))"
    and rest2: "block [act_bind (on_object ?ptr sync_pid) notify_process_creation,
            modify (\<lambda>s. s\<lparr>processes := (processes s)[unat (bench_id b) := Some ?ptr]\<rparr>)] (?grow p2, t2) =
         (Inr (), (s', t'))"
    by (rule block_returnsE) (auto simp: deref simp del: block.simps(2) split: prod.splits)
  from sync_new_returns [OF new] sync_prepare_returns [OF prep]
  have p2: "running p2" "waits t2 = waits t" "proc_args (sp_process p2) = bench_args b" by simp_all
  then have "sync_pid (p2, t2) = (Inr (pid_of p2), (p2, t2))"
    by (simp add: sync_pid_def on_process_def get_pid_def running_def pid_of_def put_process_def act_simps)
  with rest2 p2 new prep show ?thesis
    by (intro exI [of _ p2])
      (auto simp: deref act_bind_def notify_process_creation_def on_monitor_def reading_def zoom_def
        enqueue_event_def modify_def put_object_def)
qed

lemma prepare_bench_returns:
  assumes "prepare_bench P raw junk b (s, t) = (Inr (), (s', t'))"
  shows "\<exists>p. shared (world s') = shared (world s) @ [p] \<and> running p \<and>
    proc_args (sp_process p) = bench_args b \<and>
    status (world s') = status (world s) \<and> ended_process_queue (world s') = ended_process_queue (world s) \<and>
    processes s' = (processes s)[unat (bench_id b) := Some (length (shared (world s)))] \<and>
    benchs s' = benchs s \<and> execution_ended s' = execution_ended s \<and>
    exec_monitor s' = (exec_monitor s)\<lparr>made_object := (made_object (exec_monitor s))
      \<lparr>event_queue := cq_push \<lparr>ev_type = PROCESS_CREATED, ev_pid = pid_of p\<rparr>
         (event_queue (made_object (exec_monitor s)))\<rparr>\<rparr> \<and>
    waits t' = waits t"
  using prepare_bench_calls [OF assms] by blast

definition created :: "sync_process \<Rightarrow> exec_event" where
  "created p = \<lparr>ev_type = PROCESS_CREATED, ev_pid = pid_of p\<rparr>"

lemma slot_update:
  assumes "k < length xs"
  shows "take (Suc k) (xs[k := y]) = take k xs @ [y]" and "drop (Suc k + n) (xs[k := y]) = drop (Suc k + n) xs"
  using assms by (simp_all add: take_Suc_conv_app_nth)

lemma prepare_all_returns:
  assumes "block (map (prepare_bench P raw junk) (number_from (word_of_nat k) bs)) (s, t) = (Inr (), (s', t'))"
    and "length (shared (world s)) = k" and "k + length bs \<le> length (processes s)"
    and "length (processes s) < 2 ^ 32"
  shows "\<exists>ps. shared (world s') = shared (world s) @ ps \<and> map (\<lambda>p. proc_args (sp_process p)) ps = map bench_args bs \<and>
    (\<forall>p \<in> set ps. running p) \<and>
    processes s' = take k (processes s) @ map Some [k..<k + length bs] @ drop (k + length bs) (processes s) \<and>
    exec_monitor s' = (exec_monitor s)\<lparr>made_object := (made_object (exec_monitor s))
      \<lparr>event_queue := fold cq_push (map created ps) (event_queue (made_object (exec_monitor s)))\<rparr>\<rparr> \<and>
    benchs s' = benchs s \<and> execution_ended s' = execution_ended s \<and> waits t' = waits t"
  using assms
proof (induction bs arbitrary: k s t)
  case Nil
  then show ?case by simp
next
  case (Cons b bs)
  let ?b = "b\<lparr>bench_id := word_of_nat k\<rparr>"
  obtain s1 t1 where one: "prepare_bench P raw junk ?b (s, t) = (Inr (), (s1, t1))"
    and rest: "block (map (prepare_bench P raw junk) (number_from (word_of_nat k + 1) bs)) (s1, t1) =
      (Inr (), (s', t'))"
    using Cons.prems(1) by (auto simp del: block.simps(2) elim!: block_returnsE)
  have id: "unat (bench_id ?b) = k" using Cons.prems(3,4) by (simp add: unat_of_nat take_bit_nat_eq_self)
  from prepare_bench_returns [OF one] obtain p where
    p: "shared (world s1) = shared (world s) @ [p]" "running p" "proc_args (sp_process p) = bench_args b"
      "processes s1 = (processes s)[k := Some k]" "benchs s1 = benchs s"
      "execution_ended s1 = execution_ended s" "waits t1 = waits t"
      "exec_monitor s1 = (exec_monitor s)\<lparr>made_object := (made_object (exec_monitor s))
        \<lparr>event_queue := cq_push (created p) (event_queue (made_object (exec_monitor s)))\<rparr>\<rparr>"
    using id Cons.prems(2) by (auto simp: created_def)
  have next_id: "word_of_nat k + 1 = (word_of_nat (Suc k) :: 32 word)" by simp
  have len: "length (shared (world s1)) = Suc k" "Suc k + length bs \<le> length (processes s1)"
    "length (processes s1) < 2 ^ 32" and k: "k < length (processes s)"
    using p(1,4) Cons.prems(2-4) by simp_all
  from Cons.IH [OF rest [unfolded next_id] len] obtain ps where
    ps: "shared (world s') = shared (world s1) @ ps" "map (\<lambda>p. proc_args (sp_process p)) ps = map bench_args bs" "\<forall>p \<in> set ps. running p"
      "processes s' = take (Suc k) (processes s1) @ map Some [Suc k..<Suc k + length bs] @
        drop (Suc k + length bs) (processes s1)"
      "exec_monitor s' = (exec_monitor s1)\<lparr>made_object := (made_object (exec_monitor s1))
        \<lparr>event_queue := fold cq_push (map created ps) (event_queue (made_object (exec_monitor s1)))\<rparr>\<rparr>"
      "benchs s' = benchs s1" "execution_ended s' = execution_ended s1" "waits t' = waits t1" by blast
  have "[k..<k + length (b # bs)] = k # [Suc k..<Suc k + length bs]" using upt_conv_Cons [of k "k + length (b # bs)"] by simp
  then have "processes s' = take k (processes s) @ map Some [k..<k + length (b # bs)] @
      drop (k + length (b # bs)) (processes s)"
    unfolding ps(4) p(4) using slot_update [OF k] by simp
  with p ps show ?case by (intro exI [of _ "p # ps"]) simp
qed

text \<open>
  C27. Every benchmark gets its process, and the monitor hears of it.  When the preparations of a
  manager return, its slots hold the processes in the order of the configuration, each
  is running the command of its benchmark and waits to be started, and the events for the monitor
  name their pids in the same order.
\<close>

theorem benchmarks_prepared:
  assumes "benchs s = number_from 0 bs" and "processes s = replicate (length bs) None"
    and "shared (world s) = []" and "queue (event_queue (made_object (exec_monitor s))) = []"
    and "length bs < 2 ^ 32"
    and "act_bind (reading benchs) (\<lambda>bs. block (map (prepare_bench P raw junk) bs)) (s, t) = (Inr (), (s', t'))"
  shows "processes s' = map Some [0..<length bs] \<and>
    map (\<lambda>p. proc_args (sp_process p)) (shared (world s')) = map bench_args bs \<and>
    (\<forall>p \<in> set (shared (world s')). running p) \<and>
    queue (event_queue (made_object (exec_monitor s'))) =
      map (\<lambda>p. \<lparr>ev_type = PROCESS_CREATED, ev_pid = pid_of p\<rparr>) (shared (world s'))"
proof -
  have "block (map (prepare_bench P raw junk) (number_from (word_of_nat 0) bs)) (s, t) = (Inr (), (s', t'))"
    using assms(6) by (simp add: assms(1) act_simps)
  from prepare_all_returns [OF this] assms(2-5) show ?thesis
    by (auto simp: cq.items_push_all created_def fun_eq_iff)
qed

definition raw_manager :: "any_monitor simple_manager" where
  "raw_manager = \<lparr>exec_monitor = \<lparr>made_class = plain_class (ret ()),
      made_object = exec_monitor_new (Any_simple raw_simple), made_delete = ret ()\<rparr>,
     execution_ended = False, benchs = [], processes = [], world = process_monitor_new []\<rparr>"

definition raw_process :: sync_process where
  "raw_process = fresh_sync [] 0 0 0 0 0"

theorem benchmarks_prepared_witness:
  "\<exists>s s' t'. act_bind (reading benchs) (\<lambda>bs. block (map (prepare_bench good_platform raw_process 0) bs)) (s :: any_monitor simple_manager, []) =
      (Inr (), (s', t')) \<and> processes s' = [Some 0] \<and>
    map (\<lambda>p. proc_args (sp_process p)) (shared (world s')) = [[''/bin/true'']]"
proof -
  let ?bs = "[\<lparr>bench_id = 7, bench_name = ''first'', bench_args = [''/bin/true'']\<rparr>]"
  let ?s = "raw_manager\<lparr>benchs := number_from 0 ?bs, processes := [None]\<rparr>"
  let ?m = "act_bind (reading benchs) (\<lambda>bs. block (map (prepare_bench good_platform raw_process 0) bs))"
  obtain r s' t' where run: "?m (?s, []) = (r, (s', t'))" by (rule prod_cases3)
  have "fst (?m (?s, [])) = Inr ()" by code_simp
  then have r: "r = Inr ()" unfolding run by simp
  have "benchs ?s = number_from 0 ?bs" "processes ?s = replicate (length ?bs) None" "shared (world ?s) = []"
    "queue (event_queue (made_object (exec_monitor ?s))) = []" "length ?bs < 2 ^ 32"
    by (simp_all add: raw_manager_def process_monitor_new_def exec_monitor_new_def cq_empty_def)
  from benchmarks_prepared [OF this run [unfolded r]] run r show ?thesis
    by (intro exI [of _ ?s] exI [of _ s'] exI [of _ t']) simp
qed

end
