(* ===== verification/Manager_Order.thy ===== *)
theory Manager_Order
  imports Manager_Runs
begin

text \<open>
  The order of what a \<open>simple_manager\<close> asks of the system, for any monitor that keeps to itself and
  for the whole of \<open>main\<close>: no command is let run before all processes have been forked.
\<close>

section \<open>Calls while the monitor is a quiet one\<close>

definition quiet_rel ::
    "syscall set \<Rightarrow> (exec_event \<Rightarrow> ('m, unit) sys) \<Rightarrow> ('m, 'z) exec_manager_scheme \<times> syscall list
     \<Rightarrow> ('m, 'z) exec_manager_scheme \<times> syscall list \<Rightarrow> bool" where
  "quiet_rel C h st st' \<longleftrightarrow> (quiet_monitor h (exec_monitor (fst st)) \<longrightarrow>
     quiet_monitor h (exec_monitor (fst st')) \<and> emits_rel C st st')"

abbreviation quiet ::
    "syscall set \<Rightarrow> (exec_event \<Rightarrow> ('m, unit) sys) \<Rightarrow> (('m, 'z) exec_manager_scheme, 'a) sys \<Rightarrow> bool" where
  "quiet C h \<equiv> abides (quiet_rel C h)"

interpretation quiet: effect_rel "quiet_rel C h" for C h
  by unfold_locales (auto simp: quiet_rel_def intro: emits_rel_trans emits.refl)

lemma quietD:
  "quiet C h m \<Longrightarrow> m (s, t) = (r, (s', t')) \<Longrightarrow> quiet_monitor h (exec_monitor s) \<Longrightarrow>
     quiet_monitor h (exec_monitor s') \<and> (\<exists>u. t' = t @ u \<and> set u \<subseteq> C)"
  by (drule (1) abidesD) (simp add: quiet_rel_def emits_rel_def)

lemma quiet_mono: "quiet C h m \<Longrightarrow> C \<subseteq> D \<Longrightarrow> quiet D h m"
  by (erule abides_mono) (auto simp: quiet_rel_def emits_rel_def)

lemma quiet_unwinding [effects]: "quiet C h m \<Longrightarrow> quiet C h c \<Longrightarrow> quiet C h (unwinding m c)"
  unfolding unwinding_def by (intro effects) simp_all

lemma quiet_scoped [effects]: "quiet C h m \<Longrightarrow> quiet C h c \<Longrightarrow> quiet C h (scoped m c)"
  unfolding scoped_def by (rule quiet.resp_block) (auto intro: effects)

lemma quiet_modify: "(\<And>s. exec_monitor (f s) = exec_monitor s) \<Longrightarrow> quiet C h (modify f)"
  by (auto simp: abides_def quiet_rel_def emits_rel_def act_simps)

lemma quiet_world:
  fixes m :: "(sync_process process_monitor, 'a) sys" and h :: "exec_event \<Rightarrow> ('m, unit) sys"
  assumes "emits C m"
  shows "quiet C h (on_world m)"
proof (rule abidesI)
  fix s s' :: "'m simple_manager" and t t' r
  assume run: "on_world m (s, t) = (r, (s', t'))"
  then have "exec_monitor s' = exec_monitor s"
    by (auto simp: on_world_def zoom_def put_world_def split: prod.splits)
  moreover from run have "emits_rel C (s, t) (s', t')"
    unfolding on_world_def by (rule abidesD [OF emits_zoom [OF assms]])
  ultimately show "quiet_rel C h (s, t) (s', t')" by (simp add: quiet_rel_def)
qed

lemma emits_deref [effects]: "emits C m \<Longrightarrow> emits C (deref ptr m)"
  unfolding deref_def by (rule emits_zoom)

lemma quiet_object: "emits C m \<Longrightarrow> quiet C h (on_object ptr m)"
  unfolding on_object_def by (intro quiet_world emits_deref)

section \<open>The monitor's own operations\<close>

text \<open>An action on the monitor that leaves its handlers alone.\<close>

lemma quiet_on_monitor:
  assumes "\<And>p m t r m' t'. quiet_monitor h p \<Longrightarrow> m = made_object p \<Longrightarrow> f p (m, t) = (r, (m', t')) \<Longrightarrow>
    registered h m' \<and> emits_rel monitor_calls (m, t) (m', t')"
  shows "quiet monitor_calls h (on_monitor f)"
proof (rule abidesI)
  fix s t r s' t'
  assume "on_monitor f (s, t) = (r, (s', t'))"
  then obtain m' where run: "f (exec_monitor s) (made_object (exec_monitor s), t) = (r, (m', t'))"
    and s': "s' = put_object m' s"
    by (auto simp: on_monitor_def zoom_def act_simps split: prod.splits)
  show "quiet_rel monitor_calls h (s, t) (s', t')"
    unfolding quiet_rel_def
  proof
    assume q: "quiet_monitor h (exec_monitor (fst (s, t)))"
    with assms [OF _ refl run] s' show "quiet_monitor h (exec_monitor (fst (s', t'))) \<and>
        emits_rel monitor_calls (s, t) (s', t')"
      by (auto simp: quiet_monitor_def put_object_def emits_rel_def)
  qed
qed

lemma on_impl_registered: "on_impl m (s, t) = (r, (s', t')) \<Longrightarrow> registered h s' = registered h s"
  by (auto simp: on_impl_def zoom_def split: prod.splits)

lemma keeps_registered [effects]: "keeps (registered h) (on_impl m)"
  by (rule keepsI) (simp add: on_impl_registered)

lemma quiet_plain_call:
  assumes "\<And>p. quiet_class (made_class p) \<Longrightarrow> keeps (registered h) (f p) \<and> emits monitor_calls (f p)"
  shows "quiet monitor_calls h (on_monitor f)"
proof (rule quiet_on_monitor)
  fix p m t r m' t'
  assume q: "quiet_monitor h p" and m: "m = made_object p" and run: "f p (m, t) = (r, (m', t'))"
  from q have "keeps (registered h) (f p)" "emits monitor_calls (f p)"
    using assms by (simp_all add: quiet_monitor_def)
  with q m run show "registered h m' \<and> emits_rel monitor_calls (m, t) (m', t')"
    by (auto simp: quiet_monitor_def dest: keepsD abidesD)
qed

lemma emits_on_impl [effects]: "emits C m \<Longrightarrow> emits C (on_impl m)"
  unfolding on_impl_def by (rule emits_zoom)

lemma quiet_base_operations:
  "quiet monitor_calls h (on_monitor (\<lambda>p. monitor_initialize (made_class p)))"
  "quiet monitor_calls h prepare_exec_monitor"
  "quiet monitor_calls h start_exec_monitor"
  "quiet monitor_calls h (notify_process_creation pid)"
  "quiet monitor_calls h (on_monitor (\<lambda>p. monitor_finalize (made_class p)))"
  "quiet monitor_calls h (on_monitor (\<lambda>_. monitor_join over))"
  unfolding prepare_exec_monitor_def start_exec_monitor_def notify_process_creation_def
  by (rule quiet_plain_call, auto simp: monitor_initialize_def monitor_prepare_def monitor_finalize_def
      monitor_start_def monitor_join_def enqueue_event_def quiet_class_def intro!: effects)+

text \<open>After the destructor there is no monitor any more.\<close>

lemma delete_emits:
  assumes "exec_manager_delete (s, t) = (r, (s', t'))" and "quiet_monitor h (exec_monitor s)"
  shows "\<exists>u. t' = t @ u \<and> set u \<subseteq> monitor_calls"
  using assms by (auto simp: exec_manager_delete_def on_monitor_def zoom_def act_simps quiet_monitor_def
      split: prod.splits dest: emitsD)

text \<open>The thread runs the handlers that are registered.\<close>

lemma quiet_run: "quiet monitor_calls h (on_monitor (\<lambda>p. monitor_run (made_class p) over turns))"
proof (rule quiet_on_monitor)
  fix p m t r m' t'
  assume q: "quiet_monitor h p" and m: "m = made_object p"
    and run: "monitor_run (made_class p) over turns (m, t) = (r, (m', t'))"
  from q m have reg: "registered h m" by (simp add: quiet_monitor_def)
  obtain r1 m1 t1 where loop: "monitor_loop (made_class p) False turns (m, t) = (r1, (m1, t1))"
    by (metis prod.collapse)
  from monitor_loop_turns [OF reg, of turns "made_class p" t] loop obtain evss where
    b: "block (concat (map (turn_of (made_class p) h) evss)) (impl m, t) = (r1, (impl m1, t1))"
    and reg1: "registered h m1" by auto
  have "emits monitor_calls (block (concat (map (turn_of (made_class p) h) evss)))"
    using q by (intro effects) (auto simp: turn_of_def quiet_monitor_def quiet_class_def split: if_splits)
  from emitsD [OF this b] have "\<exists>u. t1 = t @ u \<and> set u \<subseteq> monitor_calls" .
  moreover from monitor_run_effect [OF run loop] have "(m' = m \<and> t' = t) \<or> (m' = m1 \<and> t' = t1)" .
  ultimately show "registered h m' \<and> emits_rel monitor_calls (m, t) (m', t')"
    using reg reg1 by (auto simp: emits_rel_def)
qed

lemma quiet_let_run: "quiet monitor_calls h (let_monitor_run turns)"
  unfolding let_monitor_run_def by (intro effects) (auto intro: quiet_run)

lemma quiet_stop: "quiet monitor_calls h stop_exec_monitor"
  unfolding stop_exec_monitor_def by (auto intro!: effects quiet_base_operations)

section \<open>The phases of a run\<close>

lemma emits_sync_object:
  "emits waitings (pc_wait (sync_class P))" "emits C (pc_pid (sync_class P))"
  "emits C (pc_termination_status (sync_class P))"
  by (auto simp: sync_class_def sync_wait_def sync_pid_def sync_termination_status_def on_process_def
      process_wait_def get_pid_def termination_status_def intro!: effects)

lemma emits_task: "emits waitings (run_task P (sync_class P) pid)"
proof -
  have wait: "emits waitings (deref ptr (pc_wait (sync_class P)))" for ptr
    by (intro effects emits_sync_object)
  have status: "emits waitings (deref ptr (pc_termination_status (sync_class P)))"
    "emits waitings (deref ptr (pc_pid (sync_class P)))" for ptr
    by (intro effects emits_sync_object)+
  show ?thesis
    by (auto simp: run_task_def finish_with_def wait_for_pid_def wait_for_process_def
        intro!: effects wait status split: option.split task.split)
qed

text \<open>Waiting is running tasks.\<close>

lemma abides_await:
  assumes R: "effect_rel R" and task: "\<And>pid. abides R (run_task P W pid)"
  shows "abides R (await P W c sched)"
proof (rule abidesI)
  fix s t r s' t'
  assume "await P W c sched (s, t) = (r, (s', t'))"
  then show "R (s, t) (s', t')"
  proof (induction sched arbitrary: s t)
    case Nil
    then show ?case by (simp add: effect_rel.refl [OF R])
  next
    case (Cons turn sched)
    show ?case
    proof (cases turn)
      case Client
      with Cons show ?thesis by (auto intro: effect_rel.refl [OF R] split: if_splits)
    next
      case (Task pid)
      obtain r1 s1 t1 where run: "run_task P W pid (s, t) = (r1, (s1, t1))" by (rule prod_cases3)
      from abidesD [OF task run] have "R (s, t) (s1, t1)" .
      with Cons Task run show ?thesis by (cases r1) (auto intro: effect_rel.trans [OF R])
    qed
  qed
qed

lemma abides_get_all:
  assumes R: "effect_rel R" and "\<And>pid. abides R (run_task P W pid)" and "\<And>pid. abides R (future_get pid)"
  shows "abides R (get_all P W pids sched)"
  by (induction pids arbitrary: sched)
    (auto intro!: effect_rel.resp_pure [OF R] effect_rel.resp_bind [OF R] effect_rel.resp_catching [OF R]
      effect_rel.resp_discard [OF R] abides_await assms)

lemma emits_process_monitor:
  "emits waitings (add_process (sync_class P) ptr)"
  "emits waitings (wait_for_any P (sync_class P) sched)"
  "emits waitings (process_monitor_delete P (sync_class P) sched)"
proof -
  have pid: "emits waitings (deref ptr (pc_pid (sync_class P)))" by (intro effects emits_sync_object)
  show "emits waitings (add_process (sync_class P) ptr)"
    by (auto simp: add_process_def check_duplicated_pid_def intro!: effects pid)
  have pop: "emits waitings pop_ended"
    by (rule emits_silent) (auto simp: pop_ended_def split: option.splits)
  have get: "emits waitings (future_get pid)" for pid
    by (auto simp: future_get_def intro!: effects split: option.split task.split sum.split)
  show "emits waitings (wait_for_any P (sync_class P) sched)"
    by (auto simp: wait_for_any_def intro!: effects abides_await [OF emits.effect_rel_axioms] emits_task pop get)
  show "emits waitings (process_monitor_delete P (sync_class P) sched)"
    by (auto simp: process_monitor_delete_def intro!: effects abides_get_all [OF emits.effect_rel_axioms] emits_task get)
qed

lemma quiet_each [effects]: "(\<And>ptr. quiet C h (f ptr)) \<Longrightarrow> quiet C h (each_process f)"
  unfolding each_process_def by (intro effects) (auto intro!: effects split: option.split)

lemma quiet_prepare_phase:
  assumes fork: "\<And>u. rc (answer P u Sys_fork) \<noteq> 0"
  shows "quiet (- writes) h (prepare_bench P raw junk b)"
proof -
  have new: "quiet (- writes) h (on_object ptr (sync_new P args))"
    "quiet (- writes) h (on_object ptr (sync_delete P))" "quiet (- writes) h (on_object ptr sync_pid)" for ptr args
    by (rule quiet_object, rule emits_mono, rule emits_sync_new emits_sync_delete, use call_sets in blast)+
      (rule quiet_object, auto simp: sync_pid_def on_process_def get_pid_def intro!: effects)
  have prepare: "quiet (- writes) h (on_object ptr (sync_prepare P junk))" for ptr
    by (intro quiet_object emits_sync_prepare fork)
  have event: "quiet (- writes) h (notify_process_creation pid)" for pid
    by (rule quiet_mono [OF quiet_base_operations(4) call_sets(12)])
  have slot: "quiet (- writes) h (modify (\<lambda>s. s\<lparr>processes := f s\<rparr>))"
    "quiet (- writes) h (on_world (modify g))" for f g
    by (rule quiet_modify, simp) (rule quiet_world, intro effects)
  show ?thesis unfolding prepare_bench_def make_process_def
    by (auto intro!: effects new prepare event slot)
qed

lemma quiet_run_phase: "quiet (- {Sys_fork}) h (run_benchs P sched turns between)"
proof -
  let ?C = "- {Sys_fork} :: syscall set"
  have emits: "emits ?C (add_process (sync_class P) ptr)" "emits ?C (sync_start P)"
    "emits ?C (run_task P (sync_class P) pid)" "emits ?C (wait_for_any P (sync_class P) sched)"
    "emits ?C (sync_kill P PROC)" for ptr pid
    by (rule emits_mono, rule emits_process_monitor emits_sync_start emits_task emits_kill_sync,
        use call_sets in blast)+
  have monitor: "quiet ?C h prepare_exec_monitor" "quiet ?C h start_exec_monitor"
    "quiet ?C h (let_monitor_run turns)" "quiet ?C h stop_exec_monitor"
    by (rule quiet_mono [OF quiet_base_operations(2)], rule call_sets)
      (rule quiet_mono [OF quiet_base_operations(3)], rule call_sets, rule quiet_mono [OF quiet_let_run], rule call_sets,
        rule quiet_mono [OF quiet_stop], rule call_sets)
  have over: "quiet ?C h execution_end" unfolding execution_end_def by (rule quiet_modify) simp
  have kill: "quiet ?C h (kill_each P ps between)" for ps between
    by (induction ps arbitrary: between)
      (auto simp: run_tasks_def simp del: block.simps(2) intro!: effects quiet_object quiet_world emits
        split: option.split)
  show ?thesis unfolding run_benchs_def
    by (auto intro!: effects quiet_object quiet_world emits monitor over kill)
qed

lemma quiet_rest:
  "quiet (- {Sys_fork}) h (block
     [on_world (modify (\<lambda>w. process_monitor_new (shared w))),
      scoped (run_benchs P sched turns between)
        (on_world (discard (process_monitor_delete P (sync_class P) final)))])"
proof -
  have "emits (- {Sys_fork}) (process_monitor_delete P (sync_class P) final)"
    by (rule emits_mono [OF emits_process_monitor(3) call_sets(5)])
  then show ?thesis by (auto intro!: effects quiet_world quiet_run_phase)
qed

lemma start_in_two_phases:
  assumes fork: "\<And>u. rc (answer P u Sys_fork) \<noteq> 0"
    and q: "quiet_monitor h (exec_monitor s)"
    and run: "simple_start_impl P raw junk sched turns between final (s, t) = (r, (s', t'))"
  shows "quiet_monitor h (exec_monitor s') \<and>
    (\<exists>u v. t' = t @ u @ v \<and> set u \<subseteq> - writes \<and> set v \<subseteq> - {Sys_fork})"
proof -
  let ?prepare = "act_bind (reading benchs) (\<lambda>bs. block (map (prepare_bench P raw junk) bs))"
  let ?rest = "[on_world (modify (\<lambda>w. process_monitor_new (shared w))),
        scoped (run_benchs P sched turns between)
          (on_world (discard (process_monitor_delete P (sync_class P) final)))]"
  have p: "quiet (- writes) h ?prepare" by (auto intro!: effects quiet_prepare_phase fork)
  note v = quiet_rest [of h P sched turns between final]
  obtain r1 s1 t1 where 1: "?prepare (s, t) = (r1, (s1, t1))" by (metis prod.collapse)
  from quietD [OF p 1 q] obtain u where
    u: "quiet_monitor h (exec_monitor s1)" "t1 = t @ u" "set u \<subseteq> - writes" by blast
  show ?thesis
  proof (cases r1)
    case (Inl e)
    with run 1 u show ?thesis
      by (intro conjI exI [of _ u] exI [of _ "[]"]) (auto simp: simple_start_impl_def)
  next
    case (Inr x)
    with run 1 have "block ?rest (s1, t1) = (r, (s', t'))" by (simp add: simple_start_impl_def)
    from quietD [OF v this u(1)] u show ?thesis by auto
  qed
qed

section \<open>All of \<open>main\<close>\<close>

lemma factory_table:
  assumes "distinct (map fst regs)"
  shows "map_of (creators (factory_of regs)) = map_of regs"
proof -
  have "\<exists>f. run_registars regs (factory_instance, [] :: syscall list) = (Inr (), (f, [])) \<and>
      map_of (creators f) = map_of regs"
    using run_registars_lookup [of factory_instance regs "[] :: syscall list"] assms
    by (auto simp: factory_ok_def factory_instance_def)
  then show ?thesis by (auto simp: factory_of_def)
qed

lemma created_or_thrown:
  assumes "distinct (map fst regs)" and "factory_create (factory_of regs) ident args st = (r, st')"
  shows "(\<exists>c. (ident, c) \<in> set regs \<and> c args st = (r, st')) \<or> ((\<exists>e. r = Inl (Raise e)) \<and> st' = st)"
  using assms(2) factory_table [OF assms(1)]
  by (auto simp: factory_create_def raise_def halt_def split: option.splits dest: map_of_SomeD)

lemma created_by_factory:
  assumes "distinct (map fst regs)" and "factory_create (factory_of regs) ident args st = (r, st')"
  shows "(\<exists>c. (ident, c) \<in> set regs \<and> c args st = (r, st')) \<or> (isl r \<and> st' = st)"
  using created_or_thrown [OF assms] by auto

lemma distinct_registars: "distinct (map fst (monitor_registars P T junk))"
  by (auto simp: monitor_registars_def simple_monitor_registar_def cpu_hopper_registar_def
      pmc_sampler_linux_registar_def pmc_sampler_dummy_registar_def split: host_os.split)

lemma base_constructor:
  assumes "exec_manager_new T (factory_of (monitor_registars P T junk)) properties (s, t) = (r, (s', t'))"
  shows "t' = t \<and> (r = Inr () \<longrightarrow> (\<exists>h. new_monitor h (exec_monitor s')))"
proof (cases "get_string T properties ''exec_monitor.type''")
  case (Inl e)
  with assms show ?thesis by (auto simp: exec_manager_new_def lift_get_def act_simps)
next
  case (Inr ident)
  let ?F = "factory_of (monitor_registars P T junk)"
  obtain r1 s1 t1 where c: "factory_create ?F ident properties (s, t) = (r1, (s1, t1))" by (metis prod.collapse)
  have "s1 = s \<and> t1 = t \<and> (\<forall>p. r1 = Inr p \<longrightarrow> (\<exists>h. new_monitor h p))"
    using created_by_factory [OF distinct_registars c] registered_monitors_new by fastforce
  with assms Inr c show ?thesis
    by (cases r1) (auto simp: exec_manager_new_def lift_get_def act_simps)
qed

text \<open>The constructor of the manager, whether it succeeds or not.\<close>

lemma unwinding_run:
  assumes "unwinding m c st = (r, st')"
  shows "\<exists>r1 s1 t1. m st = (r1, (s1, t1)) \<and>
    (r = r1 \<and> st' = (s1, t1) \<or> isl r1 \<and> isl r \<and> (\<exists>r2. c (s1, t1) = (r2, st')))"
proof -
  obtain r1 s1 t1 where m: "m st = (r1, (s1, t1))" by (rule prod_cases3)
  obtain r2 st2 where c: "c (s1, t1) = (r2, st2)" by (cases "c (s1, t1)")
  from assms show ?thesis unfolding m
    by (intro exI [of _ r1] exI [of _ s1] exI [of _ t1])
      (auto simp: unwinding_def catching_def act_bind_def raise_def halt_def m c
        split: sum.splits stop.splits)
qed

lemma manager_constructor:
  assumes "simple_manager_new T (factory_of (monitor_registars P T junk)) properties (s, t) = (r, (s', t'))"
  shows "(\<exists>u. t' = t @ u \<and> set u \<subseteq> monitor_calls) \<and> (r = Inr () \<longrightarrow> (\<exists>h. new_monitor h (exec_monitor s')))"
proof -
  let ?base = "exec_manager_new T (factory_of (monitor_registars P T junk)) properties"
  let ?parse = "act_bind (lift_get (get_child T properties ''exec_manager.benchmarks'')) (\<lambda>pt.
            act_bind (parse_vector T pt) (\<lambda>bs.
              modify (\<lambda>s. s\<lparr>benchs := bs, processes := replicate (length bs) None,
                world := process_monitor_new []\<rparr>)))"
  let ?number = "modify (\<lambda>s. s\<lparr>benchs := number_from 0 (benchs s)\<rparr>)"
  obtain r1 s1 t1 where 1: "?base (s, t) = (r1, (s1, t1))" by (metis prod.collapse)
  note base = base_constructor [OF 1]
  show ?thesis
  proof (cases r1)
    case (Inl e)
    with 1 base assms show ?thesis by (auto simp: simple_manager_new_def)
  next
    case (Inr x)
    with base obtain h where h: "new_monitor h (exec_monitor s1)" and t1: "t1 = t" by auto
    obtain r2 s2 t2 where 2: "unwinding ?parse exec_manager_delete (s1, t1) = (r2, (s2, t2))"
      by (rule prod_cases3)
    have pure: "emits {} ?parse" "keeps (\<lambda>s. exec_monitor s = exec_monitor s1) ?parse"
      by (auto simp: parse_vector_def parse_def lift_get_def intro!: effects split: sum.split)
    from unwinding_run [OF 2] obtain r3 s3 t3 where 3: "?parse (s1, t1) = (r3, (s3, t3))"
      and c: "r2 = r3 \<and> (s2, t2) = (s3, t3) \<or>
        isl r3 \<and> isl r2 \<and> (\<exists>r4. exec_manager_delete (s3, t3) = (r4, (s2, t2)))"
      by blast
    from emitsD [OF pure(1) 3] keepsD [OF pure(2) 3] have same: "exec_monitor s3 = exec_monitor s1" "t3 = t"
      using t1 by simp_all
    then have "quiet_monitor h (exec_monitor s3)" using h by (simp add: new_monitor_def)
    note del = delete_emits [OF _ this]
    show ?thesis
    proof (cases r2)
      case (Inl e)
      then have "r = Inl e" "t' = t2" using assms 1 2 Inr by (auto simp: simple_manager_new_def)
      with c same Inl del show ?thesis by auto
    next
      case r2: (Inr y)
      with c have "s2 = s3" "t2 = t" using same by auto
      with assms 1 2 Inr r2 same h show ?thesis
        by (auto simp: simple_manager_new_def modify_def)
    qed
  qed
qed

lemma manager_destructor:
  assumes "quiet_monitor h (exec_monitor s)" and "simple_manager_delete P (s, t) = (r, (s', t'))"
  shows "\<exists>u. t' = t @ u \<and> set u \<subseteq> - {Sys_fork}"
proof -
  let ?procs = "act_bind (reading processes) (\<lambda>ps.
    block (map (\<lambda>p. case p of None \<Rightarrow> ret () | Some ptr \<Rightarrow> on_object ptr (sync_delete P)) ps))"
  have "emits (- {Sys_fork}) (sync_delete P)" by (rule emits_mono [OF emits_sync_delete]) (use call_sets in blast)
  then have procs: "quiet (- {Sys_fork}) h ?procs" by (auto intro!: effects quiet_object split: option.split)
  obtain r1 s1 t1 where 1: "?procs (s, t) = (r1, (s1, t1))" by (rule prod_cases3)
  from quietD [OF procs 1 assms(1)] obtain u where
    u: "quiet_monitor h (exec_monitor s1)" "t1 = t @ u" "set u \<subseteq> - {Sys_fork}" by blast
  show ?thesis
  proof (cases r1)
    case (Inl e)
    with assms(2) 1 u show ?thesis by (auto simp: simple_manager_delete_def)
  next
    case (Inr x)
    with assms(2) 1 obtain r2 where "exec_manager_delete (s1, t1) = (r2, (s', t'))"
      by (auto simp: simple_manager_delete_def split: prod.splits sum.splits)
    from delete_emits [OF this u(1)] obtain v where "t' = t1 @ v" "set v \<subseteq> monitor_calls" by blast
    with u call_sets(11) show ?thesis by (intro exI [of _ "u @ v"]) auto
  qed
qed

text \<open>A manager from its \<open>start\<close> on, with the destruction at the end of its scope.\<close>

lemma managed_run:
  assumes fork: "\<And>u. rc (answer P u Sys_fork) \<noteq> 0" and q: "quiet_monitor h (exec_monitor s)"
    and run: "scoped (exec_manager_start (simple_start_impl P raw junk sched turns between final))
      (simple_manager_delete P) (s, t) = (r, (s', t'))"
  shows "\<exists>u v. t' = t @ u @ v \<and> set u \<subseteq> - writes \<and> set v \<subseteq> - {Sys_fork}"
proof -
  let ?init = "on_monitor (\<lambda>p. monitor_initialize (made_class p))"
  let ?impl = "simple_start_impl P raw junk sched turns between final"
  have body: "quiet_monitor h (exec_monitor s2) \<and>
      (\<exists>u v. t2 = t @ u @ v \<and> set u \<subseteq> - writes \<and> set v \<subseteq> - {Sys_fork})"
    if b: "exec_manager_start ?impl (s, t) = (r2, (s2, t2))" for r2 s2 t2
  proof -
    obtain r1 s1 t1 where 1: "?init (s, t) = (r1, (s1, t1))" by (rule prod_cases3)
    from quietD [OF quiet_base_operations(1) 1 q] obtain u where
      u: "quiet_monitor h (exec_monitor s1)" "t1 = t @ u" "set u \<subseteq> monitor_calls" by blast
    show ?thesis
    proof (cases r1)
      case (Inl e)
      with b 1 u call_sets(12) show ?thesis
        by (intro conjI exI [of _ u] exI [of _ "[]"]) (auto simp: exec_manager_start_def)
    next
      case (Inr x)
      with b 1 have "?impl (s1, t1) = (r2, (s2, t2))"
        by (auto simp: exec_manager_start_def split: prod.splits sum.splits)
      from start_in_two_phases [OF fork u(1) this] obtain v w where
        "quiet_monitor h (exec_monitor s2)" "t2 = t1 @ v @ w" "set v \<subseteq> - writes" "set w \<subseteq> - {Sys_fork}" by blast
      with u call_sets(12) show ?thesis by (intro conjI exI [of _ "u @ v"] exI [of _ w]) auto
    qed
  qed
  obtain r1 s1 t1 where 1: "unwinding (exec_manager_start ?impl) (simple_manager_delete P) (s, t) = (r1, (s1, t1))"
    by (rule prod_cases3)
  have delete: "\<exists>w. t' = t2 @ w \<and> set w \<subseteq> - {Sys_fork}"
    if "quiet_monitor h (exec_monitor s2)" "simple_manager_delete P (s2, t2) = (r2, (s', t'))" for s2 t2 r2
    by (rule manager_destructor [OF that])
  from unwinding_run [OF 1] obtain r2 s2 t2 where 2: "exec_manager_start ?impl (s, t) = (r2, (s2, t2))"
    and c: "r1 = r2 \<and> (s1, t1) = (s2, t2) \<or> isl r2 \<and> isl r1 \<and> (\<exists>r3. simple_manager_delete P (s2, t2) = (r3, (s1, t1)))"
    by blast
  have "\<exists>w. t' = t2 @ w \<and> set w \<subseteq> - {Sys_fork}"
  proof (cases r1)
    case (Inl e)
    with run 1 have "s' = s1" "t' = t1" by (simp_all add: scoped_def)
    with c delete body [OF 2] show ?thesis by auto
  next
    case (Inr x)
    with c have "s1 = s2" "t1 = t2" by auto
    with run 1 Inr have "\<exists>r3. simple_manager_delete P (s2, t2) = (r3, (s', t'))"
      by (auto simp: scoped_def split: prod.splits sum.splits)
    with delete body [OF 2] show ?thesis by blast
  qed
  with body [OF 2] show ?thesis by (metis append.assoc set_append Un_least)
qed

lemma noexcept_run: "noexcept m st = (r, st') \<Longrightarrow> \<exists>r'. m st = (r', st')"
  by (auto simp: noexcept_def catching_def halt_def split: prod.splits sum.splits stop.splits)

text \<open>
  C1. All commands are let run together.  In any run of the program, with any registered monitor and any
  configuration, under any schedule, and however it ends, no byte is written to a pipe, so that no
  command is let run, before the last process has been forked; and nothing is forked after that.
\<close>

theorem main_forks_then_starts:
  assumes "\<And>u. rc (answer P u Sys_fork) \<noteq> 0"
    and "aser_main P T read_json cnt help config (simple_start_impl P raw junk sched turns between final)
      (s, []) = (r, (s', t'))"
  shows "\<exists>u v. t' = u @ v \<and> (\<forall>fd bs. Sys_write fd bs \<notin> set u) \<and> Sys_fork \<notin> set v"
proof -
  have split: "\<exists>u v. t' = u @ v \<and> (\<forall>fd bs. Sys_write fd bs \<notin> set u) \<and> Sys_fork \<notin> set v"
    if "t' = u @ v" "set u \<subseteq> - writes" "set v \<subseteq> - {Sys_fork}" for u v
    using that by (intro exI [of _ u] exI [of _ v]) (auto simp: writes_def)
  let ?F = "factory_of [simple_manager_registar T (factory_of (monitor_registars P T cnt))]"
  let ?run = "scoped (exec_manager_start (simple_start_impl P raw junk sched turns between final))
    (simple_manager_delete P)"
  let ?manage = "\<lambda>ident properties. block [factory_create ?F ident properties, ?run]"
  from noexcept_run [OF assms(2) [unfolded aser_main_def]]
  have "t' = [] \<or> (\<exists>ident properties r'. ?manage ident properties (s, []) = (r', (s', t')))"
    by (auto simp: lift_get_def act_bind_def act_simps split: option.splits if_splits sum.splits)
  then show ?thesis
  proof (elim disjE exE)
    assume "t' = []"
    then show ?thesis using split [of "[]" "[]"] by simp
  next
    fix ident properties r'
    assume run: "?manage ident properties (s, []) = (r', (s', t'))"
    obtain r1 s1 t1 where 1: "factory_create ?F ident properties (s, []) = (r1, (s1, t1))" by (rule prod_cases3)
    have "distinct (map fst [simple_manager_registar T (factory_of (monitor_registars P T cnt))])" by simp
    from created_by_factory [OF this 1]
    have "(isl r1 \<and> t1 = []) \<or>
        simple_manager_new T (factory_of (monitor_registars P T cnt)) properties (s, []) = (r1, (s1, t1))"
      by (auto simp: simple_manager_registar_def)
    with manager_constructor [of T P cnt properties s "[]" r1 s1 t1]
    have new: "set t1 \<subseteq> monitor_calls" "r1 = Inr () \<Longrightarrow> \<exists>h. new_monitor h (exec_monitor s1)" by auto
    show ?thesis
    proof (cases r1)
      case (Inl e)
      with run 1 have "t' = t1" by simp
      with split [of t1 "[]"] new call_sets(12) show ?thesis by auto
    next
      case (Inr x)
      with new obtain h where "quiet_monitor h (exec_monitor s1)" by (auto simp: new_monitor_def)
      moreover from run 1 Inr have "?run (s1, t1) = (r', (s', t'))" by (simp split: prod.splits sum.splits)
      ultimately obtain u v where "t' = t1 @ u @ v" "set u \<subseteq> - writes" "set v \<subseteq> - {Sys_fork}"
        using managed_run [OF assms(1)] by blast
      with split [of "t1 @ u" v] new call_sets(12) show ?thesis by auto
    qed
  qed
qed

section \<open>A run\<close>

text \<open>
  Two benchmarks under the CPU hopper.  The first ends while \<open>wait_for_any\<close> waits, the monitor takes
  two turns, the second is killed, and its task reports in the destructor of the process monitor.
\<close>

definition demo_config :: tree where
  "demo_config = Node
     [(''exec_manager.type'', Leaf ''simple''), (''exec_monitor.type'', Leaf ''cpu-hopper''),
      (''exec_manager.benchmarks'', Node
        [([], Node [(''name'', Leaf ''first''), (''cmd'', Leaf ''/bin/true'')]),
         ([], Node [(''name'', Leaf ''second''), (''cmd'', Leaf ''/bin/sleep 1'')])])]"

definition demo_start :: "(any_monitor simple_manager, unit) sys" where
  "demo_start = simple_start_impl good_platform raw_process 0 [Task 1003, Task 1003, Client, Client]
     [[], []] [] [Task 1011, Task 1011, Client]"

definition demo_run :: "(stop + unit) \<times> any_monitor simple_manager \<times> syscall list" where
  "demo_run = aser_main good_platform tree_ops (\<lambda>_. Inr demo_config) zero_count False (Some ''aser.json'')
     demo_start (raw_manager, [])"

lemma demo_log:
  "(fst demo_run, snd (snd demo_run)) = (Inr (),
    [Sys_pipe2 524288, Sys_pipe, Fs_exists ''/bin/true'', Sys_fork, Sys_close 6, Sys_close 3,
     Sys_read 5 1, Sys_close 5, Sys_pipe2 524288, Sys_pipe, Fs_exists ''/bin/sleep'', Sys_fork,
     Sys_close 22, Sys_close 19, Sys_read 21 1, Sys_close 21, Sys_write 4 [0], Sys_close 4,
     Sys_write 20 [0], Sys_close 20, Sys_waitpid 1003, Sleep_for 500, Sys_sched_setaffinity 1003 0,
     Sys_sched_setaffinity 1011 1, Sleep_for 500, Sys_sched_setaffinity 1003 2,
     Sys_sched_setaffinity 1011 0, Sys_kill 1011 9, Sys_waitpid 1011])"
  by code_simp

lemma demo_fork: "rc (answer good_platform u Sys_fork) \<noteq> 0"
  by simp

theorem main_forks_then_starts_witness:
  "\<exists>u v. snd (snd demo_run) = u @ v \<and> (\<forall>fd bs. Sys_write fd bs \<notin> set u) \<and> Sys_fork \<notin> set v \<and>
     Sys_write 4 [0] \<in> set v \<and> fst demo_run = Inr ()"
proof -
  obtain r s t where run: "demo_run = (r, (s, t))" by (rule prod_cases3)
  note main = run [unfolded demo_run_def demo_start_def]
  obtain u v where uv: "t = u @ v" "\<forall>fd bs. Sys_write fd bs \<notin> set u" "Sys_fork \<notin> set v"
    using main_forks_then_starts [OF demo_fork main] by blast
  have "Sys_write 4 [0] \<in> set t" "r = Inr ()" using demo_log unfolding run by simp_all
  then have "Sys_write 4 [0] \<in> set v" using uv(1,2) by auto
  with \<open>r = Inr ()\<close> uv show ?thesis unfolding run by (intro exI [of _ u] exI [of _ v]) simp
qed

end
