(* ===== verification/Manager_Reaps.thy ===== *)
theory Manager_Reaps
  imports Manager_Order
begin

text \<open>
  What becomes of the processes: a run of a \<open>simple_manager\<close> that comes to its end has waited for
  each of them exactly once.
\<close>

section \<open>Invariants of the process monitor\<close>

text \<open>
  \<open>steady I\<close>: \<open>I\<close> does not notice calls other than \<open>waitpid\<close>, nor changes to objects that keep their
  process, that is their pid and whether they run.
\<close>

definition same_processes :: "sync_process process_monitor \<Rightarrow> sync_process process_monitor \<Rightarrow> bool" where
  "same_processes w w' \<longleftrightarrow> status w' = status w \<and> ended_process_queue w' = ended_process_queue w \<and>
     map sp_process (shared w') = map sp_process (shared w)"

definition steady :: "(sync_process process_monitor \<times> syscall list \<Rightarrow> bool) \<Rightarrow> bool" where
  "steady I \<longleftrightarrow> (\<forall>w t w' u. I (w, t) \<longrightarrow> same_processes w w' \<longrightarrow> set u \<inter> waitings = {} \<longrightarrow> I (w', t @ u))"

definition has_pids :: "int list \<Rightarrow> sync_process process_monitor \<Rightarrow> bool" where
  "has_pids pids w \<longleftrightarrow> map pid_of (shared w) = pids"

lemma map_same: "f p = f (xs ! i) \<Longrightarrow> map f (xs[i := p]) = map f xs"
  by (cases "i < length xs") (auto simp: list_eq_iff_nth_eq nth_list_update)

lemma same_lookup:
  assumes "same_processes w w'"
  shows "length (shared w') = length (shared w)"
    and "ptr < length (shared w) \<Longrightarrow> sp_process (shared w' ! ptr) = sp_process (shared w ! ptr)"
proof -
  from assms have m: "map sp_process (shared w') = map sp_process (shared w)" by (simp add: same_processes_def)
  then show len: "length (shared w') = length (shared w)" by (rule map_eq_imp_length_eq)
  show "ptr < length (shared w) \<Longrightarrow> sp_process (shared w' ! ptr) = sp_process (shared w ! ptr)"
    using arg_cong [OF m, of "\<lambda>xs. xs ! ptr"] len by simp
qed

lemma waits_append: "set u \<inter> waitings = {} \<Longrightarrow> waits (t @ u) = waits t"
  using emits_waits [of "- waitings" "\<lambda>(s, t). (Inr (), (s, t @ u))" "()" t "Inr ()" "()" "t @ u"]
  by (auto simp: abides_def emits_rel_def)

lemma same_facts:
  assumes same: "same_processes w w'"
  shows "has_pids pids w' = has_pids pids w" and "waiting w' = waiting w" and "result_of w' = result_of w"
    and "status w' = status w" and "ended_process_queue w' = ended_process_queue w"
proof -
  show st: "status w' = status w" "ended_process_queue w' = ended_process_queue w"
    using same by (simp_all add: same_processes_def)
  have "map pid_of ps = map proc_pid (map sp_process ps)" for ps by (simp add: pid_of_def)
  then show "has_pids pids w' = has_pids pids w"
    using same unfolding has_pids_def same_processes_def by metis
  show "waiting w' = waiting w" "result_of w' = result_of w"
    by (simp_all add: fun_eq_iff waiting_def result_of_def st)
qed

lemma base_same:
  assumes "same_processes w w'" and "set u \<inter> waitings = {}" and "sync_waitable.base_inv A (w, t)"
  shows "sync_waitable.base_inv A (w', t @ u)"
  using assms same_lookup [OF assms(1)]
  by (auto simp: sync_waitable.base_inv_def sync_waitable.pointers_ok_def same_facts [OF assms(1)]
      waits_append [OF assms(2)])

lemma pm_same:
  assumes "same_processes w w'" and "set u \<inter> waitings = {}" and "sync_waitable.pm_inv P A X (w, t)"
  shows "sync_waitable.pm_inv P A X (w', t @ u)"
  using assms base_same [OF assms(1,2)]
  by (auto simp: sync_waitable.pm_inv_def queue_ok_def same_facts [OF assms(1)] intro: sync_waitable.reported_in_append)

lemma steady_invs:
  "steady (\<lambda>st. sync_waitable.base_inv A st \<and> has_pids pids (fst st))"
  "steady (\<lambda>st. sync_waitable.pm_inv P A X st \<and> has_pids pids (fst st))"
  by (auto simp: steady_def same_facts(1) intro: base_same pm_same)

section \<open>Phases of the manager\<close>

text \<open>A quiet monitor, and \<open>I\<close> for the process monitor; the rest of the manager as it is.\<close>

definition phase_inv ::
    "(sync_process process_monitor \<times> syscall list \<Rightarrow> bool) \<Rightarrow> (exec_event \<Rightarrow> ('m, unit) sys)
     \<Rightarrow> nat option list \<Rightarrow> bool \<Rightarrow> 'm simple_manager \<times> syscall list \<Rightarrow> bool" where
  "phase_inv I h slots over st \<longleftrightarrow> quiet_monitor h (exec_monitor (fst st)) \<and> processes (fst st) = slots \<and>
     execution_ended (fst st) = over \<and> I (world (fst st), snd st)"

lemma on_monitor_frame:
  fixes s :: "'m simple_manager"
  assumes "on_monitor f (s, t) = (r, (s', t'))"
  shows "world s' = world s" and "processes s' = processes s" and "benchs s' = benchs s"
    and "execution_ended s' = execution_ended s"
  using assms by (auto simp: on_monitor_def zoom_def put_object_def act_simps split: prod.splits)

lemma same_refl [simp]: "same_processes w w"
  by (simp add: same_processes_def)

text \<open>Operations of the monitor, and of the process monitor.\<close>

lemma phase_monitor:
  fixes f :: "'m made_monitor \<Rightarrow> ('m monitor, 'a) sys"
  assumes "steady I" and q: "quiet monitor_calls h (on_monitor f :: ('m simple_manager, 'a) sys)"
  shows "maintains (phase_inv I h slots over) (on_monitor f)"
proof (rule maintainsI)
  fix s s' :: "'m simple_manager" and t r t'
  assume J: "phase_inv I h slots over (s, t)" and run: "on_monitor f (s, t) = (r, (s', t'))"
  from quietD [OF q run] J obtain u where "quiet_monitor h (exec_monitor s')" "t' = t @ u" "set u \<subseteq> monitor_calls"
    by (auto simp: phase_inv_def)
  moreover from this call_sets(10) have "set u \<inter> waitings = {}" by blast
  ultimately show "phase_inv I h slots over (s', t')"
    using J on_monitor_frame [OF run] assms(1) unfolding steady_def phase_inv_def
    by (metis fst_conv snd_conv same_refl)
qed

lemma phase_world:
  assumes "maintains I m"
  shows "maintains (phase_inv I h slots over) (on_world m)"
proof (rule maintainsI)
  fix s t r s' t'
  assume J: "phase_inv I h slots over (s, t)" and "on_world m (s, t) = (r, (s', t'))"
  then obtain w' where run: "m (world s, t) = (r, (w', t'))" and s': "s' = put_world w' s"
    by (auto simp: on_world_def zoom_def split: prod.splits)
  from maintainsD [OF assms run] J s' show "phase_inv I h slots over (s', t')"
    by (simp add: phase_inv_def put_world_def)
qed

lemma phase_object:
  assumes "steady I" and same: "\<And>q. keeps (\<lambda>p. sp_process p = q) m" and quiet: "emits (- waitings) m"
  shows "maintains (phase_inv I h slots over) (on_object ptr m)"
  unfolding on_object_def
proof (intro phase_world maintainsI)
  fix w t r w' t'
  assume I: "I (w, t)" and run: "deref ptr m (w, t) = (r, (w', t'))"
  obtain p where m: "m (shared w ! ptr, t) = (r, (p, t'))" and w': "w' = w\<lparr>shared := (shared w)[ptr := p]\<rparr>"
    using run by (auto simp: deref_def zoom_def split: prod.splits)
  from keepsD [OF same m refl] have "sp_process p = sp_process (shared w ! ptr)" .
  then have "same_processes w w'"
    by (simp add: w' same_processes_def map_same)
  moreover from emitsD [OF quiet m] obtain u where "t' = t @ u" "set u \<subseteq> - waitings" by blast
  moreover from this have "set u \<inter> waitings = {}" by blast
  ultimately show "I (w', t')" using I assms(1) unfolding steady_def by blast
qed

lemma phase_each [effects]:
  "(\<And>ptr. maintains (phase_inv I h slots over) (f ptr)) \<Longrightarrow> maintains (phase_inv I h slots over) (each_process f)"
  unfolding each_process_def by (intro effects) (auto intro!: effects split: option.split)

section \<open>From the first added process to the last kill\<close>

lemma keeps_pids:
  "keeps (has_pids pids) (run_task P (sync_class P) pid)"
proof -
  have deref: "keeps (has_pids pids) (deref ptr m)" if m: "\<And>q. keeps (\<lambda>p. pid_of p = q) m"
    for ptr and m :: "(sync_process, 'a) sys"
  proof (rule keepsI)
    fix w t r w' t'
    assume "has_pids pids w" and run: "deref ptr m (w, t) = (r, (w', t'))"
    obtain p where "m (shared w ! ptr, t) = (r, (p, t'))" and w': "w' = w\<lparr>shared := (shared w)[ptr := p]\<rparr>"
      using run by (auto simp: deref_def zoom_def split: prod.splits)
    with keepsD [OF m _ refl] have "pid_of p = pid_of (shared w ! ptr)" by blast
    with \<open>has_pids pids w\<close> show "has_pids pids w'"
      by (simp add: w' has_pids_def map_same)
  qed
  have ops: "keeps (\<lambda>p. pid_of p = q) (pc_wait (sync_class P))"
    "keeps (\<lambda>p. pid_of p = q) (pc_termination_status (sync_class P))"
    "keeps (\<lambda>p. pid_of p = q) (pc_pid (sync_class P))" for q
    by (auto simp: sync_class_def sync_wait_def sync_termination_status_def sync_pid_def on_process_def
        abides_def keeps_rel_def pid_of_def put_process_def process_defs act_simps split: if_splits)
  have set: "has_pids pids (set_task pid x w) = has_pids pids w" "has_pids pids (push_ended pid w) = has_pids pids w"
    for pid x w by (simp_all add: has_pids_def)
  show ?thesis
    by (auto simp: run_task_def finish_with_def wait_for_pid_def wait_for_process_def set
        intro!: effects deref ops split: option.split task.split)
qed

lemma base_run_task: "maintains (sync_waitable.base_inv A) (run_task P (sync_class P) pid)"
proof (rule maintainsI)
  fix w t r w' t'
  assume inv: "sync_waitable.base_inv A (w, t)" and run: "run_task P (sync_class P) pid (w, t) = (r, (w', t'))"
  from sync_waitable.run_task_steps [OF inv] obtain st' where
    "run_task P (sync_class P) pid (w, t) = (Inr (), st')" "task_step P pid (w, t) st'" by blast
  with run have "task_step P pid (w, t) (w', t')" by auto
  from sync_waitable.step_base(1) [OF this inv] show "sync_waitable.base_inv A (w', t')" .
qed

lemma stays_processes:
  "keeps (\<lambda>p. sp_process p = q) (sync_start P)" "emits (- waitings) (sync_start P)"
  "keeps (\<lambda>p. sp_process p = q) (sync_kill P PROC)" "emits (- waitings) (sync_kill P PROC)"
proof -
  show "keeps (\<lambda>p. sp_process p = q) (sync_start P)"
    by (auto simp: sync_start_def intro!: effects keeps_on_pipe)
  show "emits (- waitings) (sync_start P)" by (rule emits_mono [OF emits_sync_start]) (use call_sets in blast)
  show "keeps (\<lambda>p. sp_process p = q) (sync_kill P PROC)"
    by (auto simp: sync_kill_def kill_process_def util_kill_def sync_pid_def on_process_def get_pid_def
        abides_def keeps_rel_def put_process_def act_simps split: if_splits)
  show "emits (- waitings) (sync_kill P PROC)" by (rule emits_mono [OF emits_kill_sync call_sets(7)])
qed

text \<open>What is true of the processes while the manager kills them: \<open>base_inv\<close>, and the pids.\<close>

definition base_pids :: "int list \<Rightarrow> sync_process process_monitor \<times> syscall list \<Rightarrow> bool" where
  "base_pids pids st \<longleftrightarrow> sync_waitable.base_inv (set pids) st \<and> has_pids pids (fst st)"

definition pm_pids :: "platform \<Rightarrow> int list \<Rightarrow> sync_process process_monitor \<times> syscall list \<Rightarrow> bool" where
  "pm_pids P pids st \<longleftrightarrow> sync_waitable.pm_inv P (set pids) {} st \<and> has_pids pids (fst st)"

lemma steady_pids: "steady (base_pids pids)" "steady (pm_pids P pids)"
  using steady_invs by (simp_all add: base_pids_def [abs_def] pm_pids_def [abs_def])

lemma pm_base_pids: "pm_pids P pids st \<Longrightarrow> base_pids pids st"
  by (simp add: pm_pids_def base_pids_def sync_waitable.pm_inv_def)

lemma base_run: "maintains (base_pids pids) (run_task P (sync_class P) pid)"
  by (rule maintainsI) (auto simp: base_pids_def dest: maintainsD [OF base_run_task] keepsD [OF keeps_pids])

lemma kill_phase: "maintains (phase_inv (base_pids pids) h slots over) (kill_each P ps between)"
proof (induction ps arbitrary: between)
  case Nil
  then show ?case by (auto intro!: effects)
next
  case (Cons p ps)
  have "maintains (phase_inv (base_pids pids) h slots over) (on_object ptr (sync_kill P PROC))" for ptr
    by (rule phase_object [OF steady_pids(1) stays_processes(3,4)])
  with Cons show ?case
    by (auto simp: run_tasks_def simp del: block.simps(2) intro!: effects phase_world base_run split: option.split)
qed

section \<open>Adding, waiting, destroying\<close>

lemma add_one:
  assumes "sync_waitable.pm_inv P A {} (w, t)" and "dom (map_of (status w)) = A"
    and "ptr < length (shared w)" and "running (shared w ! ptr)"
    and run: "add_process (sync_class P) ptr (w, t) = (Inr (), (w', t'))"
  shows "pid_of (shared w ! ptr) \<notin> A \<and> t' = t \<and> shared w' = shared w \<and>
    sync_waitable.pm_inv P (insert (pid_of (shared w ! ptr)) A) {} (w', t) \<and>
    dom (map_of (status w')) = insert (pid_of (shared w ! ptr)) A"
proof -
  let ?p = "shared w ! ptr" and ?pid = "pid_of (shared w ! ptr)"
  have "deref ptr (pc_pid (sync_class P)) (w, t) = (Inr ?pid, (w, t))"
    using assms(4) by (simp add: deref_def zoom_def sync_waitable.pid_run running_def pid_of_def)
  with run have new: "map_of (status w) ?pid = None" and w': "w' = set_task ?pid (Waiting_process ptr) w" "t' = t"
    by (auto simp: add_process_def check_duplicated_pid_def act_simps split: if_splits)
  then have out: "?pid \<notin> A" using assms(2) by auto
  have "Waiting_process ptr = Waiting_pid \<or> (\<exists>q < length (shared w). Waiting_process ptr = Waiting_process q \<and>
      (started (sp_process (shared w ! q)) \<and> \<not> terminated (sp_process (shared w ! q))) \<and>
      proc_pid (sp_process (shared w ! q)) = ?pid)"
    using assms(3,4) by (auto simp: running_def pid_of_def)
  from sync_waitable.add_inv(1,2) [OF assms(1) out this] show ?thesis
    using w' out assms(2) by simp
qed

lemma add_many:
  assumes "sync_waitable.pm_inv P A {} (w, t)" and "dom (map_of (status w)) = A"
    and "\<And>ptr. ptr \<in> set ptrs \<Longrightarrow> ptr < length (shared w) \<and> running (shared w ! ptr)"
    and "block (map (add_process (sync_class P)) ptrs) (w, t) = (Inr (), (w', t'))"
  shows "t' = t \<and> shared w' = shared w \<and> distinct (map (\<lambda>ptr. pid_of (shared w ! ptr)) ptrs) \<and>
    A \<inter> (\<lambda>ptr. pid_of (shared w ! ptr)) ` set ptrs = {} \<and>
    sync_waitable.pm_inv P (A \<union> (\<lambda>ptr. pid_of (shared w ! ptr)) ` set ptrs) {} (w', t)"
  using assms
proof (induction ptrs arbitrary: A w)
  case Nil
  then show ?case by simp
next
  case (Cons ptr ptrs)
  let ?pid = "\<lambda>ptr. pid_of (shared w ! ptr)"
  obtain w1 t1 where one: "add_process (sync_class P) ptr (w, t) = (Inr (), (w1, t1))"
    and rest: "block (map (add_process (sync_class P)) ptrs) (w1, t1) = (Inr (), (w', t'))"
    using Cons.prems(4) by (auto simp del: block.simps(2) elim!: block_returnsE)
  have "ptr < length (shared w)" "running (shared w ! ptr)" using Cons.prems(3) by simp_all
  from add_one [OF Cons.prems(1,2) this one]
  have 1: "?pid ptr \<notin> A" "t1 = t" "shared w1 = shared w"
    "sync_waitable.pm_inv P (insert (?pid ptr) A) {} (w1, t)" "dom (map_of (status w1)) = insert (?pid ptr) A"
    by simp_all
  have "q < length (shared w1) \<and> running (shared w1 ! q)" if "q \<in> set ptrs" for q
    using Cons.prems(3) that 1(3) by simp
  from Cons.IH [OF 1(4,5) this rest [unfolded 1(2)]] 1 show ?case by auto
qed

lemma each_process_slots:
  assumes "processes s = map Some [0..<n]"
  shows "each_process f (s, t) = block (map f [0..<n]) (s, t)"
  by (simp add: each_process_def act_simps assms comp_def)

lemma wait_phase:
  assumes "pm_pids P pids (w, t)" and "wait_for_any P (sync_class P) sched (w, t) = (Inr x, (w', t'))"
  shows "base_pids pids (w', t')"
proof -
  from assms sync_waitable.wait_for_any_ok [of P "set pids" w t sched "Inr x" w' t']
  have "sync_waitable.pm_inv P (set pids) {} (w', t')" by (auto simp: pm_pids_def)
  moreover have "has_pids pids w'"
  proof -
    have "keeps (has_pids pids) pop_ended"
      by (rule keepsI) (auto simp: pop_ended_def has_pids_def split: option.splits)
    moreover have "keeps (has_pids pids) (future_get pid)" for pid
      by (auto simp: future_get_def has_pids_def intro!: effects split: option.split task.split sum.split)
    ultimately have "keeps (has_pids pids) (wait_for_any P (sync_class P) sched)"
      by (auto simp: wait_for_any_def has_pids_def [symmetric]
          intro!: effects abides_await [OF keeps.effect_rel_axioms] keeps_pids) (simp add: has_pids_def)
    from keepsD [OF this assms(2)] assms(1) show ?thesis by (simp add: pm_pids_def)
  qed
  ultimately show ?thesis by (simp add: base_pids_def sync_waitable.pm_inv_def)
qed

text \<open>When the destructor of the process monitor returns, everybody has been waited for.\<close>

lemma delete_phase:
  assumes "base_pids pids (w, t)"
    and "process_monitor_delete P (sync_class P) sched (w, t) = (Inr x, (w', t'))"
  shows "has_pids pids w' \<and> (\<forall>pid. waits t' pid = (if pid \<in> set pids then 1 else 0))"
proof -
  have run: "get_all P (sync_class P) (map fst (status w)) sched (w, t) = (Inr x, (w', t'))"
    using assms(2) by (simp add: process_monitor_delete_def act_simps)
  have base: "sync_waitable.base_inv (set pids) (w, t)" using assms(1) by (simp add: base_pids_def)
  from sync_waitable.get_all_ok [OF base run] have inv: "sync_waitable.base_inv (set pids) (w', t')"
    and dom: "dom (map_of (status w')) = dom (map_of (status w))"
    and over: "\<forall>pid \<in> set (map fst (status w)). \<not> waiting w' pid" by auto
  have none: "\<not> waiting w' pid" for pid
  proof (cases "pid \<in> dom (map_of (status w))")
    case True
    with over show ?thesis by (auto simp: dom_map_of_conv_image_fst)
  next
    case False
    with dom have "map_of (status w') pid = None" by auto
    then show ?thesis by (simp add: waiting_def)
  qed
  have "keeps (has_pids pids) (future_get pid)" for pid
    by (auto simp: future_get_def has_pids_def intro!: effects split: option.split task.split sum.split)
  then have "keeps (has_pids pids) (get_all P (sync_class P) (map fst (status w)) sched)"
    by (rule abides_get_all [OF keeps.effect_rel_axioms keeps_pids])
  from keepsD [OF this run] assms(1) have "has_pids pids w'" by (simp add: base_pids_def)
  with inv none show ?thesis by (simp add: sync_waitable.base_inv_def)
qed

section \<open>The whole run\<close>

interpretation world_member: lens "world :: 'm simple_manager \<Rightarrow> _" put_world
  by unfold_locales (simp_all add: put_world_def)

lemma phase_add:
  fixes s :: "'m simple_manager" and ps :: "sync_process list"
  defines "slots \<equiv> map Some [0..<length ps]" and "pids \<equiv> map pid_of ps"
  assumes "quiet_monitor h (exec_monitor s)" and slots: "processes s = slots"
    and w: "world s = process_monitor_new ps" and ps: "\<forall>p \<in> set ps. running p"
    and t: "\<And>pid. waits t pid = 0"
    and run: "each_process (\<lambda>ptr. on_world (add_process (sync_class P) ptr)) (s, t) = (Inr (), (s', t'))"
  shows "distinct pids \<and> phase_inv (pm_pids P pids) h slots (execution_ended s) (s', t')"
proof -
  let ?adds = "map (add_process (sync_class P)) [0..<length ps]"
  have "each_process (\<lambda>ptr. on_world (add_process (sync_class P) ptr)) (s, t) =
      block (map on_world ?adds) (s, t)"
    using each_process_slots [OF slots [unfolded slots_def]] by (simp add: comp_def)
  also have "\<dots> = on_world (block ?adds) (s, t)"
    by (simp only: on_world_def world_member.zoom_block)
  finally obtain w' where adds: "block ?adds (world s, t) = (Inr (), (w', t'))" and s': "s' = put_world w' s"
    using run by (auto simp: on_world_def zoom_def split: prod.splits)
  have inv: "sync_waitable.pm_inv P {} {} (world s, t)" unfolding w by (rule sync_waitable.start_inv [OF t])
  have dom: "dom (map_of (status (world s))) = {}" by (simp add: w process_monitor_new_def)
  have sh: "shared (world s) = ps" by (simp add: w process_monitor_new_def)
  have "ptr < length (shared (world s)) \<and> running (shared (world s) ! ptr)" if "ptr \<in> set [0..<length ps]" for ptr
    using that ps sh by simp
  note many = add_many [OF inv dom this adds, unfolded sh]
  have pids: "map (\<lambda>ptr. pid_of (ps ! ptr)) [0..<length ps] = pids"
    unfolding pids_def by (rule nth_equalityI) simp_all
  then have "(\<lambda>ptr. pid_of (ps ! ptr)) ` set [0..<length ps] = set pids" by (metis list.set_map)
  with many pids have "distinct pids" "t' = t" "shared w' = ps" "sync_waitable.pm_inv P (set pids) {} (w', t)" by auto
  with s' assms(3) slots show ?thesis
    by (simp add: phase_inv_def pm_pids_def has_pids_def put_world_def pids_def)
qed

lemma phase_monitor_turns:
  "maintains (phase_inv (base_pids pids) h slots over) (let_monitor_run turns)"
  "maintains (phase_inv (base_pids pids) h slots over) stop_exec_monitor"
  unfolding let_monitor_run_def stop_exec_monitor_def
  by (auto intro!: effects phase_monitor [OF steady_pids(1)] quiet_run quiet_base_operations)

lemma run_phase:
  fixes s :: "'m simple_manager" and ps :: "sync_process list"
  defines "slots \<equiv> map Some [0..<length ps]" and "pids \<equiv> map pid_of ps"
  assumes q: "quiet_monitor h (exec_monitor s)" and slots: "processes s = slots"
    and w: "world s = process_monitor_new ps" and ps: "\<forall>p \<in> set ps. running p"
    and t: "\<And>pid. waits t pid = 0"
    and run: "run_benchs P sched turns between (s, t) = (Inr (), (s', t'))"
  shows "distinct pids \<and> phase_inv (base_pids pids) h slots True (s', t')"
proof -
  obtain s1 t1 s2 t2 s3 t3 s4 t4 s5 t5 sr tr s6 t6 s7 t7 where
    1: "each_process (\<lambda>ptr. on_world (add_process (sync_class P) ptr)) (s, t) = (Inr (), (s1, t1))"
    and 2: "prepare_exec_monitor (s1, t1) = (Inr (), (s2, t2))"
    and 3: "each_process (\<lambda>ptr. on_object ptr (sync_start P)) (s2, t2) = (Inr (), (s3, t3))"
    and 4: "start_exec_monitor (s3, t3) = (Inr (), (s4, t4))"
    and 5: "on_world (discard (wait_for_any P (sync_class P) sched)) (s4, t4) = (Inr (), (s5, t5))"
    and r: "let_monitor_run turns (s5, t5) = (Inr (), (sr, tr))"
    and 6: "execution_end (sr, tr) = (Inr (), (s6, t6))"
    and 7: "stop_exec_monitor (s6, t6) = (Inr (), (s7, t7))"
    and 8: "kill_each P (processes s7) between (s7, t7) = (Inr (), (s', t'))"
    using run unfolding run_benchs_def
    by (elim block_returnsE) (auto simp: act_simps)
  let ?over = "execution_ended s"
  have dist: "distinct pids" and J1: "phase_inv (pm_pids P pids) h slots ?over (s1, t1)"
    using phase_add [OF q slots [unfolded slots_def] w ps t 1] by (simp_all add: slots_def pids_def)
  note pm = steady_pids(2) and base = steady_pids(1)
  note ops = quiet_base_operations [unfolded prepare_exec_monitor_def start_exec_monitor_def]
  have J4: "phase_inv (pm_pids P pids) h slots ?over (s4, t4)"
  proof -
    have "maintains (phase_inv (pm_pids P pids) h slots ?over) prepare_exec_monitor"
      "maintains (phase_inv (pm_pids P pids) h slots ?over) start_exec_monitor"
      unfolding prepare_exec_monitor_def start_exec_monitor_def
      by (rule phase_monitor [OF pm ops(2)], rule phase_monitor [OF pm ops(3)])
    moreover have "maintains (phase_inv (pm_pids P pids) h slots ?over) (each_process (\<lambda>ptr. on_object ptr (sync_start P)))"
      by (intro effects phase_object pm stays_processes)
    ultimately show ?thesis using J1 2 3 4 maintainsD by metis
  qed
  have J5: "phase_inv (base_pids pids) h slots ?over (s5, t5)"
  proof -
    obtain x w' where any: "wait_for_any P (sync_class P) sched (world s4, t4) = (Inr x, (w', t5))"
      and s5: "s5 = put_world w' s4"
      using 5 by (auto simp: on_world_def zoom_def discard_def act_bind_def ret_def split: prod.splits sum.splits)
    have "pm_pids P pids (world s4, t4)" using J4 by (simp add: phase_inv_def)
    from wait_phase [OF this any] J4 s5 show ?thesis by (simp add: phase_inv_def put_world_def)
  qed
  have J6: "phase_inv (base_pids pids) h slots True (s6, t6)"
    using maintainsD [OF phase_monitor_turns(1) r J5] 6 by (auto simp: phase_inv_def execution_end_def act_simps)
  from maintainsD [OF phase_monitor_turns(2) 7 J6] have "phase_inv (base_pids pids) h slots True (s7, t7)" .
  with dist maintainsD [OF kill_phase 8] show ?thesis by blast
qed

text \<open>What the constructor of the manager leaves when it returns.\<close>

lemma constructed:
  assumes "simple_manager_new T (factory_of (monitor_registars P T junk)) properties (s, t) = (Inr (), (s', t'))"
  shows "\<exists>h bs. new_monitor h (exec_monitor s') \<and> benchs s' = number_from 0 bs \<and>
    processes s' = replicate (length bs) None \<and> shared (world s') = [] \<and> \<not> execution_ended s' \<and> t' = t"
proof -
  obtain s1 t1 where 1: "exec_manager_new T (factory_of (monitor_registars P T junk)) properties (s, t) = (Inr (), (s1, t1))"
    and 2: "block [unwinding
          (act_bind (lift_get (get_child T properties ''exec_manager.benchmarks'')) (\<lambda>pt.
            act_bind (parse_vector T pt) (\<lambda>bs.
              modify (\<lambda>s. s\<lparr>benchs := bs, processes := replicate (length bs) None,
                world := process_monitor_new []\<rparr>))))
          exec_manager_delete,
        modify (\<lambda>s. s\<lparr>benchs := number_from 0 (benchs s)\<rparr>)] (s1, t1) = (Inr (), (s', t'))"
    using assms unfolding simple_manager_new_def by (elim block_returnsE) auto
  obtain h where h: "new_monitor h (exec_monitor s1)" and t1: "t1 = t" using base_constructor [OF 1] by auto
  have over: "\<not> execution_ended s1"
    using 1 unfolding exec_manager_new_def by (elim bind_returnsE) (auto simp: modify_def)
  from 2 obtain s3 t3 where 3: "unwinding
          (act_bind (lift_get (get_child T properties ''exec_manager.benchmarks'')) (\<lambda>pt.
            act_bind (parse_vector T pt) (\<lambda>bs.
              modify (\<lambda>s. s\<lparr>benchs := bs, processes := replicate (length bs) None,
                world := process_monitor_new []\<rparr>))))
          exec_manager_delete (s1, t1) = (Inr (), (s3, t3))"
    and 4: "s' = s3\<lparr>benchs := number_from 0 (benchs s3)\<rparr>" "t' = t3"
    by (elim block_returnsE) (auto simp: modify_def)
  obtain pt bs s2 t2 where parse: "parse_vector T pt (s1, t1) = (Inr bs, (s2, t2))"
    and s': "s' = s2\<lparr>benchs := number_from 0 bs, processes := replicate (length bs) None,
      world := process_monitor_new []\<rparr>" "t' = t2"
    using 3 [unfolded unwinding_returns] 4
    by (elim bind_returnsE) (auto simp: lift_get_def modify_def act_simps split: sum.splits)
  moreover note parse
  moreover have "emits {} (parse_vector T pt)" "keeps (\<lambda>s. s = s1) (parse_vector T pt)"
    by (auto simp: parse_vector_def parse_def intro!: effects)
  ultimately have "s2 = s1" "t2 = t1" by (auto dest: emitsD keepsD)
  with h t1 over s' show ?thesis
    by (intro exI [of _ h] exI [of _ bs]) (simp add: process_monitor_new_def)
qed

text \<open>From \<open>start_impl\<close> on.\<close>

lemma start_impl_returns:
  assumes "quiet_monitor h (exec_monitor s)" and "benchs s = number_from 0 bs"
    and "processes s = replicate (length bs) None" and "shared (world s) = []"
    and "length bs < 2 ^ 32" and "\<And>pid. waits t pid = 0"
    and run: "simple_start_impl P raw junk sched turns between final (s, t) = (Inr (), (s', t'))"
  shows "execution_ended s' \<and> processes s' = map Some [0..<length bs] \<and>
    length (shared (world s')) = length bs \<and> distinct (map pid_of (shared (world s'))) \<and>
    (\<forall>pid. waits t' pid = (if pid \<in> pid_of ` set (shared (world s')) then 1 else 0))"
proof -
  obtain s1 t1 s2 t2 s3 t3 where
    1: "block (map (prepare_bench P raw junk) (number_from (word_of_nat 0) bs)) (s, t) = (Inr (), (s1, t1))"
    and 2: "on_world (modify (\<lambda>w. process_monitor_new (shared w))) (s1, t1) = (Inr (), (s2, t2))"
    and 3: "run_benchs P sched turns between (s2, t2) = (Inr (), (s3, t3))"
    and 4: "on_world (discard (process_monitor_delete P (sync_class P) final)) (s3, t3) = (Inr (), (s', t'))"
    using run unfolding simple_start_impl_def scoped_def
    by (elim block_returnsE) (auto simp: act_simps assms(2) unwinding_returns
        simp del: block.simps(2) elim!: block_returnsE)
  from prepare_all_returns [OF 1] assms(3-5) obtain ps where
    ps: "shared (world s1) = ps" "map (\<lambda>p. proc_args (sp_process p)) ps = map bench_args bs" "\<forall>p \<in> set ps. running p"
      "processes s1 = map Some [0..<length bs]" "waits t1 = waits t"
      "exec_monitor s1 = (exec_monitor s)\<lparr>made_object := (made_object (exec_monitor s))
        \<lparr>event_queue := fold cq_push (map created ps) (event_queue (made_object (exec_monitor s)))\<rparr>\<rparr>"
    by auto
  have len: "length ps = length bs" by (rule map_eq_imp_length_eq [OF ps(2)])
  have "quiet_monitor h (exec_monitor s1)" using assms(1) unfolding ps(6) by (simp add: quiet_monitor_def)
  moreover have s2: "s2 = s1\<lparr>world := process_monitor_new ps\<rparr>" "t2 = t1"
    using 2 ps(1) by (auto simp: on_world_def zoom_def put_world_def modify_def)
  ultimately have q: "quiet_monitor h (exec_monitor s2)" "processes s2 = map Some [0..<length ps]"
    "world s2 = process_monitor_new ps" "\<And>pid. waits t2 pid = 0"
    using ps len assms(6) by simp_all
  from run_phase [OF q(1-3) ps(3) q(4) 3] have dist: "distinct (map pid_of ps)"
    and J: "execution_ended s3" "processes s3 = map Some [0..<length ps]" "base_pids (map pid_of ps) (world s3, t3)"
    by (simp_all add: phase_inv_def)
  obtain x w' where "process_monitor_delete P (sync_class P) final (world s3, t3) = (Inr x, (w', t'))"
    and s': "s' = put_world w' s3"
    using 4 by (auto simp: on_world_def zoom_def discard_def act_bind_def ret_def split: prod.splits sum.splits)
  from delete_phase [OF J(3) this(1)] have pids: "map pid_of (shared w') = map pid_of ps"
    and w: "\<forall>pid. waits t' pid = (if pid \<in> set (map pid_of ps) then 1 else 0)"
    by (simp_all add: has_pids_def)
  have "pid_of ` set (shared w') = set (map pid_of ps)" using pids by (metis list.set_map)
  moreover have "length (shared w') = length bs" using map_eq_imp_length_eq [OF pids] len by simp
  ultimately show ?thesis using s' dist pids w J len by (simp add: put_world_def)
qed

text \<open>
  C2. Nobody is left behind.  For any registered monitor and configuration and under any schedule: if
  the constructor of the manager and its \<open>start\<close> return, then the execution has ended, every benchmark
  has got its own process, all of them with different pids, and each of these processes has been
  waited for exactly once, whether it ended or was killed; nobody else has been waited for.
\<close>

theorem simple_manager_reaps:
  assumes "simple_manager_new T (factory_of (monitor_registars P T cnt)) properties (s0, []) = (Inr (), (s, t))"
    and "exec_manager_start (simple_start_impl P raw junk sched turns between final) (s, t) = (Inr (), (s', t'))"
    and "length (benchs s) < 2 ^ 32"
  shows "is_execution_over s' \<and> processes s' = map Some [0..<length (benchs s)] \<and>
    length (shared (world s')) = length (benchs s) \<and> distinct (map pid_of (shared (world s'))) \<and>
    (\<forall>pid. waits t' pid = (if pid \<in> pid_of ` set (shared (world s')) then 1 else 0))"
proof -
  from constructed [OF assms(1)] obtain h bs where
    new: "quiet_monitor h (exec_monitor s)" "benchs s = number_from 0 bs"
      "processes s = replicate (length bs) None" "shared (world s) = []" "t = []"
    by (auto simp: new_monitor_def)
  from assms(2) obtain s1 t1 where
    1: "on_monitor (\<lambda>p. monitor_initialize (made_class p)) (s, t) = (Inr (), (s1, t1))"
    and 2: "simple_start_impl P raw junk sched turns between final (s1, t1) = (Inr (), (s', t'))"
    unfolding exec_manager_start_def by (elim block_returnsE) auto
  from quietD [OF quiet_base_operations(1) 1 new(1)] obtain u where
    q: "quiet_monitor h (exec_monitor s1)" and u: "t1 = u" "set u \<subseteq> monitor_calls" using new(5) by auto
  from u call_sets(10) have "set u \<inter> waitings = {}" by blast
  from waits_append [OF this, of "[]"] u(1) have t1: "waits t1 pid = 0" for pid by simp
  have len: "length bs = length (benchs s)" by (simp add: new(2) number_from_length)
  from start_impl_returns [OF q _ _ _ _ t1 2, of bs] on_monitor_frame [OF 1] new assms(3)
  show ?thesis unfolding len is_execution_over_def by (simp add: len)
qed

theorem simple_manager_reaps_witness:
  "\<exists>s t s' t'. simple_manager_new tree_ops (factory_of (monitor_registars good_platform tree_ops zero_count))
      demo_config (raw_manager, []) = (Inr (), (s, t)) \<and>
    exec_manager_start demo_start (s, t) = (Inr (), (s', t')) \<and> is_execution_over s' \<and>
    length (shared (world s')) = 2 \<and> (\<forall>p \<in> set (shared (world s')). waits t' (pid_of p) = 1)"
proof -
  let ?new = "simple_manager_new tree_ops (factory_of (monitor_registars good_platform tree_ops zero_count))
      demo_config (raw_manager, [])"
  obtain r s t where 1: "?new = (r, (s, t))" by (rule prod_cases3)
  obtain r' s' t' where 2: "exec_manager_start demo_start (s, t) = (r', (s', t'))" by (rule prod_cases3)
  have "(fst ?new, length (benchs (fst (snd ?new))), fst (exec_manager_start demo_start (snd ?new))) =
      (Inr (), 2, Inr ())" by code_simp
  then have ok: "r = Inr ()" "length (benchs s) = 2" "r' = Inr ()" unfolding 1 using 2 by simp_all
  note run = simple_manager_reaps [OF 1 [unfolded ok] 2 [unfolded ok demo_start_def]]
  have "length (benchs s) < 2 ^ 32" by (simp add: ok)
  from run [OF this] 1 2 ok show ?thesis by auto
qed

end
