(* ===== verification/Frugal_Monitors.thy ===== *)
theory Frugal_Monitors
  imports Exec_Manager Sync_Process
begin

text \<open>
  Descriptors: how those the system hands out are balanced against those held and those closed, and
  what monitors do with theirs.  \<open>frugal_monitor\<close> is the contract; every monitor the factory creates
  keeps it.
\<close>

section \<open>What the system hands out\<close>

text \<open>
  The descriptors a call hands out: both ends of a pipe, or a performance counter, 0 excepted, which
  the code takes for none.
\<close>

definition handed :: "platform \<Rightarrow> syscall list \<Rightarrow> syscall \<Rightarrow> int list" where
  "handed P t c = (let r = answer P t c; ends = (if rc r = 0 then [fst (out_fds r), snd (out_fds r)] else [])
     in case c of Sys_pipe \<Rightarrow> ends | Sys_pipe2 _ \<Rightarrow> ends | _ \<Rightarrow> opened_by P t c)"

definition taken :: "platform \<Rightarrow> syscall list \<Rightarrow> int \<Rightarrow> nat" where
  "taken P t fd = (\<Sum>i<length t. count_list (handed P (take i t) (t ! i)) fd)"

lemma taken_simps [simp]:
  "taken P [] fd = 0" "taken P (t @ [c]) fd = taken P t fd + count_list (handed P t c) fd"
  by (simp_all add: taken_def nth_append)

text \<open>Calls that neither hand out nor take back.\<close>

definition neutral :: "syscall set" where
  "neutral = - (range Sys_close \<union> {Sys_pipe} \<union> range Sys_pipe2 \<union> {c. \<exists>a p. c = Sys_perf_event_open a p})"

lemma handed_neutral [simp]: "c \<in> neutral \<Longrightarrow> handed P t c = []" "handed P t (Sys_close fd) = []"
  by (cases c; simp add: neutral_def handed_def opened_by_def Let_def) (simp add: handed_def)

lemma neutral_simps [simp]:
  "Sys_read fd n \<in> neutral" "Sys_write fd bs \<in> neutral" "Sys_fork \<in> neutral" "Sys_waitpid p \<in> neutral"
  "Sys_kill p g \<in> neutral" "Fs_exists f \<in> neutral" "Sys_getpid \<in> neutral" "Sys_setpgid p g \<in> neutral"
  "Sys_getpgid p \<in> neutral" "Sys_execvp f as \<in> neutral" "Sys_fcntl_getfd fd \<in> neutral"
  "Sys_fcntl_setfd fd fl \<in> neutral" "Sleep_for n \<in> neutral" "Sys_sched_setaffinity p n \<in> neutral"
  "Sys_close fd \<notin> neutral"
  by (auto simp: neutral_def)

lemma neutral_log:
  assumes "set u \<subseteq> neutral"
  shows "taken P (t @ u) fd = taken P t fd \<and> closes u fd = 0"
  using assms
proof (induction u rule: rev_induct)
  case Nil
  then show ?case by simp
next
  case (snoc c u)
  then have "c \<noteq> Sys_close fd" by auto
  with snoc show ?case by (simp flip: append_assoc)
qed

lemma perf_taken:
  assumes "set u \<subseteq> monitor_calls"
  shows "taken P (t @ u) fd + count_list (perf_opened P t) fd = taken P t fd + count_list (perf_opened P (t @ u)) fd"
  using assms
proof (induction u rule: rev_induct)
  case Nil
  then show ?case by simp
next
  case (snoc c u)
  then have "handed P (t @ u) c = opened_by P (t @ u) c"
    by (auto simp: monitor_calls_def handed_def Let_def)
  with snoc show ?case by (simp flip: append_assoc)
qed

lemma perf_closes: "count_list (perf_closed t) fd = closes t fd"
  by (induction t) (auto simp: perf_closed_def split: syscall.split)

section \<open>Balance\<close>

text \<open>
  \<open>h\<close> says how often an object holds a descriptor.  What is taken is held or given back; \<open>-1\<close>
  stands for no descriptor.
\<close>

definition ledger_rel :: "platform \<Rightarrow> ('s \<Rightarrow> int \<Rightarrow> nat) \<Rightarrow> 's \<times> syscall list \<Rightarrow> 's \<times> syscall list \<Rightarrow> bool" where
  "ledger_rel P h st st' \<longleftrightarrow> (\<forall>fd. fd \<noteq> -1 \<longrightarrow>
     taken P (snd st') fd + closes (snd st) fd + h (fst st) fd =
     taken P (snd st) fd + closes (snd st') fd + h (fst st') fd)"

abbreviation ledger :: "platform \<Rightarrow> ('s \<Rightarrow> int \<Rightarrow> nat) \<Rightarrow> ('s, 'a) sys \<Rightarrow> bool" where
  "ledger P h \<equiv> abides (ledger_rel P h)"

lemma ledger_trans:
  assumes "ledger_rel P h st st'" and "ledger_rel P h st' st''"
  shows "ledger_rel P h st st''"
  unfolding ledger_rel_def
proof (intro allI impI)
  fix fd :: int
  assume "fd \<noteq> -1"
  with assms have
    "taken P (snd st') fd + closes (snd st) fd + h (fst st) fd = taken P (snd st) fd + closes (snd st') fd + h (fst st') fd"
    "taken P (snd st'') fd + closes (snd st') fd + h (fst st') fd = taken P (snd st') fd + closes (snd st'') fd + h (fst st'') fd"
    unfolding ledger_rel_def by blast+
  then show "taken P (snd st'') fd + closes (snd st) fd + h (fst st) fd =
      taken P (snd st) fd + closes (snd st'') fd + h (fst st'') fd" by linarith
qed

interpretation ledger: effect_rel "ledger_rel P h" for P h
  by unfold_locales (simp add: ledger_rel_def, rule ledger_trans)

lemma ledger_neutral:
  assumes "emits neutral m" and "\<And>s t r s' t'. m (s, t) = (r, (s', t')) \<Longrightarrow> h s' = h s"
  shows "ledger P h m"
proof (rule abidesI)
  fix s t r s' t'
  assume run: "m (s, t) = (r, (s', t'))"
  from emitsD [OF assms(1) run] obtain u where u: "t' = t @ u" "set u \<subseteq> neutral" by blast
  with neutral_log [OF u(2), of P t] assms(2) [OF run] show "ledger_rel P h (s, t) (s', t')"
    by (simp add: ledger_rel_def)
qed

text \<open>The objects made of pipes balance already, as long as they open nothing.\<close>

lemma ledger_balanced:
  assumes "balanced h m" and "emits (neutral \<union> range Sys_close) m"
  shows "ledger P h m"
proof (rule abidesI)
  fix s t r s' t'
  assume run: "m (s, t) = (r, (s', t'))"
  have same: "taken P (t @ u) fd = taken P t fd" if "set u \<subseteq> neutral \<union> range Sys_close" for u fd
    using that
  proof (induction u rule: rev_induct)
    case (snoc c u)
    then show ?case by (cases "c \<in> neutral") (auto simp flip: append_assoc)
  qed simp
  from emitsD [OF assms(2) run] obtain u where u: "t' = t @ u" "set u \<subseteq> neutral \<union> range Sys_close" by blast
  from abidesD [OF assms(1) run] same [OF u(2)] show "ledger_rel P h (s, t) (s', t')"
    by (auto simp: ledger_rel_def balanced_rel_def u(1))
qed

text \<open>The monitor with its event managers balances as well.\<close>

lemma ledger_accounted:
  assumes "accounted_rel P h (s, t) (s', t')" and "emits_rel monitor_calls (s, t) (s', t')"
  shows "ledger_rel P (\<lambda>s fd. count (h s) fd) (s, t) (s', t')"
proof -
  from assms(2) obtain u where u: "t' = t @ u" "set u \<subseteq> monitor_calls" by (auto simp: emits_rel_def)
  have "taken P t' fd + closes t fd + count (h s) fd = taken P t fd + closes t' fd + count (h s') fd" for fd
  proof -
    from assms(1) have "count (mset (perf_opened P t') + mset (perf_closed t) + h s) fd =
        count (mset (perf_opened P t) + mset (perf_closed t') + h s') fd" by (simp add: accounted_rel_def)
    then have "count_list (perf_opened P t') fd + closes t fd + count (h s) fd =
        count_list (perf_opened P t) fd + closes t' fd + count (h s') fd"
      by (simp add: count_mset perf_closes)
    with perf_taken [OF u(2), of P t fd] show ?thesis by (simp add: u(1))
  qed
  then show ?thesis by (simp add: ledger_rel_def)
qed

text \<open>Only objects of which \<open>K\<close> holds, which it then goes on to do.\<close>

definition guarded_rel ::
    "platform \<Rightarrow> ('s \<Rightarrow> bool) \<Rightarrow> ('s \<Rightarrow> int \<Rightarrow> nat) \<Rightarrow> 's \<times> syscall list \<Rightarrow> 's \<times> syscall list \<Rightarrow> bool" where
  "guarded_rel P K h st st' \<longleftrightarrow> (K (fst st) \<longrightarrow> K (fst st') \<and> ledger_rel P h st st')"

abbreviation guarded :: "platform \<Rightarrow> ('s \<Rightarrow> bool) \<Rightarrow> ('s \<Rightarrow> int \<Rightarrow> nat) \<Rightarrow> ('s, 'a) sys \<Rightarrow> bool" where
  "guarded P K h \<equiv> abides (guarded_rel P K h)"

interpretation guarded: effect_rel "guarded_rel P K h" for P K h
  by unfold_locales (auto simp: guarded_rel_def intro: ledger.refl ledger_trans)

lemma guardedD:
  "guarded P K h m \<Longrightarrow> m (s, t) = (r, (s', t')) \<Longrightarrow> K s \<Longrightarrow> K s' \<and> ledger_rel P h (s, t) (s', t')"
  by (drule (1) abidesD) (simp add: guarded_rel_def)

lemma guardedI:
  "(\<And>s t r s' t'. K s \<Longrightarrow> m (s, t) = (r, (s', t')) \<Longrightarrow> K s' \<and> ledger_rel P h (s, t) (s', t')) \<Longrightarrow> guarded P K h m"
  by (rule abidesI) (simp add: guarded_rel_def)

lemma guarded_modify: "(\<And>s. K s \<Longrightarrow> K (f s) \<and> h (f s) = h s) \<Longrightarrow> guarded P K h (modify f)"
  by (rule guardedI) (auto simp: modify_def ledger_rel_def)

text \<open>Objects that hold nothing.\<close>

lemma guarded_neutral: "emits neutral m \<Longrightarrow> guarded P (\<lambda>_. True) (\<lambda>_ _. 0) m"
  by (rule abides_mono [OF ledger_neutral [where h = "\<lambda>_ _. 0"]]) (simp_all add: guarded_rel_def)

section \<open>Monitors\<close>

text \<open>
  A monitor whose objects, as long as they satisfy \<open>K\<close>, hold the descriptors \<open>held\<close>, and whose
  destructor gives them all back.
\<close>

locale frugal_monitor =
  fixes P :: platform
    and V :: "'m monitor_class"
    and h :: "exec_event \<Rightarrow> ('m, unit) sys"
    and K :: "'m \<Rightarrow> bool"
    and holds :: "'m \<Rightarrow> int \<Rightarrow> nat"
    and del :: "('m, unit) sys"
  assumes class_guarded: "guarded P K holds (initialize_impl V)" "guarded P K holds (finalize_impl V)"
      "guarded P K holds (prepare_impl V)" "guarded P K holds (loop_impl V)"
    and handler_guarded: "guarded P K holds (h e)"
    and del_guarded: "guarded P K holds del"
    and del_frees: "K m \<Longrightarrow> del (m, t) = (r, (m', t')) \<Longrightarrow> holds m' fd = 0"
begin

abbreviation fit :: "'m monitor \<Rightarrow> bool" where
  "fit m \<equiv> registered h m \<and> K (impl m)"

abbreviation object_holds :: "'m monitor \<Rightarrow> int \<Rightarrow> nat" where
  "object_holds m \<equiv> holds (impl m)"

lemma guarded_on_impl: "guarded P K holds f \<Longrightarrow> guarded P fit object_holds (on_impl f)"
  by (rule guardedI)
    (auto simp: on_impl_def zoom_def ledger_rel_def put_impl_def registered_def dest: guardedD split: prod.splits)

lemma base_guarded:
  "guarded P fit object_holds (monitor_initialize V)" "guarded P fit object_holds (monitor_finalize V)"
  "guarded P fit object_holds (monitor_prepare V)" "guarded P fit object_holds monitor_start"
  "guarded P fit object_holds (enqueue_event e)" "guarded P fit object_holds (monitor_join over)"
  by (auto simp: monitor_initialize_def monitor_finalize_def monitor_prepare_def monitor_start_def enqueue_event_def
      monitor_join_def
      intro!: effects guarded_modify guarded_on_impl class_guarded)

lemma run_guarded: "guarded P fit object_holds (monitor_run V over turns)"
proof (rule guardedI)
  fix m t r m' t'
  assume fit: "fit m" and run: "monitor_run V over turns (m, t) = (r, (m', t'))"
  obtain r1 m1 t1 where loop: "monitor_loop V False turns (m, t) = (r1, (m1, t1))" by (rule prod_cases3)
  from fit monitor_loop_turns [of h m turns V t] loop obtain evss where
    b: "block (concat (map (turn_of V h) evss)) (impl m, t) = (r1, (impl m1, t1))" and reg: "registered h m1" by auto
  have "guarded P K holds (block (concat (map (turn_of V h) evss)))"
    by (intro effects) (auto simp: turn_of_def class_guarded handler_guarded split: if_splits)
  from guardedD [OF this b] fit have "K (impl m1)" "ledger_rel P holds (impl m, t) (impl m1, t1)" by simp_all
  moreover from monitor_run_effect [OF run loop] have "(m' = m \<and> t' = t) \<or> (m' = m1 \<and> t' = t1)" .
  ultimately show "fit m' \<and> ledger_rel P object_holds (m, t) (m', t')"
    using fit reg by (auto simp: ledger_rel_def)
qed

lemma destructor_frees:
  assumes "K (impl m)" and "block [on_impl del, monitor_delete] (m, t) = (Inr (), (m', t'))"
  shows "ledger_rel P object_holds (m, t) (m', t') \<and> object_holds m' fd = 0"
proof -
  from assms(2) obtain v where run: "del (impl m, t) = (Inr (), (v, t'))" and m': "m' = put_impl v m"
    by (auto simp: on_impl_def zoom_def monitor_delete_def act_simps split: prod.splits sum.splits if_splits)
  from guardedD [OF del_guarded run assms(1)] del_frees [OF assms(1) run, of fd] m' show ?thesis
    by (simp add: ledger_rel_def)
qed

end

text \<open>Seen as a monitor of any class.\<close>

lemma embed_frugal:
  assumes "frugal_monitor P V h K holds del" and out: "\<And>m. out (wrap m) = m"
    and any: "\<And>m. any_holds (wrap m) = holds m" and K': "\<And>x. K' x \<longleftrightarrow> (\<exists>m. x = wrap m \<and> K m)"
  shows "frugal_monitor P (embed_class wrap out V) (\<lambda>e. embed wrap out (h e)) K' any_holds (embed wrap out del)"
proof -
  have lift: "guarded P K' any_holds (embed wrap out f)" if "guarded P K holds f" for f :: "('a, 'x) sys"
  proof (rule guardedI)
    fix x t r x' t'
    assume "K' x" and run: "embed wrap out f (x, t) = (r, (x', t'))"
    then obtain m where x: "x = wrap m" "K m" by (auto simp: K')
    with run obtain v where f: "f (m, t) = (r, (v, t'))" and x': "x' = wrap v"
      by (auto simp: embed_def zoom_def out split: prod.splits)
    from guardedD [OF that f x(2)] show "K' x' \<and> ledger_rel P any_holds (x, t) (x', t')"
      by (auto simp: x x' K' any ledger_rel_def)
  qed
  note ops = assms(1) [unfolded frugal_monitor_def]
  show ?thesis
    unfolding frugal_monitor_def
  proof (intro conjI allI impI)
    fix x t r x' t' fd
    assume "K' x" and "embed wrap out del (x, t) = (r, (x', t'))"
    then obtain m v where "K m" "del (m, t) = (r, (v, t'))" "x' = wrap v"
      by (auto simp: K' embed_def zoom_def out split: prod.splits)
    with frugal_monitor.del_frees [OF assms(1)] show "any_holds x' fd = 0" by (simp add: any)
  qed (use ops in \<open>auto simp: embed_class_def intro!: lift\<close>)
qed

lemma plain_guarded:
  assumes "guarded P K holds loop" and "\<And>e. guarded P K holds (h e)" and "guarded P K holds del"
    and "\<And>m t r m' t' fd. K m \<Longrightarrow> del (m, t) = (r, (m', t')) \<Longrightarrow> holds m' fd = 0"
  shows "frugal_monitor P (plain_class loop) h K holds del"
  using assms by unfold_locales (auto simp: plain_class_def intro: effects)

text \<open>The three that never open anything.\<close>

lemma neutral_monitor_calls:
  "range Sleep_for \<union> {c. \<exists>p n. c = Sys_sched_setaffinity p n} \<subseteq> neutral" "range Sleep_for \<subseteq> neutral"
  by auto

interpretation simple_frugal: frugal_monitor P "simple_class P" "\<lambda>e. simple_add_process (ev_pid e)"
  "\<lambda>_. True" "\<lambda>_ _. 0" "ret ()" for P
  by (rule plain_guarded)
    (auto simp: simple_loop_impl_def simple_add_process_def intro!: guarded_neutral effects)

interpretation hopper_frugal: frugal_monitor P "hopper_class P" "hopper_handler P" "\<lambda>_. True" "\<lambda>_ _. 0" "ret ()" for P
  by (rule plain_guarded) (auto intro!: guarded_neutral emits_hopper neutral_monitor_calls effects)

lemmas dummy_emits = emits_pmc [where M = "dummy_manager junk", unfolded dummy_manager_def,
    OF neutral_monitor_calls(2) emits_manager [OF quiet_counters(2)], folded dummy_manager_def] for junk

interpretation dummy_frugal: frugal_monitor P "pmc_class P (dummy_manager junk)" "pmc_handler (dummy_manager junk)"
  "\<lambda>_. True" "\<lambda>_ _. 0" "pmc_sampler_delete (dummy_manager junk)" for P junk
  by (rule plain_guarded) (auto intro!: guarded_neutral dummy_emits)

text \<open>The sampler for Linux holds the counters of its event managers.\<close>

definition sampler_holds :: "linux_event pmc_sampler \<Rightarrow> int \<Rightarrow> nat" where
  "sampler_holds m = count (all_fds m)"

definition known_events :: "linux_event pmc_sampler \<Rightarrow> bool" where
  "known_events m \<longleftrightarrow> (\<forall>info \<in> set (pmc_events m). known_type info)"

lemmas linux_emits = emits_pmc [where M = "linux_manager P junk" and C = monitor_calls, unfolded linux_manager_def,
    OF _ emits_manager [OF quiet_counters(1)], folded linux_manager_def] for P junk

lemma linux_delete_run:
  assumes "pmc_sampler_delete (linux_manager P junk) (m, t) = (r, (m', t'))"
  shows "accounted_rel P all_fds (m, t) (m', t') \<and> all_fds m' = {#} \<and> pmc_events m' = pmc_events m"
proof -
  from linux_each_manager_delete [of P "event_managers m" t] obtain us ms t2 where
    "each (on_second_of_pair (event_manager_delete (linux_ops P))) (event_managers m, t) = (Inr us, (ms, t2))"
    "perf_opened P t2 = perf_opened P t" "mset (perf_closed t2) = mset (perf_closed t) + all_fds m"
    "sum_over (\<lambda>p. manager_fds (snd p)) ms = {#}" unfolding all_fds_def by blast
  with assms show ?thesis
    by (auto simp: pmc_sampler_delete_def linux_manager_def manager_of_def zoom_def discard_def act_simps
        accounted_rel_def all_fds_def put_event_managers_def)
qed

interpretation linux_frugal: frugal_monitor P "pmc_class P (linux_manager P junk)" "pmc_handler (linux_manager P junk)"
  known_events sampler_holds "pmc_sampler_delete (linux_manager P junk)" for P junk
proof (rule plain_guarded)
  let ?M = "linux_manager P junk"
  have sleep: "range Sleep_for \<subseteq> monitor_calls" by auto
  have ledger: "ledger_rel P sampler_holds (m, t) (m', t')"
    if "accounted_rel P all_fds (m, t) (m', t')" "emits monitor_calls f" "f (m, t) = (r, (m', t'))"
    for m t m' t' r and f :: "(linux_event pmc_sampler, unit) sys"
    using ledger_accounted [OF that(1) abidesD [OF that(2,3)]] by (simp add: sampler_holds_def [abs_def])
  show "guarded P known_events sampler_holds (pmc_loop_impl P ?M)"
  proof (rule guardedI)
    fix m t r m' t'
    assume K: "known_events m" and run: "pmc_loop_impl P ?M (m, t) = (r, (m', t'))"
    from ledger [OF abidesD [OF accounted_loop run] linux_emits(1) [OF sleep] run]
      keepsD [OF pmc_events_kept(1) run refl] K
    show "known_events m' \<and> ledger_rel P sampler_holds (m, t) (m', t')" by (simp add: known_events_def)
  qed
  show "guarded P known_events sampler_holds (pmc_add_process ?M (ev_pid e))" for e
  proof (rule guardedI)
    fix m t r m' t'
    assume K: "known_events m" and run: "pmc_add_process ?M (ev_pid e) (m, t) = (r, (m', t'))"
    from ledger [OF accounted_add [OF _ run] linux_emits(2) [OF sleep] run]
      keepsD [OF pmc_events_kept(2) run refl] K
    show "known_events m' \<and> ledger_rel P sampler_holds (m, t) (m', t')" by (simp add: known_events_def)
  qed
  show "guarded P known_events sampler_holds (pmc_sampler_delete ?M)"
  proof (rule guardedI)
    fix m t r m' t'
    assume K: "known_events m" and run: "pmc_sampler_delete ?M (m, t) = (r, (m', t'))"
    from ledger [OF _ linux_emits(3) [OF sleep] run] linux_delete_run [OF run] K
    show "known_events m' \<and> ledger_rel P sampler_holds (m, t) (m', t')" by (simp add: known_events_def)
  qed
  show "sampler_holds m' fd = 0"
    if "known_events m" "pmc_sampler_delete ?M (m, t) = (r, (m', t'))" for m t r m' t' fd
    using linux_delete_run [OF that(2)] by (simp add: sampler_holds_def)
qed

section \<open>What the factory delivers\<close>

fun any_holds :: "any_monitor \<Rightarrow> int \<Rightarrow> nat" where
  "any_holds (Any_linux m) = sampler_holds m"
| "any_holds _ = (\<lambda>_. 0)"

text \<open>A monitor behind a base pointer that is frugal.\<close>

definition thrifty ::
    "platform \<Rightarrow> (exec_event \<Rightarrow> (any_monitor, unit) sys) \<Rightarrow> (any_monitor \<Rightarrow> bool) \<Rightarrow> (any_monitor, unit) sys
     \<Rightarrow> any_monitor monitor_class \<Rightarrow> any_monitor made_monitor \<Rightarrow> bool" where
  "thrifty P h K del V p \<longleftrightarrow> frugal_monitor P V h K any_holds del \<and> made_class p = V \<and>
     made_delete p = block [on_impl del, monitor_delete] \<and> registered h (made_object p) \<and> K (impl (made_object p))"

lemma made_thrifty:
  assumes frugal: "frugal_monitor P V h K holds del" and out: "\<And>m. out (wrap m) = m"
    and any: "\<And>m. any_holds (wrap m) = holds m"
    and ctor: "\<And>t m t'. ctor (raw, t) = (Inr (), (m, t')) \<Longrightarrow> registered h m \<and> K (impl m) \<and> (\<forall>fd. holds (impl m) fd = 0)"
    and run: "make_monitor wrap out V del ctor raw (s, t) = (Inr p, st')"
  shows "\<exists>h K del. thrifty P h K del (made_class p) p \<and> (\<forall>fd. any_holds (impl (made_object p)) fd = 0)"
proof -
  obtain m t' where c: "ctor (raw, t) = (Inr (), (m, t'))"
    and p: "p = \<lparr>made_class = embed_class wrap out V, made_object = embed_monitor wrap out m,
      made_delete = block [on_impl (embed wrap out del), monitor_delete]\<rparr>"
    using run by (auto simp: make_monitor_def split: prod.splits sum.splits)
  let ?K = "\<lambda>x. \<exists>m. x = wrap m \<and> K m"
  have "thrifty P (\<lambda>e. embed wrap out (h e)) ?K (embed wrap out del) (made_class p) p"
    using embed_frugal [where any_holds = any_holds and K' = ?K, OF frugal out any] ctor [OF c]
    by (auto simp: thrifty_def p embed_monitor_def registered_def)
  moreover have "any_holds (impl (made_object p)) fd = 0" for fd
    using ctor [OF c] by (simp add: p embed_monitor_def any)
  ultimately show ?thesis by blast
qed

lemma constructors_thrifty:
  "simple_monitor_new T properties (raw1, t) = (Inr (), (m1, t')) \<Longrightarrow> registered (\<lambda>e. simple_add_process (ev_pid e)) m1"
  "cpu_hopper_new P T properties (raw2, t) = (Inr (), (m2, t')) \<Longrightarrow> registered (hopper_handler P) m2"
  "pmc_sampler_new P T M properties (raw3, t) = (Inr (), (m3, t')) \<Longrightarrow> registered (pmc_handler M) m3 \<and>
     event_managers (impl m3) = [] \<and> (\<forall>info \<in> set (pmc_events (impl m3)). known_type info)"
  by (auto simp: simple_monitor_new_def cpu_hopper_new_def pmc_sampler_new_def lift_get_def
      register_event_handler_def smap_emplace_def exec_monitor_new_def registered_def known_type_def
      create_generic_events_def on_impl_def put_impl_def act_simps Let_def
      split: sum.splits option.splits)

lemma creators_thrifty:
  assumes "(ident, c) \<in> set (monitor_registars P T junk)" and "c properties (s, t) = (Inr p, st')"
  shows "\<exists>h K del. thrifty P h K del (made_class p) p \<and> (\<forall>fd. any_holds (impl (made_object p)) fd = 0)"
proof -
  from assms(1) consider "c = simple_monitor_creator P T" | "c = cpu_hopper_creator P T"
    | "c = pmc_linux_creator P T junk" | "c = pmc_dummy_creator P T junk"
    by (auto simp: monitor_registars_def simple_monitor_registar_def cpu_hopper_registar_def
        pmc_sampler_linux_registar_def pmc_sampler_dummy_registar_def split: host_os.splits)
  then show ?thesis
  proof cases
    case 1
    with assms(2) show ?thesis
      by (intro made_thrifty [OF simple_frugal.frugal_monitor_axioms, where wrap = Any_simple and out = as_simple])
        (auto simp: simple_monitor_creator_def constructors_thrifty)
  next
    case 2
    with assms(2) show ?thesis
      by (intro made_thrifty [OF hopper_frugal.frugal_monitor_axioms, where wrap = Any_hopper and out = as_hopper])
        (auto simp: cpu_hopper_creator_def constructors_thrifty)
  next
    case 3
    with assms(2) show ?thesis
      by (intro made_thrifty [OF linux_frugal.frugal_monitor_axioms, where wrap = Any_linux and out = as_linux])
        (auto simp: pmc_linux_creator_def Let_def known_events_def sampler_holds_def all_fds_def dest!: constructors_thrifty(3))
  next
    case 4
    with assms(2) show ?thesis
      by (intro made_thrifty [OF dummy_frugal.frugal_monitor_axioms, where wrap = Any_dummy and out = as_dummy])
        (auto simp: pmc_dummy_creator_def Let_def dest!: constructors_thrifty(3))
  qed
qed

end
