(* ===== verification/Manager_Descriptors.thy ===== *)
theory Manager_Descriptors
  imports Manager_Reaps Frugal_Monitors
begin

text \<open>
  The descriptors of the whole program: what the pipes of the processes and the counters of the monitor
  take from the system is given back exactly once when \<open>main\<close> returns.
\<close>

section \<open>The manager\<close>

definition manager_holds :: "any_monitor simple_manager \<Rightarrow> int \<Rightarrow> nat" where
  "manager_holds s fd = (\<Sum>p\<leftarrow>shared (world s). sync_held p fd) + any_holds (impl (made_object (exec_monitor s))) fd"

text \<open>
  A manager with a thrifty monitor, \<open>n\<close> process objects, and the benchmarks \<open>bs\<close>, once all are prepared.
\<close>

definition staffed ::
    "platform \<Rightarrow> (exec_event \<Rightarrow> (any_monitor, unit) sys) \<Rightarrow> (any_monitor \<Rightarrow> bool) \<Rightarrow> (any_monitor, unit) sys
     \<Rightarrow> any_monitor monitor_class \<Rightarrow> nat \<Rightarrow> benchmark list \<Rightarrow> any_monitor simple_manager \<Rightarrow> bool" where
  "staffed P h K del V n bs s \<longleftrightarrow> thrifty P h K del V (exec_monitor s) \<and> processes s = map Some [0..<n] \<and>
     length (shared (world s)) = n \<and> benchs s = bs"

lemma guarded_on_monitor:
  assumes "\<And>p. thrifty P h K del V p \<Longrightarrow>
    guarded P (\<lambda>m. registered h m \<and> K (impl m)) (\<lambda>m. any_holds (impl m)) (f p)"
  shows "guarded P (staffed P h K del V n bs) manager_holds (on_monitor f)"
proof (rule guardedI)
  fix s t r s' t'
  assume st: "staffed P h K del V n bs s" and "on_monitor f (s, t) = (r, (s', t'))"
  then obtain m where run: "f (exec_monitor s) (made_object (exec_monitor s), t) = (r, (m, t'))" and s': "s' = put_object m s"
    by (auto simp: on_monitor_def zoom_def act_simps split: prod.splits)
  from st have t: "thrifty P h K del V (exec_monitor s)" by (simp add: staffed_def)
  then have "registered h (made_object (exec_monitor s)) \<and> K (impl (made_object (exec_monitor s)))" by (simp add: thrifty_def)
  from guardedD [OF assms [OF t] run this] st
  show "staffed P h K del V n bs s' \<and> ledger_rel P manager_holds (s, t) (s', t')"
    by (auto simp: s' staffed_def thrifty_def put_object_def ledger_rel_def manager_holds_def)
qed

lemma monitor_operations_guarded:
  "guarded P (staffed P h K del V n bs) manager_holds prepare_exec_monitor"
  "guarded P (staffed P h K del V n bs) manager_holds start_exec_monitor"
  "guarded P (staffed P h K del V n bs) manager_holds (let_monitor_run turns)"
  "guarded P (staffed P h K del V n bs) manager_holds stop_exec_monitor"
proof -
  note ops = frugal_monitor.base_guarded frugal_monitor.run_guarded
  show "guarded P (staffed P h K del V n bs) manager_holds prepare_exec_monitor"
    unfolding prepare_exec_monitor_def by (rule guarded_on_monitor) (auto simp: thrifty_def intro: ops)
  show "guarded P (staffed P h K del V n bs) manager_holds start_exec_monitor"
    unfolding start_exec_monitor_def by (rule guarded_on_monitor) (auto simp: thrifty_def intro: ops)
  show "guarded P (staffed P h K del V n bs) manager_holds (let_monitor_run turns)"
    unfolding let_monitor_run_def by (intro effects) (auto simp: thrifty_def intro!: guarded_on_monitor ops)
  show "guarded P (staffed P h K del V n bs) manager_holds stop_exec_monitor"
    unfolding stop_exec_monitor_def by (auto simp: thrifty_def intro!: effects guarded_on_monitor ops)
qed

text \<open>Actions on the process monitor that open and close nothing and leave the pipes as they are.\<close>

definition pipes_of :: "sync_process \<Rightarrow> pipe \<times> pipe" where
  "pipes_of p = (sp_go p, sp_ready p)"

definition keeps_pipes_rel ::
    "sync_process process_monitor \<times> syscall list \<Rightarrow> sync_process process_monitor \<times> syscall list \<Rightarrow> bool" where
  "keeps_pipes_rel st st' \<longleftrightarrow> emits_rel neutral st st' \<and>
     map pipes_of (shared (fst st')) = map pipes_of (shared (fst st))"

abbreviation keeps_pipes :: "(sync_process process_monitor, 'a) sys \<Rightarrow> bool" where
  "keeps_pipes \<equiv> abides keeps_pipes_rel"

interpretation keeps_pipes: effect_rel keeps_pipes_rel
  by unfold_locales (auto simp: keeps_pipes_rel_def intro: emits.refl emits_rel_trans)

lemma same_pipes_held:
  assumes "map pipes_of ps = map pipes_of qs"
  shows "(\<Sum>p\<leftarrow>ps. sync_held p fd) = (\<Sum>p\<leftarrow>qs. sync_held p fd)" and "length ps = length qs"
proof -
  have held: "map (\<lambda>p. sync_held p fd) xs = map (\<lambda>(a, b). held a fd + held b fd) (map pipes_of xs)" for xs
    by (simp add: sync_held_def pipes_of_def)
  show "(\<Sum>p\<leftarrow>ps. sync_held p fd) = (\<Sum>p\<leftarrow>qs. sync_held p fd)" unfolding held assms ..
  show "length ps = length qs" using map_eq_imp_length_eq [OF assms] .
qed

lemma guarded_on_world:
  assumes "keeps_pipes m"
  shows "guarded P (staffed P h K del V n bs) manager_holds (on_world m)"
proof (rule guardedI)
  fix s t r s' t'
  assume st: "staffed P h K del V n bs s" and "on_world m (s, t) = (r, (s', t'))"
  then obtain w where run: "m (world s, t) = (r, (w, t'))" and s': "s' = put_world w s"
    by (auto simp: on_world_def zoom_def split: prod.splits)
  from abidesD [OF assms run] obtain u where u: "t' = t @ u" "set u \<subseteq> neutral"
    and "map pipes_of (shared w) = map pipes_of (shared (world s))" by (auto simp: keeps_pipes_rel_def emits_rel_def)
  note same = same_pipes_held [OF this(3)]
  show "staffed P h K del V n bs s' \<and> ledger_rel P manager_holds (s, t) (s', t')"
    using st same neutral_log [OF u(2), of P t]
    by (simp add: s' u(1) staffed_def put_world_def ledger_rel_def manager_holds_def)
qed

lemma keeps_pipes_deref:
  assumes "emits neutral m" and "\<And>q. keeps (\<lambda>p. pipes_of p = q) m"
  shows "keeps_pipes (deref ptr m)"
proof (rule abidesI)
  fix w t r w' t'
  assume run: "deref ptr m (w, t) = (r, (w', t'))"
  then obtain p where p: "m (shared w ! ptr, t) = (r, (p, t'))" and w': "w' = w\<lparr>shared := (shared w)[ptr := p]\<rparr>"
    by (auto simp: deref_def zoom_def split: prod.splits)
  from keepsD [OF assms(2) p refl] have "pipes_of p = pipes_of (shared w ! ptr)" .
  moreover have "emits_rel neutral (w, t) (w', t')" by (rule abidesD [OF emits_deref [OF assms(1)] run])
  ultimately show "keeps_pipes_rel (w, t) (w', t')" by (simp add: keeps_pipes_rel_def w' map_same)
qed

lemma pipes_simps [simp]: "pipes_of (put_process q p) = pipes_of p"
  by (simp add: pipes_of_def put_process_def)

lemma on_process_keeps_pipes: "keeps (\<lambda>p. pipes_of p = q) (on_process m)"
  by (rule keepsI) (auto simp: on_process_def zoom_def split: prod.splits)

lemma sync_neutral:
  "emits neutral (pc_wait (sync_class P))" "emits neutral (pc_pid (sync_class P))"
  "emits neutral (pc_termination_status (sync_class P))" "emits neutral (sync_kill P PROC)"
  "keeps (\<lambda>p. pipes_of p = q) (pc_wait (sync_class P))" "keeps (\<lambda>p. pipes_of p = q) (pc_pid (sync_class P))"
  "keeps (\<lambda>p. pipes_of p = q) (pc_termination_status (sync_class P))" "keeps (\<lambda>p. pipes_of p = q) (sync_kill P PROC)"
proof -
  have "waitings \<subseteq> neutral" by (auto simp: waitings_def)
  with emits_sync_object(1) show "emits neutral (pc_wait (sync_class P))" by (rule emits_mono)
  show "emits neutral (pc_pid (sync_class P))" "emits neutral (pc_termination_status (sync_class P))"
    by (rule emits_sync_object)+
  show "emits neutral (sync_kill P PROC)"
    by (auto simp: sync_kill_def kill_process_def util_kill_def sync_pid_def get_pid_def on_process_def intro!: effects)
  show "keeps (\<lambda>p. pipes_of p = q) (pc_wait (sync_class P))" "keeps (\<lambda>p. pipes_of p = q) (pc_pid (sync_class P))"
    "keeps (\<lambda>p. pipes_of p = q) (pc_termination_status (sync_class P))"
    by (auto simp: sync_class_def sync_wait_def sync_pid_def sync_termination_status_def intro: on_process_keeps_pipes)
  show "keeps (\<lambda>p. pipes_of p = q) (sync_kill P PROC)"
    by (auto simp: sync_kill_def kill_process_def util_kill_def sync_pid_def intro!: effects on_process_keeps_pipes)
qed

lemma keeps_pipes_modify: "(\<And>w. shared (f w) = shared w) \<Longrightarrow> keeps_pipes (modify f)"
  by (rule abidesI) (auto simp: modify_def keeps_pipes_rel_def emits_rel_def)

lemma keeps_pipes_task: "keeps_pipes (run_task P (sync_class P) pid)"
proof -
  have obj: "keeps_pipes (deref ptr (pc_wait (sync_class P)))" "keeps_pipes (deref ptr (pc_pid (sync_class P)))"
    "keeps_pipes (deref ptr (pc_termination_status (sync_class P)))" for ptr
    by (rule keeps_pipes_deref, rule sync_neutral, rule sync_neutral)+
  have call: "keeps_pipes (call P (Sys_waitpid p))" for p
    by (rule abidesI) (auto simp: keeps_pipes_rel_def emits_rel_def call_def)
  show ?thesis
    by (auto simp: run_task_def finish_with_def wait_for_pid_def wait_for_process_def
        intro!: effects obj call keeps_pipes_modify split: option.split task.split)
qed

lemma keeps_pipes_monitor:
  "keeps_pipes (add_process (sync_class P) ptr)" "keeps_pipes (wait_for_any P (sync_class P) sched)"
  "keeps_pipes (process_monitor_delete P (sync_class P) sched)"
proof -
  have pid: "keeps_pipes (deref ptr (pc_pid (sync_class P)))"
    by (rule keeps_pipes_deref, rule sync_neutral, rule sync_neutral)
  then show "keeps_pipes (add_process (sync_class P) ptr)"
    by (auto simp: add_process_def check_duplicated_pid_def intro!: effects keeps_pipes_modify)
  have pop: "keeps_pipes pop_ended"
    by (rule abidesI) (auto simp: pop_ended_def keeps_pipes_rel_def emits_rel_def split: option.splits)
  have get: "keeps_pipes (future_get pid)" for pid
    by (auto simp: future_get_def intro!: effects keeps_pipes_modify split: option.split task.split sum.split)
  show "keeps_pipes (wait_for_any P (sync_class P) sched)"
    by (auto simp: wait_for_any_def
        intro!: effects abides_await [OF keeps_pipes.effect_rel_axioms] keeps_pipes_task
        keeps_pipes_modify pop get)
  show "keeps_pipes (process_monitor_delete P (sync_class P) sched)"
    by (auto simp: process_monitor_delete_def
        intro!: effects abides_get_all [OF keeps_pipes.effect_rel_axioms] keeps_pipes_task get)
qed

text \<open>Actions on one object.\<close>

lemma sum_list_update_nat:
  fixes f :: "'a \<Rightarrow> nat"
  assumes "i < length xs"
  shows "(\<Sum>x\<leftarrow>xs[i := y]. f x) + f (xs ! i) = (\<Sum>x\<leftarrow>xs. f x) + f y"
proof -
  have "(\<Sum>x\<leftarrow>xs[i := y]. f x) = (\<Sum>x\<leftarrow>take i xs. f x) + f y + (\<Sum>x\<leftarrow>drop (Suc i) xs. f x)"
    using assms by (simp add: upd_conv_take_nth_drop)
  moreover have "(\<Sum>x\<leftarrow>xs. f x) = (\<Sum>x\<leftarrow>take i xs. f x) + f (xs ! i) + (\<Sum>x\<leftarrow>drop (Suc i) xs. f x)"
    using arg_cong [OF id_take_nth_drop [OF assms], of "\<lambda>xs. \<Sum>x\<leftarrow>xs. f x"] by simp
  ultimately show ?thesis by simp
qed

lemma guarded_on_object:
  assumes "ledger P sync_held m" and "ptr < n"
  shows "guarded P (staffed P h K del V n bs) manager_holds (on_object ptr m)"
proof (rule guardedI)
  fix s t r s' t'
  assume st: "staffed P h K del V n bs s" and "on_object ptr m (s, t) = (r, (s', t'))"
  then obtain p where run: "m (shared (world s) ! ptr, t) = (r, (p, t'))"
    and s': "s' = put_world ((world s)\<lparr>shared := (shared (world s))[ptr := p]\<rparr>) s"
    by (auto simp: on_object_def on_world_def deref_def zoom_def split: prod.splits)
  have "ptr < length (shared (world s))" using st assms(2) by (simp add: staffed_def)
  note upd = sum_list_update_nat [OF this, where y = p]
  from abidesD [OF assms(1) run] have bal: "\<And>fd. fd \<noteq> -1 \<Longrightarrow>
      taken P t' fd + closes t fd + sync_held (shared (world s) ! ptr) fd = taken P t fd + closes t' fd + sync_held p fd"
    by (simp add: ledger_rel_def)
  have "taken P t' fd + closes t fd + manager_holds s fd = taken P t fd + closes t' fd + manager_holds s' fd"
    if "fd \<noteq> -1" for fd
    using bal [OF that] upd [of "\<lambda>p. sync_held p fd"] by (simp add: manager_holds_def s' put_world_def)
  with st show "staffed P h K del V n bs s' \<and> ledger_rel P manager_holds (s, t) (s', t')"
    by (simp add: s' staffed_def put_world_def ledger_rel_def)
qed

lemma guarded_each_process:
  assumes "\<And>ptr. ptr < n \<Longrightarrow> guarded P (staffed P h K del V n bs) manager_holds (f ptr)"
  shows "guarded P (staffed P h K del V n bs) manager_holds (each_process f)"
proof (rule guardedI)
  fix s t r s' t'
  assume st: "staffed P h K del V n bs s" and run: "each_process f (s, t) = (r, (s', t'))"
  then have "block (map f [0..<n]) (s, t) = (r, (s', t'))"
    using each_process_slots [of s n f t] by (simp add: staffed_def)
  moreover have "guarded P (staffed P h K del V n bs) manager_holds (block (map f [0..<n]))"
    by (intro effects) (auto intro: assms)
  ultimately show "staffed P h K del V n bs s' \<and> ledger_rel P manager_holds (s, t) (s', t')"
    using st by (auto dest: guardedD)
qed

text \<open>The operations of \<open>sync_process\<close> the manager uses.\<close>

lemma sync_ledger:
  assumes "close_succeeds P"
  shows "ledger P sync_held (sync_prepare P junk)" and "ledger P sync_held (sync_start P)"
    and "ledger P sync_held (sync_delete P)"
proof -
  let ?C = "neutral \<union> range Sys_close"
  have close: "emits ?C (pipe_close P ep)" for ep
    by (auto simp: abides_def emits_rel_def pipe_close_def act_simps)
  have "emits ?C (pipe_delete P)" by (auto simp: pipe_delete_def intro!: effects close)
  moreover have "emits ?C (pipe_read P k)" "emits ?C (pipe_write P bs)" for k bs
    by (auto simp: abides_def emits_rel_def pipe_read_def pipe_write_def act_simps)
  ultimately have pipe: "emits ?C (pipe_delete P)" "emits ?C (pipe_read P k)" "emits ?C (pipe_write P bs)" for k bs
    by simp_all
  have wait: "emits ?C (wait_for_child P)" "emits ?C (wait_for_parent P junk)"
    by (auto simp: wait_for_child_def wait_for_parent_def on_ready_def on_go_def intro!: effects close pipe)
  have "emits ?C (sync_prepare P junk)"
    by (auto simp: sync_prepare_def process_start_def check_path_def start_child_def start_parent_def
        sync_config_def config_defs libc_error_code_def Let_def intro!: effects wait)
  with assms show "ledger P sync_held (sync_prepare P junk)" by (intro ledger_balanced effects)
  have "emits ?C (sync_start P)" by (auto simp: sync_start_def on_go_def intro!: effects close pipe)
  with assms show "ledger P sync_held (sync_start P)" by (intro ledger_balanced effects)
  have "emits ?C (process_delete P)"
    by (auto simp: process_delete_def kill_process_def get_pid_def util_kill_def process_wait_def intro!: effects)
  then have "emits ?C (sync_delete P)"
    by (auto simp: sync_delete_def on_ready_def on_go_def on_process_def intro!: effects pipe)
  moreover have "balanced sync_held (sync_delete P)" using assms by (auto simp: sync_delete_def intro!: effects)
  ultimately show "ledger P sync_held (sync_delete P)" by (intro ledger_balanced)
qed

text \<open>A new object holds exactly what its constructor was handed.\<close>

lemma pipe2_ledger:
  fixes s :: 's
  assumes "pipe2 P flags (s, t) = (Inr ends, (s', t'))"
  shows "taken P t' fd = taken P t fd + count_list [fst ends, snd ends] fd \<and> closes t' fd = closes t fd"
proof (cases "host P")
  case Linux
  with assms show ?thesis by (auto simp: pipe2_def pipe2_linux_def handed_def Let_def act_simps split: if_splits)
next
  case Mac
  let ?r = "answer P t Sys_pipe" and ?t = "t @ [Sys_pipe]"
  let ?flags = "block (map (mac_set_flags P flags) [fst (out_fds ?r), snd (out_fds ?r)])"
  have "emits neutral (mac_set_flags P flags e :: ('s, unit) sys)" for e
    by (auto simp: mac_set_flags_def Let_def intro!: effects)
  then have flags: "emits neutral (?flags :: ('s, unit) sys)" by (intro effects) auto
  from Mac assms have "rc ?r = 0" "ends = out_fds ?r" "?flags (s, ?t) = (Inr (), (s', t'))"
    by (auto simp: pipe2_def pipe2_mac_def call_eq_run ret_def act_bind_def simp del: block.simps(2)
        split: if_splits sum.splits prod.splits)
  moreover from emitsD [OF flags this(3)] obtain u where "t' = ?t @ u" "set u \<subseteq> neutral" by blast
  ultimately show ?thesis using neutral_log [of u P ?t fd]
    by (auto simp: handed_def Let_def simp del: append_assoc)
qed

lemma sync_new_ledger:
  assumes "sync_new P args (p, t) = (Inr (), (p', t'))"
  shows "taken P t' fd = taken P t fd + sync_held p' fd \<and> closes t' fd = closes t fd"
proof -
  from assms obtain p1 t1 p2 t2 where
    1: "on_process (process_new args) (p, t) = (Inr (), (p1, t1))"
    and 2: "on_go (pipe_new_flags P (o_cloexec P)) (p1, t1) = (Inr (), (p2, t2))"
    and 3: "on_ready (pipe_new P) (p2, t2) = (Inr (), (p', t'))"
    unfolding sync_new_def
    by (auto simp: unwinding_returns simp del: block.simps(2) elim!: block_returnsE)
  have "t1 = t" using 1 by (auto simp: on_process_def process_new_def act_simps split: if_splits)
  moreover have "taken P t2 fd = taken P t1 fd + held (sp_go p2) fd \<and> closes t2 fd = closes t1 fd"
  proof -
    from 2 obtain fds q where pipe: "pipe2 P (o_cloexec P) (sp_go p1, t1) = (Inr fds, (q, t2))"
        "sp_go p2 = \<lparr>fd_read = fst fds, fd_write = snd fds\<rparr>"
      by (auto simp: on_go_def zoom_def pipe_new_flags_def act_bind_def modify_def put_go_def
          split: prod.splits sum.splits)
    from pipe2_ledger [OF pipe(1)] pipe(2) show ?thesis by (simp add: held_def)
  qed
  moreover have "taken P t' fd = taken P t2 fd + held (sp_ready p') fd \<and> closes t' fd = closes t2 fd \<and> sp_go p' = sp_go p2"
    using 3 by (auto simp: on_ready_def pipe_new_def put_ready_def held_def handed_def Let_def act_simps
        simp del: append_assoc split: if_splits)
  ultimately show ?thesis by (simp add: sync_held_def)
qed

lemma prepare_bench_ledger:
  assumes "close_succeeds P" and "prepare_bench P raw junk b (s, t) = (Inr (), (s', t'))"
    and "thrifty P h K del V (exec_monitor s)"
  shows "ledger_rel P manager_holds (s, t) (s', t') \<and> thrifty P h K del V (exec_monitor s')"
proof -
  from prepare_bench_calls [OF assms(2)] obtain p p1 t1 q where
    new: "sync_new P (bench_args b) (raw, t) = (Inr (), (p1, t1))"
    and prep: "sync_prepare P junk (p1, t1) = (Inr (), (p, t'))"
    and s': "shared (world s') = shared (world s) @ [p]" "exec_monitor s' = (exec_monitor s)\<lparr>made_object :=
      (made_object (exec_monitor s))\<lparr>event_queue := q\<rparr>\<rparr>" by blast
  from abidesD [OF sync_ledger(1) [OF assms(1)] prep] sync_new_ledger [OF new]
  have "ledger_rel P manager_holds (s, t) (s', t')"
    by (auto simp: ledger_rel_def manager_holds_def s')
  with assms(3) show ?thesis by (simp add: thrifty_def s'(2))
qed

lemma prepare_all_ledger:
  assumes "close_succeeds P" and "block (map (prepare_bench P raw junk) bs) (s, t) = (Inr (), (s', t'))"
    and "thrifty P h K del V (exec_monitor s)"
  shows "ledger_rel P manager_holds (s, t) (s', t') \<and> thrifty P h K del V (exec_monitor s')"
  using assms(2,3)
proof (induction bs arbitrary: s t)
  case Nil
  then show ?case by (simp add: ledger.refl)
next
  case (Cons b bs)
  from Cons.prems(1) obtain s1 t1 where one: "prepare_bench P raw junk b (s, t) = (Inr (), (s1, t1))"
    and rest: "block (map (prepare_bench P raw junk) bs) (s1, t1) = (Inr (), (s', t'))"
    by (auto simp del: block.simps(2) elim!: block_returnsE)
  from prepare_bench_ledger [OF assms(1) one Cons.prems(2)] Cons.IH [OF rest] show ?case
    by (auto intro: ledger_trans)
qed

lemma run_benchs_guarded:
  assumes "close_succeeds P"
  shows "guarded P (staffed P h K del V n bs) manager_holds (run_benchs P sched turns between)"
proof -
  let ?guarded = "\<lambda>m :: (any_monitor simple_manager, unit) sys. guarded P (staffed P h K del V n bs) manager_holds m"
  have kill: "?guarded (on_object ptr (sync_kill P PROC))" for ptr
    unfolding on_object_def by (intro guarded_on_world keeps_pipes_deref sync_neutral)
  have tasks: "?guarded (run_tasks P pids)" for pids
    unfolding run_tasks_def by (intro guarded_on_world keeps_pipes.resp_block) (auto intro: keeps_pipes_task)
  have kills: "?guarded (kill_each P ps between)" for ps between
    by (induction ps arbitrary: between)
      (auto simp del: block.simps(2) intro!: effects kill tasks split: option.split)
  have over: "?guarded execution_end" unfolding execution_end_def
    by (rule guarded_modify) (simp add: staffed_def manager_holds_def fun_eq_iff)
  have any: "?guarded (on_world (discard (wait_for_any P (sync_class P) sched)))"
    by (intro guarded_on_world effects keeps_pipes_monitor)
  have add: "?guarded (each_process (\<lambda>ptr. on_world (add_process (sync_class P) ptr)))"
    by (intro guarded_each_process guarded_on_world keeps_pipes_monitor)
  have start: "?guarded (each_process (\<lambda>ptr. on_object ptr (sync_start P)))"
    by (intro guarded_each_process guarded_on_object sync_ledger assms)
  show ?thesis unfolding run_benchs_def
    by (auto intro!: effects add start any over kills monitor_operations_guarded)
qed

text \<open>From \<open>start_impl\<close> to the destructor.\<close>

lemma start_impl_ledger:
  assumes close: "close_succeeds P" and thrift: "thrifty P h K del V (exec_monitor s)"
    and new: "benchs s = number_from 0 bs" "processes s = replicate (length bs) None" "shared (world s) = []"
    and len: "length bs < 2 ^ 32"
    and run: "simple_start_impl P raw junk sched turns between final (s, t) = (Inr (), (s', t'))"
  shows "ledger_rel P manager_holds (s, t) (s', t') \<and> staffed P h K del V (length bs) (number_from 0 bs) s'"
proof -
  let ?K = "staffed P h K del V (length bs) (number_from 0 bs)"
  obtain s1 t1 s2 t2 s3 t3 where
    1: "block (map (prepare_bench P raw junk) (number_from (word_of_nat 0) bs)) (s, t) = (Inr (), (s1, t1))"
    and 2: "on_world (modify (\<lambda>w. process_monitor_new (shared w))) (s1, t1) = (Inr (), (s2, t2))"
    and 3: "run_benchs P sched turns between (s2, t2) = (Inr (), (s3, t3))"
    and 4: "on_world (discard (process_monitor_delete P (sync_class P) final)) (s3, t3) = (Inr (), (s', t'))"
    using run unfolding simple_start_impl_def scoped_def
    by (elim block_returnsE) (auto simp: act_simps new(1) unwinding_returns
        simp del: block.simps(2) elim!: block_returnsE)
  from prepare_all_returns [OF 1] new len obtain ps where
    ps: "shared (world s1) = ps" "map (\<lambda>p. proc_args (sp_process p)) ps = map bench_args bs"
      "processes s1 = map Some [0..<length bs]" "benchs s1 = number_from 0 bs" by auto
  have "length ps = length bs" by (rule map_eq_imp_length_eq [OF ps(2)])
  moreover from prepare_all_ledger [OF close 1 thrift] have
    l1: "ledger_rel P manager_holds (s, t) (s1, t1)" and "thrifty P h K del V (exec_monitor s1)" by simp_all
  ultimately have k1: "?K s1" using ps by (simp add: staffed_def)
  have "guarded P ?K manager_holds (on_world (modify (\<lambda>w. process_monitor_new (shared w))))"
    by (intro guarded_on_world keeps_pipes_modify) (simp add: process_monitor_new_def)
  from guardedD [OF this 2 k1] have 2: "?K s2" "ledger_rel P manager_holds (s1, t1) (s2, t2)" by simp_all
  from guardedD [OF run_benchs_guarded [OF close] 3 2(1)] have 3: "?K s3" "ledger_rel P manager_holds (s2, t2) (s3, t3)" by simp_all
  have "guarded P ?K manager_holds (on_world (discard (process_monitor_delete P (sync_class P) final)))"
    by (intro guarded_on_world effects keeps_pipes_monitor)
  from guardedD [OF this 4 3(1)] have "?K s'" "ledger_rel P manager_holds (s3, t3) (s', t')" by simp_all
  with ledger_trans [OF ledger_trans [OF l1 2(2)] 3(2)] show ?thesis by (blast intro: ledger_trans)
qed

text \<open>The destructor leaves nothing open.\<close>

lemma delete_objects:
  assumes close: "close_succeeds P"
    and "block (map (\<lambda>ptr. on_object ptr (sync_delete P)) ptrs) (s, t) = (Inr (), (s', t'))"
    and "set ptrs \<subseteq> {..<length (shared (world s))}"
  shows "length (shared (world s')) = length (shared (world s)) \<and>
    (\<forall>ptr < length (shared (world s)). ptr \<in> set ptrs \<or> pipes_of (shared (world s) ! ptr) = (closed_pipe, closed_pipe) \<longrightarrow>
      pipes_of (shared (world s') ! ptr) = (closed_pipe, closed_pipe))"
  using assms(2,3)
proof (induction ptrs arbitrary: s t)
  case Nil
  then show ?case by simp
next
  case (Cons ptr ptrs)
  obtain r p t1 where d: "sync_delete P (shared (world s) ! ptr, t) = (r, (p, t1))" by (rule prod_cases3)
  from sync_delete_ok [OF close d] have p: "r = Inr ()" "pipes_of p = (closed_pipe, closed_pipe)" by (simp_all add: pipes_of_def)
  let ?s = "put_world ((world s)\<lparr>shared := (shared (world s))[ptr := p]\<rparr>) s"
  have one: "on_object ptr (sync_delete P) (s, t) = (Inr (), (?s, t1))"
    using d p by (simp add: on_object_def on_world_def deref_def zoom_def)
  from Cons.prems one have rest: "block (map (\<lambda>ptr. on_object ptr (sync_delete P)) ptrs) (?s, t1) = (Inr (), (s', t'))"
    and sub: "set ptrs \<subseteq> {..<length (shared (world ?s))}" by (simp_all add: put_world_def)
  from Cons.IH [OF rest sub] Cons.prems(2) p(2) show ?case
    by (auto simp: put_world_def nth_list_update split: if_splits)
qed

lemma manager_delete_ledger:
  assumes close: "close_succeeds P" and st: "staffed P h K del V n bs s"
    and run: "simple_manager_delete P (s, t) = (Inr (), (s', t'))"
  shows "ledger_rel P manager_holds (s, t) (s', t') \<and> (\<forall>fd. fd \<noteq> -1 \<longrightarrow> manager_holds s' fd = 0)"
proof -
  have slots: "processes s = map Some [0..<n]" "length (shared (world s)) = n" using st by (simp_all add: staffed_def)
  from run obtain s1 t1 where
    1: "block (map (\<lambda>ptr. on_object ptr (sync_delete P)) [0..<n]) (s, t) = (Inr (), (s1, t1))"
    and 2: "exec_manager_delete (s1, t1) = (Inr (), (s', t'))"
    unfolding simple_manager_delete_def
    by (elim block_returnsE) (auto simp: act_bind_def reading_def slots comp_def)
  have "guarded P (staffed P h K del V n bs) manager_holds (block (map (\<lambda>ptr. on_object ptr (sync_delete P)) [0..<n]))"
    by (intro effects) (auto intro!: guarded_on_object sync_ledger(3) [OF close])
  from guardedD [OF this 1 st] have st1: "staffed P h K del V n bs s1" "ledger_rel P manager_holds (s, t) (s1, t1)" by simp_all
  have "set [0..<n] \<subseteq> {..<length (shared (world s))}" using slots(2) by auto
  from delete_objects [OF close 1 this] slots st1(1) have
    "\<forall>p \<in> set (shared (world s1)). pipes_of p = (closed_pipe, closed_pipe)"
    by (auto simp: staffed_def in_set_conv_nth)
  then have pipes: "(\<Sum>p\<leftarrow>shared (world s1). sync_held p fd) = 0" if "fd \<noteq> -1" for fd
    using that by (auto simp: pipes_of_def sync_held_def held_def closed_pipe_def)
  from st1(1) have thrift: "thrifty P h K del V (exec_monitor s1)" by (simp add: staffed_def)
  then have made: "frugal_monitor P V h K any_holds del" "made_delete (exec_monitor s1) = block [on_impl del, monitor_delete]"
    "K (impl (made_object (exec_monitor s1)))" by (simp_all add: thrifty_def)
  from 2 made(2) obtain m where m: "block [on_impl del, monitor_delete] (made_object (exec_monitor s1), t1) = (Inr (), (m, t'))"
    and s': "s' = put_object m s1"
    by (auto simp: exec_manager_delete_def on_monitor_def zoom_def act_bind_def reading_def split: prod.splits)
  note frees = frugal_monitor.destructor_frees [OF made(1,3) m]
  have "ledger_rel P manager_holds (s1, t1) (s', t')"
    using frees [of 0] by (simp add: ledger_rel_def manager_holds_def s' put_object_def ac_simps)
  moreover have "manager_holds s' fd = 0" if "fd \<noteq> -1" for fd
    using frees [of fd] pipes [OF that] by (simp add: manager_holds_def s' put_object_def)
  ultimately show ?thesis using st1(2) by (blast intro: ledger_trans)
qed

text \<open>The monitor a manager has is one that the factory created.\<close>

lemma constructed_monitor:
  assumes "simple_manager_new T (factory_of (monitor_registars P T junk)) properties (s, t) = (Inr (), (s', t'))"
  shows "\<exists>h K del V. thrifty P h K del V (exec_monitor s') \<and> (\<forall>fd. any_holds (impl (made_object (exec_monitor s'))) fd = 0)"
proof -
  let ?F = "factory_of (monitor_registars P T junk)"
  obtain s1 t1 where 1: "exec_manager_new T ?F properties (s, t) = (Inr (), (s1, t1))"
    and 2: "block [unwinding
          (act_bind (lift_get (get_child T properties ''exec_manager.benchmarks'')) (\<lambda>pt.
            act_bind (parse_vector T pt) (\<lambda>bs.
              modify (\<lambda>s. s\<lparr>benchs := bs, processes := replicate (length bs) None,
                world := process_monitor_new []\<rparr>))))
          exec_manager_delete,
        modify (\<lambda>s. s\<lparr>benchs := number_from 0 (benchs s)\<rparr>)] (s1, t1) = (Inr (), (s', t'))"
    using assms unfolding simple_manager_new_def by (elim block_returnsE) auto
  from 2 obtain s2 t2 where "act_bind (lift_get (get_child T properties ''exec_manager.benchmarks'')) (\<lambda>pt.
            act_bind (parse_vector T pt) (\<lambda>bs.
              modify (\<lambda>s. s\<lparr>benchs := bs, processes := replicate (length bs) None,
                world := process_monitor_new []\<rparr>))) (s1, t1) = (Inr (), (s2, t2))"
    and s': "exec_monitor s' = exec_monitor s2"
    by (auto simp: unwinding_returns modify_def simp del: block.simps(2) elim!: block_returnsE)
  moreover have "keeps (\<lambda>s. exec_monitor s = exec_monitor s1) (act_bind (lift_get (get_child T properties ''exec_manager.benchmarks'')) (\<lambda>pt.
            act_bind (parse_vector T pt) (\<lambda>bs.
              modify (\<lambda>s. s\<lparr>benchs := bs, processes := replicate (length bs) None,
                world := process_monitor_new []\<rparr>))))"
    by (auto simp: parse_vector_def parse_def lift_get_def intro!: effects split: sum.split)
  ultimately have same: "exec_monitor s' = exec_monitor s1" by (auto dest: keepsD)
  from 1 obtain ident p s3 t3 where c: "factory_create ?F ident properties (s, t) = (Inr p, (s3, t3))"
    and p: "exec_monitor s1 = p"
    unfolding exec_manager_new_def by (elim bind_returnsE) (auto simp: lift_get_def modify_def act_simps split: sum.splits)
  from created_by_factory [OF distinct_registars c] obtain c' where
    "(ident, c') \<in> set (monitor_registars P T junk)" "c' properties (s, t) = (Inr p, (s3, t3))" by auto
  from creators_thrifty [OF this] show ?thesis unfolding same p by blast
qed

lemma noexcept_returns: "noexcept m st = (Inr x, st') \<longleftrightarrow> m st = (Inr x, st')"
  by (auto simp: noexcept_def catching_def halt_def split: prod.splits sum.splits stop.splits)

text \<open>What \<open>main\<close> has done when it returns.\<close>

lemma main_returned:
  assumes "aser_main P T read_json cnt help config start_impl (s, []) = (Inr (), (s', t'))"
  shows "\<exists>properties s1 t1 s2 t2.
    simple_manager_new T (factory_of (monitor_registars P T cnt)) properties (s, []) = (Inr (), (s1, t1)) \<and>
    exec_manager_start start_impl (s1, t1) = (Inr (), (s2, t2)) \<and> simple_manager_delete P (s2, t2) = (Inr (), (s', t'))"
proof -
  let ?regs = "[simple_manager_registar T (factory_of (monitor_registars P T cnt))]"
  from assms obtain properties ident where
    "block [factory_create (factory_of ?regs) ident properties,
       scoped (exec_manager_start start_impl) (simple_manager_delete P)] (s, []) = (Inr (), (s', t'))"
    unfolding aser_main_def noexcept_returns
    by (auto simp: halt_def lift_get_def ret_def raise_def simp del: block.simps(2)
        split: option.splits if_splits elim!: bind_returnsE)
       (auto simp: halt_def lift_get_def ret_def raise_def simp del: block.simps(2) split: sum.splits)
  then obtain s1 t1 where 1: "factory_create (factory_of ?regs) ident properties (s, []) = (Inr (), (s1, t1))"
    and 2: "scoped (exec_manager_start start_impl) (simple_manager_delete P) (s1, t1) = (Inr (), (s', t'))"
    by (elim block_returnsE) auto
  have "distinct (map fst ?regs)" by simp
  from created_by_factory [OF this 1]
  have "simple_manager_new T (factory_of (monitor_registars P T cnt)) properties (s, []) = (Inr (), (s1, t1))"
    by (auto simp: simple_manager_registar_def)
  moreover from 2 obtain s2 t2 where "exec_manager_start start_impl (s1, t1) = (Inr (), (s2, t2))"
    "simple_manager_delete P (s2, t2) = (Inr (), (s', t'))"
    unfolding scoped_def by (auto simp: unwinding_returns simp del: block.simps(2) elim!: block_returnsE)
  ultimately show ?thesis by blast
qed

text \<open>The benchmarks stay what they are.\<close>

lemma keeps_benchs:
  "keeps (\<lambda>s. benchs s = bs) (simple_start_impl P raw junk sched turns between final)"
  "keeps (\<lambda>s. benchs s = bs) (simple_manager_delete P)"
proof -
  have monitor: "keeps (\<lambda>s. benchs s = bs) (on_monitor f :: ('m simple_manager, 'x) sys)" for f
    by (rule keepsI) (auto dest: on_monitor_frame(3))
  have world: "keeps (\<lambda>s. benchs s = bs) (on_world m)" for m :: "(sync_process process_monitor, 'x) sys"
    by (rule keepsI) (auto simp: on_world_def zoom_def put_world_def split: prod.splits)
  have object: "keeps (\<lambda>s. benchs s = bs) (on_object ptr m)" for ptr and m :: "(sync_process, 'x) sys"
    unfolding on_object_def by (rule world)
  have kills: "keeps (\<lambda>s. benchs s = bs) (kill_each P ps between)" for ps between
    by (induction ps arbitrary: between)
      (auto simp: run_tasks_def simp del: block.simps(2) intro!: effects object world split: option.split)
  have bench: "keeps (\<lambda>s. benchs s = bs) (prepare_bench P raw junk b)" for b
    by (auto simp: prepare_bench_def make_process_def notify_process_creation_def unwinding_def
        intro!: effects object world monitor)
  have run: "keeps (\<lambda>s. benchs s = bs) (run_benchs P sched turns between)"
    by (auto simp: run_benchs_def each_process_def prepare_exec_monitor_def start_exec_monitor_def let_monitor_run_def stop_exec_monitor_def
        execution_end_def intro!: effects object world monitor kills split: option.split)
  show "keeps (\<lambda>s. benchs s = bs) (simple_start_impl P raw junk sched turns between final)"
    by (auto simp: simple_start_impl_def scoped_def unwinding_def intro!: effects bench world run)
  show "keeps (\<lambda>s. benchs s = bs) (simple_manager_delete P)"
    by (auto simp: simple_manager_delete_def exec_manager_delete_def intro!: effects object monitor split: option.split)
qed

section \<open>Properties\<close>

text \<open>
  C4. No descriptor leaks.  When \<open>main\<close> returns, with any registered monitor, any configuration of fewer
  than \<open>2^32\<close> benchmarks and under any schedule, each descriptor has been closed exactly as often as the
  system has handed it out, as an end of a pipe or as a performance counter; 0 as a counter is not
  counted, since the code takes it for none.  This covers failing reads, writes and kills, events of
  processes that do not exist, and both systems the program is written for; \<open>close\<close> is assumed to succeed.
\<close>

theorem main_closes_descriptors:
  assumes "close_succeeds P"
    and "aser_main P T read_json cnt help config (simple_start_impl P raw junk sched turns between final)
      (s, []) = (Inr (), (s', t'))"
    and "length (benchs s') < 2 ^ 32" and "fd \<noteq> -1"
  shows "closes t' fd = taken P t' fd"
proof -
  from main_returned [OF assms(2)] obtain properties s1 t1 s2 t2 where
    1: "simple_manager_new T (factory_of (monitor_registars P T cnt)) properties (s, []) = (Inr (), (s1, t1))"
    and 2: "exec_manager_start (simple_start_impl P raw junk sched turns between final) (s1, t1) = (Inr (), (s2, t2))"
    and 3: "simple_manager_delete P (s2, t2) = (Inr (), (s', t'))" by blast
  from constructed [OF 1] obtain bs where new: "benchs s1 = number_from 0 bs" "processes s1 = replicate (length bs) None"
    "shared (world s1) = []" "t1 = []" by blast
  from constructed_monitor [OF 1] obtain h K del V where thrift: "thrifty P h K del V (exec_monitor s1)"
    and none: "any_holds (impl (made_object (exec_monitor s1))) fd = 0" by blast
  from 2 obtain s3 t3 where init: "on_monitor (\<lambda>p. monitor_initialize (made_class p)) (s1, t1) = (Inr (), (s3, t3))"
    and impl: "simple_start_impl P raw junk sched turns between final (s3, t3) = (Inr (), (s2, t2))"
    unfolding exec_manager_start_def by (elim block_returnsE) auto
  obtain m where run: "monitor_initialize (made_class (exec_monitor s1)) (made_object (exec_monitor s1), t1) = (Inr (), (m, t3))"
    and s3: "s3 = put_object m s1"
    using init by (auto simp: on_monitor_def zoom_def act_bind_def reading_def split: prod.splits)
  from thrift have V: "frugal_monitor P V h K any_holds del" "made_class (exec_monitor s1) = V"
    "registered h (made_object (exec_monitor s1)) \<and> K (impl (made_object (exec_monitor s1)))" by (simp_all add: thrifty_def)
  from guardedD [OF frugal_monitor.base_guarded(1) [OF V(1)] run [unfolded V(2)] V(3)] thrift
  have thrift3: "thrifty P h K del V (exec_monitor s3)" and l1: "ledger_rel P manager_holds (s1, t1) (s3, t3)"
    by (auto simp: s3 thrifty_def put_object_def ledger_rel_def manager_holds_def)
  have new3: "benchs s3 = number_from 0 bs" "processes s3 = replicate (length bs) None" "shared (world s3) = []"
    using on_monitor_frame [OF init] new by simp_all
  have "benchs s' = number_from 0 bs"
    using keepsD [OF keeps_benchs(2) 3 keepsD [OF keeps_benchs(1) impl new3(1)]] .
  with assms(3) have "length bs < 2 ^ 32" by (simp add: number_from_length)
  from start_impl_ledger [OF assms(1) thrift3 new3 this impl]
  have l2: "ledger_rel P manager_holds (s3, t3) (s2, t2)" and st: "staffed P h K del V (length bs) (number_from 0 bs) s2"
    by simp_all
  note l3 = manager_delete_ledger [OF assms(1) st 3]
  from ledger_trans [OF ledger_trans [OF l1 l2] conjunct1 [OF l3]] assms(4) have
    "taken P t' fd + closes t1 fd + manager_holds s1 fd = taken P t1 fd + closes t' fd + manager_holds s' fd"
    by (simp add: ledger_rel_def)
  moreover have "manager_holds s' fd = 0" using l3 assms(4) by blast
  moreover have "manager_holds s1 fd = 0" using none by (simp add: manager_holds_def new(3))
  ultimately show ?thesis by (simp add: new(4))
qed

text \<open>An end of a pipe in a run with two benchmarks.\<close>

theorem main_closes_descriptors_witness:
  "fst demo_run = Inr () \<and> closes (snd (snd demo_run)) 20 = 1 \<and> taken good_platform (snd (snd demo_run)) 20 = 1"
proof -
  obtain r s t where run: "demo_run = (r, (s, t))" by (rule prod_cases3)
  note main = run [unfolded demo_run_def demo_start_def]
  have r: "r = Inr ()" and log: "closes t 20 = 1" using demo_log unfolding run by simp_all
  have "length (benchs (fst (snd demo_run))) = 2" by code_simp
  then have len: "length (benchs s) < 2 ^ 32" unfolding run by simp
  have "close_succeeds good_platform" by (simp add: close_succeeds_def)
  from main_closes_descriptors [OF this main [unfolded r] len, of 20] r log show ?thesis by (simp add: run)
qed

end
