(* ===== verification/Manager_Prepared.thy ===== *)
theory Manager_Prepared
  imports Manager_Reaps
begin

text \<open>
  When the preparations of a manager return: actions that come back, a kernel on which everything
  works, and the processes it makes.
\<close>

section \<open>Actions that come back\<close>

definition completes :: "('s, 'c, 'a) act \<Rightarrow> 's \<times> 'c list \<Rightarrow> bool" where
  "completes m st \<longleftrightarrow> \<not> isl (fst (m st))"

lemma completesI: "m st = (Inr x, st') \<Longrightarrow> completes m st"
  by (simp add: completes_def)

lemma completesE:
  assumes "completes m st"
  obtains x s' t' where "m st = (Inr x, (s', t'))"
proof -
  obtain r s' t' where m: "m st = (r, (s', t'))" by (rule prod_cases3)
  with assms show ?thesis by (cases r) (auto simp: completes_def intro: that)
qed

lemma completes_block:
  assumes "completes m st" and "\<And>s' t'. m st = (Inr (), (s', t')) \<Longrightarrow> completes (block ms) (s', t')"
  shows "completes (block (m # ms)) st"
proof -
  obtain s' t' where "m st = (Inr (), (s', t'))" using assms(1) by (rule completesE) simp
  with assms(2) show ?thesis by (simp add: completes_def)
qed

lemma completes_bind:
  assumes "completes m st" and "\<And>x s' t'. m st = (Inr x, (s', t')) \<Longrightarrow> completes (f x) (s', t')"
  shows "completes (act_bind m f) st"
proof -
  obtain x s' t' where "m st = (Inr x, (s', t'))" using assms(1) by (rule completesE) simp
  with assms(2) show ?thesis by (simp add: completes_def act_bind_def)
qed

lemma completes_simps [simp]:
  "completes (block []) st" "completes (ret x) st" "completes (modify f) st" "completes (reading g) st"
  "completes (assert_that b) st \<longleftrightarrow> b (fst st)"
  "completes (discard m) st \<longleftrightarrow> completes m st"
  "completes (zoom get put m) (s, t) \<longleftrightarrow> completes m (get s, t)"
  by (auto simp: completes_def act_simps split: prod.splits sum.splits)

lemma completes_unwinding: "completes m st \<Longrightarrow> completes (unwinding m c) st"
  by (erule completesE) (simp add: completes_def unwinding_def catching_def)

lemma completes_caught:
  assumes "\<And>e s' t'. m st = (Inl e, (s', t')) \<Longrightarrow> \<exists>x. e = Raise x"
  shows "completes (catching m (\<lambda>_. ret y)) st"
proof -
  obtain r s' t' where m: "m st = (r, (s', t'))" by (rule prod_cases3)
  then show ?thesis using assms [of _ s' t'] by (cases r) (auto simp: completes_def catching_def ret_def)
qed

lemma completes_scoped:
  assumes "completes m st" and "\<And>s' t'. m st = (Inr (), (s', t')) \<Longrightarrow> completes c (s', t')"
  shows "completes (scoped m c) st"
  unfolding scoped_def
  using assms by (intro completes_block completes_unwinding) (auto simp: unwinding_returns)

section \<open>A kernel on which everything works\<close>

text \<open>The pids \<open>fork\<close> has returned.\<close>

definition forked :: "platform \<Rightarrow> syscall list \<Rightarrow> int list" where
  "forked P t = map (\<lambda>i. rc (answer P (take i t) Sys_fork)) (filter (\<lambda>i. t ! i = Sys_fork) [0..<length t])"

lemma forked_simps [simp]:
  "forked P [] = []"
  "forked P (t @ [c]) = forked P t @ (if c = Sys_fork then [rc (answer P t c)] else [])"
proof -
  have "filter (\<lambda>i. (t @ [c]) ! i = Sys_fork) [0..<length t] = filter (\<lambda>i. t ! i = Sys_fork) [0..<length t]"
    by (rule filter_cong) (simp_all add: nth_append)
  moreover have "map (\<lambda>i. rc (answer P (take i (t @ [c])) Sys_fork)) (filter p [0..<length t]) =
      map (\<lambda>i. rc (answer P (take i t) Sys_fork)) (filter p [0..<length t])" for p
    by (rule map_cong) auto
  ultimately show "forked P (t @ [c]) = forked P t @ (if c = Sys_fork then [rc (answer P t c)] else [])"
    by (simp add: forked_def)
qed (simp add: forked_def)

lemma forked_append: "Sys_fork \<notin> set u \<Longrightarrow> forked P (t @ u) = forked P t"
  by (induction u rule: rev_induct) (auto simp flip: append_assoc)

text \<open>
  No call of the manager fails.  The pids that \<open>fork\<close> hands out are those of new processes as long as
  nobody has been waited for, and \<open>waitpid\<close> returns the pid it was asked for.
\<close>

definition cooperative :: "platform \<Rightarrow> bool" where
  "cooperative P \<longleftrightarrow> close_succeeds P \<and>
     (\<forall>t c. c = Sys_pipe \<or> (\<exists>flags. c = Sys_pipe2 flags) \<longrightarrow>
        rc (answer P t c) = 0 \<and> fst (out_fds (answer P t c)) \<noteq> -1 \<and> snd (out_fds (answer P t c)) \<noteq> -1) \<and>
     (\<forall>t fd. rc (answer P t (Sys_fcntl_getfd fd)) \<noteq> -1) \<and>
     (\<forall>t fd fl. rc (answer P t (Sys_fcntl_setfd fd fl)) \<noteq> -1) \<and>
     (\<forall>t fd k. rc (answer P t (Sys_read fd k)) \<noteq> -1) \<and>
     (\<forall>t fd bs. rc (answer P t (Sys_write fd bs)) \<noteq> -1) \<and>
     (\<forall>t path. 0 < rc (answer P t (Fs_exists path))) \<and>
     (\<forall>t pid. rc (answer P t (Sys_waitpid pid)) = pid) \<and>
     (\<forall>t. rc (answer P t Sys_fork) \<noteq> 0 \<and> rc (answer P t Sys_fork) \<noteq> -1 \<and>
        ((\<forall>pid. waits t pid = 0) \<longrightarrow> rc (answer P t Sys_fork) \<notin> set (forked P t)))"

lemma forked_good: "pid \<in> set (forked good_platform t) \<Longrightarrow> pid < 1000 + int (length t)"
  by (auto simp: forked_def)

lemma good_cooperative: "cooperative good_platform"
proof -
  have "rc (answer good_platform t Sys_fork) \<notin> set (forked good_platform t)" for t
    using forked_good [of "1000 + int (length t)" t] by auto
  then show ?thesis by (auto simp: cooperative_def close_succeeds_def) (simp_all add: good_platform_def)
qed

lemma pipe_new_completes:
  assumes "cooperative P"
  shows "\<exists>p' t'. pipe_new P (p, t) = (Inr (), (p', t')) \<and> is_open p' READ_END \<and> is_open p' WRITE_END"
    and "\<exists>p' t'. pipe_new_flags P (o_cloexec P) (p, t) = (Inr (), (p', t')) \<and>
      is_open p' READ_END \<and> is_open p' WRITE_END"
  using assms
  by (auto simp: cooperative_def pipe_new_def pipe_new_flags_def os_defs act_simps is_open_def Let_def
      split: host_os.split)

lemma sync_new_completes:
  assumes "cooperative P" and "args \<noteq> []"
  shows "\<exists>p t'. sync_new P args (raw, t) = (Inr (), (p, t')) \<and> \<not> started (sp_process p) \<and>
    proc_args (sp_process p) = args \<and> is_open (sp_go p) READ_END \<and> is_open (sp_go p) WRITE_END \<and>
    is_open (sp_ready p) READ_END \<and> is_open (sp_ready p) WRITE_END"
proof -
  obtain go t1 where go: "pipe_new_flags P (o_cloexec P) (sp_go raw, t) = (Inr (), (go, t1))"
    "is_open go READ_END" "is_open go WRITE_END" using pipe_new_completes(2) [OF assms(1)] by blast
  obtain ready t2 where "pipe_new P (sp_ready raw, t1) = (Inr (), (ready, t2))"
    "is_open ready READ_END" "is_open ready WRITE_END" using pipe_new_completes(1) [OF assms(1)] by blast
  with go assms(2) show ?thesis
    by (simp add: sync_new_def process_new_def on_process_def on_go_def on_ready_def zoom_def
        unwinding_def catching_def put_process_def put_go_def put_ready_def started_def modify_def branch_def ret_def)
qed

lemma sync_prepare_completes:
  assumes "cooperative P" and "\<not> started (sp_process p)"
    and "is_open (sp_go p) READ_END" and "is_open (sp_go p) WRITE_END"
    and "is_open (sp_ready p) READ_END" and "is_open (sp_ready p) WRITE_END"
  shows "\<exists>p' u v. sync_prepare P junk (p, t) = (Inr (), (p', t @ u @ Sys_fork # v)) \<and>
    Sys_fork \<notin> set u \<and> Sys_fork \<notin> set v \<and> set u \<inter> waitings = {} \<and>
    is_open (sp_go p') WRITE_END \<and> pid_of p' = rc (answer P (t @ u) Sys_fork)"
proof -
  let ?u = "[Fs_exists (hd (proc_args (sp_process p)))]"
  let ?v = "[Sys_close (fd_write (sp_ready p)), Sys_close (fd_read (sp_go p)), Sys_read (fd_read (sp_ready p)) 1,
    Sys_close (fd_read (sp_ready p))]"
  let ?p = "\<lparr>sp_process = (sp_process p)\<lparr>proc_pid := rc (answer P (t @ ?u) Sys_fork)\<rparr>,
    sp_go = (sp_go p)\<lparr>fd_read := -1\<rparr>, sp_ready = closed_pipe\<rparr>"
  have "sync_prepare P junk (p, t) = (Inr (), (?p, t @ ?u @ Sys_fork # ?v))"
    using assms
    by (simp add: sync_defs config_defs process_defs member_defs closed_pipe_def cooperative_def
        pipe_close_def pipe_read_def is_open_def close_succeeds_def act_simps) (metis less_asym less_irrefl)
  then show ?thesis using assms(4)
    by (intro exI [of _ ?p] exI [of _ ?u] exI [of _ ?v]) (auto simp: pid_of_def waitings_def is_open_def)
qed


lemma prepare_bench_completes:
  assumes "cooperative P" and "bench_args b \<noteq> []"
  shows "\<exists>s' t' p. prepare_bench P raw junk b (s, t) = (Inr (), (s', t')) \<and>
    shared (world s') = shared (world s) @ [p] \<and> is_open (sp_go p) WRITE_END \<and>
    forked P t' = forked P t @ [pid_of p] \<and> ((\<forall>pid. waits t pid = 0) \<longrightarrow> pid_of p \<notin> set (forked P t))"
proof -
  let ?ps = "shared (world s)"
  let ?grow = "\<lambda>p. s\<lparr>world := (world s)\<lparr>shared := ?ps @ [p]\<rparr>\<rparr>"
  obtain p1 t1 where new: "sync_new P (bench_args b) (raw, t) = (Inr (), (p1, t1))" and p1: "\<not> started (sp_process p1)"
      "is_open (sp_go p1) READ_END" "is_open (sp_go p1) WRITE_END" "is_open (sp_ready p1) READ_END" "is_open (sp_ready p1) WRITE_END"
    using sync_new_completes [OF assms] by blast
  obtain p2 u v where prep: "sync_prepare P junk (p1, t1) = (Inr (), (p2, t1 @ u @ Sys_fork # v))"
    and uv: "Sys_fork \<notin> set u" "Sys_fork \<notin> set v" "set u \<inter> waitings = {}"
    and p2: "is_open (sp_go p2) WRITE_END" "pid_of p2 = rc (answer P (t1 @ u) Sys_fork)"
    using sync_prepare_completes [OF assms(1) p1] by blast
  have "started (sp_process p2)" using p2(2) assms(1) by (simp add: started_def pid_of_def cooperative_def)
  then have pid: "sync_pid (p2, w) = (Inr (pid_of p2), (p2, w))" for w
    by (simp add: sync_pid_def on_process_def get_pid_def pid_of_def put_process_def act_simps)
  have "make_process P raw (bench_args b) (s, t) = (Inr (length ?ps), (?grow p1, t1))"
    using new by (simp add: make_process_def on_world_def zoom_def
        reading_def modify_def put_world_def act_bind_def ret_def on_last_object)
  then have "\<exists>s'. prepare_bench P raw junk b (s, t) = (Inr (), (s', t1 @ u @ Sys_fork # v)) \<and> world s' = world (?grow p2)"
    using prep pid by (simp add: prepare_bench_def act_bind_def unwinding_def catching_def on_last_object
        notify_process_creation_def on_monitor_def enqueue_event_def modify_def reading_def zoom_def put_object_def)
  then obtain s' where run: "prepare_bench P raw junk b (s, t) = (Inr (), (s', t1 @ u @ Sys_fork # v))"
    "world s' = world (?grow p2)" by blast
  obtain x where x: "t1 = t @ x" "set x \<subseteq> base_calls \<union> waitings" using emitsD [OF emits_sync_new new] by blast
  then have "Sys_fork \<notin> set x" by (auto simp: base_calls_def waitings_def)
  then have f: "forked P (t1 @ u) = forked P t" using uv(1) by (simp add: x forked_append)
  have "forked P ((t1 @ u) @ [Sys_fork]) = forked P t @ [pid_of p2]" using f p2(2) by (simp del: append_assoc)
  with forked_append [OF uv(2), of P "(t1 @ u) @ [Sys_fork]"]
  have forks: "forked P (t1 @ u @ Sys_fork # v) = forked P t @ [pid_of p2]" by simp
  have w: "waits (t1 @ u) = waits t" using sync_new_returns [OF new] by (simp add: waits_append [OF uv(3)])
  have "pid_of p2 \<notin> set (forked P t)" if "\<forall>pid. waits t pid = 0"
    using that assms(1) w f p2(2) unfolding cooperative_def by metis
  with run forks p2(1) show ?thesis by auto
qed

text \<open>What a manager whose preparations are under way has made of its processes.\<close>

definition all_prepared :: "platform \<Rightarrow> 'm simple_manager \<times> syscall list \<Rightarrow> bool" where
  "all_prepared P st \<longleftrightarrow> distinct (map pid_of (shared (world (fst st)))) \<and>
     forked P (snd st) = map pid_of (shared (world (fst st))) \<and>
     (\<forall>p \<in> set (shared (world (fst st))). is_open (sp_go p) WRITE_END) \<and> (\<forall>pid. waits (snd st) pid = 0)"

lemma prepare_all_completes:
  assumes "cooperative P" and "\<And>b. b \<in> set bs \<Longrightarrow> bench_args b \<noteq> []" and "all_prepared P (s, t)"
  shows "\<exists>s' t'. block (map (prepare_bench P raw junk) bs) (s, t) = (Inr (), (s', t')) \<and> all_prepared P (s', t')"
  using assms(2,3)
proof (induction bs arbitrary: s t)
  case Nil
  then show ?case by auto
next
  case (Cons b bs)
  obtain s1 t1 p where one: "prepare_bench P raw junk b (s, t) = (Inr (), (s1, t1))"
    and p: "shared (world s1) = shared (world s) @ [p]" "is_open (sp_go p) WRITE_END"
      "forked P t1 = forked P t @ [pid_of p]" "(\<forall>pid. waits t pid = 0) \<longrightarrow> pid_of p \<notin> set (forked P t)"
    using prepare_bench_completes [OF assms(1) Cons.prems(1) [OF list.set_intros(1)]] by blast
  from prepare_bench_returns [OF one] have "waits t1 = waits t" by blast
  with p Cons.prems(2) have "all_prepared P (s1, t1)" by (auto simp: all_prepared_def)
  from Cons.IH [OF _ this] Cons.prems(1) one show ?case by simp
qed

end
