(* ===== verification/Lasting_Monitors.thy ===== *)
theory Lasting_Monitors
  imports Manager_Order
begin

text \<open>
  Monitors that do not end the program: what a manager relies on when it has told its monitor of a
  number of processes and joins its thread, and for which configurations the factory creates such a
  monitor.
\<close>

section \<open>The contract\<close>

text \<open>
  While \<open>J\<close> holds, every function of the derived class returns, those the manager calls on its own
  thread and those the thread of the monitor calls, and so does its destructor.
\<close>

locale lasting_monitor =
  monitor_total V h "\<lambda>evs st. J evs (fst st)"
  for V :: "'m monitor_class" and h :: "exec_event \<Rightarrow> ('m, unit) sys" and J :: "exec_event list \<Rightarrow> 'm \<Rightarrow> bool" +
  fixes del :: "('m, unit) sys"
  assumes phases_return: "J evs m \<Longrightarrow> a \<in> {initialize_impl V, prepare_impl V, finalize_impl V} \<Longrightarrow>
      \<exists>m' t'. a (m, t) = (Inr (), (m', t')) \<and> J evs m'"
    and delete_returns: "J evs m \<Longrightarrow> \<exists>m' t'. del (m, t) = (Inr (), (m', t'))"
begin

text \<open>The operations of the base class.\<close>

lemma impl_phase_returns:
  assumes "J evs (impl s)" and "a \<in> {initialize_impl V, prepare_impl V, finalize_impl V}"
  shows "\<exists>m' t'. on_impl a (s, t) = (Inr (), (put_impl m' s, t')) \<and> J evs m'"
  using phases_return [OF assms, of t] by (auto simp: on_impl_def zoom_def)

lemma initialize_returns:
  assumes "J evs (impl s)" and "\<not> initialized s"
  shows "\<exists>m' t'. monitor_initialize V (s, t) = (Inr (), ((put_impl m' s)\<lparr>initialized := True\<rparr>, t')) \<and> J evs m'"
  using impl_phase_returns [OF assms(1), of "initialize_impl V" t] assms(2)
  by (auto simp: monitor_initialize_def assert_that_def modify_def)

lemma prepare_returns:
  assumes "J evs (impl s)" and "initialized s"
  shows "\<exists>m' t'. monitor_prepare V (s, t) = (Inr (), (put_impl m' s, t')) \<and> J evs m'"
  using impl_phase_returns [OF assms(1), of "prepare_impl V" t] assms(2)
  by (auto simp: monitor_prepare_def assert_that_def)

lemma finalize_returns:
  assumes "J evs (impl s)" and "initialized s"
  shows "\<exists>m' t'. monitor_finalize V (s, t) = (Inr (), (put_impl m' s, t')) \<and> J evs m'"
  using impl_phase_returns [OF assms(1), of "finalize_impl V" t] assms(2)
  by (auto simp: monitor_finalize_def assert_that_def)

lemma destructor_returns:
  assumes "J evs (impl s)" and "\<not> thread_joinable s"
  shows "\<exists>s' t'. block [on_impl del, monitor_delete] (s, t) = (Inr (), (s', t'))"
  using delete_returns [OF assms(1), of t] assms(2)
  by (auto simp: on_impl_def zoom_def monitor_delete_def act_simps)

end

interpretation simple_lasting: lasting_monitor "simple_class P" "\<lambda>e. simple_add_process (ev_pid e)"
  "\<lambda>_ _. True" "ret ()" for P
  by unfold_locales (auto simp: plain_class_def ret_def)

interpretation hopper_lasting: lasting_monitor "hopper_class P" "hopper_handler P" "room_for n" "ret ()" for P n
  by unfold_locales (auto simp: plain_class_def ret_def)

lemma dummy_managers_delete:
  "\<exists>us ms'. each (on_second_of_pair (mo_delete (dummy_manager junk))) (ms, t) = (Inr us, (ms', t))"
proof (induction ms)
  case Nil
  then show ?case by simp
next
  case (Cons p ms)
  have "each (event_delete dummy_impl) (es, t) = (Inr (map (\<lambda>_. ()) es), (es, t))" for es :: "unit event list"
    by (induction es) (simp_all add: event_delete_def dummy_impl_def put_ev_impl_def act_simps)
  then have "on_second_of_pair (mo_delete (dummy_manager junk)) (p, t) =
      (Inr (), ((fst p, put_mgr_events [] (snd p)), t))"
    by (simp add: on_second_of_pair_def dummy_manager_def manager_of_def event_manager_delete_def
        on_events_def put_mgr_events_def act_simps)
  with Cons show ?case by auto
qed

interpretation dummy_lasting: lasting_monitor "pmc_class P (dummy_manager junk)" "pmc_handler (dummy_manager junk)"
  "dummy_ready A" "pmc_sampler_delete (dummy_manager junk)" for P junk A
proof unfold_locales
  fix m :: "unit event pmc_sampler" and t :: "syscall list"
  obtain us ms' where "each (on_second_of_pair (mo_delete (dummy_manager junk))) (event_managers m, t) = (Inr us, (ms', t))"
    using dummy_managers_delete by blast
  then show "\<exists>m' t'. pmc_sampler_delete (dummy_manager junk) (m, t) = (Inr (), (m', t'))"
    by (simp add: pmc_sampler_delete_def zoom_def discard_def act_bind_def ret_def)
qed (auto simp: plain_class_def ret_def)

section \<open>Behind a base pointer\<close>

text \<open>A contract for a class carries over to the class seen through the pointer to the base.\<close>

lemma embed_run: "embed wrap out m (a, t) = (case m (out a, t) of (r, (v, u)) \<Rightarrow> (r, (wrap v, u)))"
  by (simp add: embed_def zoom_def)

lemma embed_returns:
  assumes "\<And>m. out (wrap m) = m" and "\<exists>m. a = wrap m \<and> J m"
    and "\<And>m. J m \<Longrightarrow> \<exists>m' t'. f (m, t) = (Inr (), (m', t')) \<and> K m'"
  shows "\<exists>a' t'. embed wrap out f (a, t) = (Inr (), (a', t')) \<and> (\<exists>m. a' = wrap m \<and> K m)"
proof -
  from assms(2) obtain m where m: "a = wrap m" "J m" by blast
  from assms(3) [OF m(2)] obtain m' t' where "f (m, t) = (Inr (), (m', t'))" "K m'" by blast
  with m(1) show ?thesis by (auto simp: embed_run assms(1))
qed

lemma embed_lasting:
  assumes last: "lasting_monitor V h J del" and out: "\<And>m. out (wrap m) = m"
  shows "lasting_monitor (embed_class wrap out V) (\<lambda>e. embed wrap out (h e))
    (\<lambda>evs a. \<exists>m. a = wrap m \<and> J evs m) (embed wrap out del)"
proof -
  from last have total: "monitor_total V h (\<lambda>evs st. J evs (fst st))" by (simp add: lasting_monitor_def)
  note run = embed_returns [where wrap = wrap and out = out, OF out]
  show ?thesis
  proof
    fix evs a and t :: "syscall list"
    assume "\<exists>m. fst (a, t) = wrap m \<and> J evs m"
    then have "\<exists>m. a = wrap m \<and> J evs m" by simp
    from run [OF this, of "loop_impl V" t "J evs"] monitor_total.loop_returns [OF total]
    show "\<exists>a' t'. loop_impl (embed_class wrap out V) (a, t) = (Inr (), (a', t')) \<and>
        (\<exists>m. fst (a', t') = wrap m \<and> J evs m)" by (simp add: embed_class_def)
  next
    fix e evs a and t :: "syscall list"
    assume "\<exists>m. fst (a, t) = wrap m \<and> J (e # evs) m"
    then have "\<exists>m. a = wrap m \<and> J (e # evs) m" by simp
    from run [OF this, of "h e" t "J evs"] monitor_total.handler_returns [OF total]
    show "\<exists>a' t'. embed wrap out (h e) (a, t) = (Inr (), (a', t')) \<and>
        (\<exists>m. fst (a', t') = wrap m \<and> J evs m)" by simp
  next
    fix evs a f and t :: "syscall list"
    assume J: "\<exists>m. a = wrap m \<and> J evs m"
      and "f \<in> {initialize_impl (embed_class wrap out V), prepare_impl (embed_class wrap out V),
        finalize_impl (embed_class wrap out V)}"
    then obtain g where g: "g \<in> {initialize_impl V, prepare_impl V, finalize_impl V}" "f = embed wrap out g"
      by (auto simp: embed_class_def)
    from run [OF J, of g t "J evs"] lasting_monitor.phases_return [OF last _ g(1)] g(2)
    show "\<exists>a' t'. f (a, t) = (Inr (), (a', t')) \<and> (\<exists>m. a' = wrap m \<and> J evs m)" by simp
  next
    fix evs a and t :: "syscall list"
    assume J: "\<exists>m. a = wrap m \<and> J evs m"
    from run [OF J, of del t "\<lambda>_. True"] lasting_monitor.delete_returns [OF last]
    show "\<exists>a' t'. embed wrap out del (a, t) = (Inr (), (a', t'))" by blast
  qed
qed

text \<open>\<open>lasts n h p\<close>: the monitor \<open>p\<close>, as it is now, lasts with any \<open>n\<close> processes.\<close>

definition creation :: "int \<Rightarrow> exec_event" where
  "creation pid = \<lparr>ev_type = PROCESS_CREATED, ev_pid = pid\<rparr>"

definition lasts :: "nat \<Rightarrow> (exec_event \<Rightarrow> ('m, unit) sys) \<Rightarrow> 'm made_monitor \<Rightarrow> bool" where
  "lasts n h p \<longleftrightarrow> (\<forall>pids. length pids = n \<longrightarrow> distinct pids \<longrightarrow> (\<exists>J del.
     lasting_monitor (made_class p) h J del \<and> made_delete p = block [on_impl del, monitor_delete] \<and>
     J (map creation pids) (impl (made_object p))))"

lemma made_lasts:
  assumes ctor: "ctor (raw, t) = (Inr (), (m, t))" and out: "\<And>m. out (wrap m) = m"
    and reg: "registered h m"
    and J: "\<And>pids. length pids = n \<Longrightarrow> distinct pids \<Longrightarrow> \<exists>J. lasting_monitor V h J del \<and> J (map creation pids) (impl m)"
  shows "\<exists>p. make_monitor wrap out V del ctor raw (s, t) = (Inr p, (s, t)) \<and>
    registered (\<lambda>e. embed wrap out (h e)) (made_object p) \<and> lasts n (\<lambda>e. embed wrap out (h e)) p"
proof -
  let ?p = "\<lparr>made_class = embed_class wrap out V, made_object = embed_monitor wrap out m,
    made_delete = block [on_impl (embed wrap out del), monitor_delete]\<rparr>"
  have "lasts n (\<lambda>e. embed wrap out (h e)) ?p"
    unfolding lasts_def
  proof (intro allI impI)
    fix pids :: "int list"
    assume "length pids = n" "distinct pids"
    from J [OF this] obtain J where last: "lasting_monitor V h J del" "J (map creation pids) (impl m)" by blast
    from embed_lasting [where wrap = wrap and out = out, OF last(1) out] last(2) show "\<exists>J' del'. lasting_monitor (made_class ?p) (\<lambda>e. embed wrap out (h e)) J' del' \<and>
        made_delete ?p = block [on_impl del', monitor_delete] \<and> J' (map creation pids) (impl (made_object ?p))"
      by (auto simp: embed_monitor_def)
  qed
  moreover have "registered (\<lambda>e. embed wrap out (h e)) (made_object ?p)"
    using reg by (simp add: registered_def embed_monitor_def)
  ultimately show ?thesis using ctor by (intro exI [of _ ?p]) (simp add: make_monitor_def)
qed

text \<open>It still does after it has been initialised, and whatever happens to its queue.\<close>

lemma lasts_object: "lasts n h p \<Longrightarrow> impl m = impl (made_object p) \<Longrightarrow> lasts n h (p\<lparr>made_object := m\<rparr>)"
  by (simp add: lasts_def)

lemma lasts_initialize:
  assumes "lasts n h p" and "\<not> initialized (made_object p)"
  shows "\<exists>m t'. monitor_initialize (made_class p) (made_object p, t) = (Inr (), (m, t')) \<and>
    initialized m \<and> thread_joinable m = thread_joinable (made_object p) \<and>
    event_queue m = event_queue (made_object p) \<and> lasts n h (p\<lparr>made_object := m\<rparr>)"
proof -
  let ?init = "monitor_initialize (made_class p) (made_object p, t)"
  have each: "\<exists>m t'. ?init = (Inr (), (m, t')) \<and> initialized m \<and>
      thread_joinable m = thread_joinable (made_object p) \<and> event_queue m = event_queue (made_object p) \<and>
      (\<exists>J del. lasting_monitor (made_class p) h J del \<and> made_delete p = block [on_impl del, monitor_delete] \<and>
        J (map creation pids) (impl m))" if pids: "length pids = n" "distinct pids" for pids
  proof -
    from assms(1) pids obtain J del where last: "lasting_monitor (made_class p) h J del"
        "made_delete p = block [on_impl del, monitor_delete]" "J (map creation pids) (impl (made_object p))"
      unfolding lasts_def by blast
    from lasting_monitor.initialize_returns [OF last(1,3) assms(2)] obtain m' t' where
      run: "?init = (Inr (), ((put_impl m' (made_object p))\<lparr>initialized := True\<rparr>, t'))" and J: "J (map creation pids) m'" by blast
    have "impl ((put_impl m' (made_object p))\<lparr>initialized := True\<rparr>) = m'" by simp
    with run J last(1,2) show ?thesis
      by (intro exI [of _ "(put_impl m' (made_object p))\<lparr>initialized := True\<rparr>"] exI [of _ t'] conjI exI [of _ J] exI [of _ del])
        simp_all
  qed
  have "length (map int [0..<n]) = n" "distinct (map int [0..<n])" by (simp_all add: distinct_map)
  from each [OF this] obtain m t' where run: "?init = (Inr (), (m, t'))" and m: "initialized m"
    "thread_joinable m = thread_joinable (made_object p)" "event_queue m = event_queue (made_object p)" by blast
  have "\<exists>J del. lasting_monitor (made_class p) h J del \<and> made_delete p = block [on_impl del, monitor_delete] \<and>
        J (map creation pids) (impl m)" if "length pids = n" "distinct pids" for pids
    using each [OF that] run by auto
  then have "lasts n h (p\<lparr>made_object := m\<rparr>)" by (simp add: lasts_def)
  with run m show ?thesis by blast
qed

section \<open>Which configurations deliver one\<close>

text \<open>
  Any simple monitor, a CPU hopper with more CPUs than processes, or a sampler of dummy events.
\<close>

definition suitable_monitor :: "platform \<Rightarrow> 'pt ptree_ops \<Rightarrow> 'pt \<Rightarrow> nat \<Rightarrow> bool" where
  "suitable_monitor P T properties n \<longleftrightarrow>
     (case get_unsigned T properties ''exec_monitor.sampling_length'' of Inl _ \<Rightarrow> False | Inr _ \<Rightarrow>
       get_string T properties ''exec_monitor.type'' = Inr ''simple'' \<or>
       (get_string T properties ''exec_monitor.type'' = Inr ''cpu-hopper'' \<and> n < hardware_concurrency P) \<or>
       (get_string T properties ''exec_monitor.type'' = Inr ''pmc-sampler[dummy]'' \<and>
        get_string T properties ''exec_monitor.event'' = Inr ''dummy''))"

lemma creation_pids: "map ev_pid (map creation pids) = pids"
  by (induction pids) (simp_all add: creation_def)

lemma fresh_hopper_room:
  assumes "length pids < c" and "distinct pids"
  shows "room_for c (map creation pids) \<lparr>sampling_interval = ms, cpu_mapping = [], allocated_cpus = replicate c False\<rparr>"
  using assms by (auto simp: room_for_def cpus_exact_def cpus_owned_def creation_pids simp del: map_map)

lemma fresh_dummy_ready:
  assumes "distinct pids"
  shows "dummy_ready (set pids) (map creation pids)
    \<lparr>pmc_interval = ms, pmc_events = [\<lparr>info_type = HARDWARE, info_code = a, info_modifiers = EXCLUDE_NONE\<rparr>,
       \<lparr>info_type = HARDWARE, info_code = b, info_modifiers = EXCLUDE_NONE\<rparr>], event_managers = []\<rparr>"
  using assms
  by (auto simp: dummy_ready_def valid_modifiers_def EXCLUDE_NONE_def creation_pids image_comp creation_def comp_def
      simp del: map_map)

lemma factory_lookup:
  assumes "distinct (map fst regs)" and "map_of regs ident = Some c"
  shows "factory_create (factory_of regs) ident args st = c args st"
  using factory_table [OF assms(1)] assms(2) by (simp add: factory_create_def)

lemma creator_lasts:
  assumes "suitable_monitor P T properties n"
  shows "\<exists>ident c p h. get_string T properties ''exec_monitor.type'' = Inr ident \<and>
    map_of (monitor_registars P T junk) ident = Some c \<and> c properties (s, t) = (Inr p, (s, t)) \<and>
    registered h (made_object p) \<and> lasts n h p"
proof -
  from assms obtain ms where ms: "get_unsigned T properties ''exec_monitor.sampling_length'' = Inr ms"
    by (auto simp: suitable_monitor_def split: sum.splits)
  note new = lift_get_def register_event_handler_def smap_emplace_def exec_monitor_new_def act_simps ms
  from assms ms consider "get_string T properties ''exec_monitor.type'' = Inr ''simple''"
    | "get_string T properties ''exec_monitor.type'' = Inr ''cpu-hopper''" "n < hardware_concurrency P"
    | "get_string T properties ''exec_monitor.type'' = Inr ''pmc-sampler[dummy]''"
      "get_string T properties ''exec_monitor.event'' = Inr ''dummy''"
    by (auto simp: suitable_monitor_def)
  then show ?thesis
  proof cases
    case 1
    have "\<exists>m. simple_monitor_new T properties (exec_monitor_new raw_simple, t) = (Inr (), (m, t)) \<and>
        registered (\<lambda>e. simple_add_process (ev_pid e)) m"
      by (simp add: simple_monitor_new_def new registered_def)
    then obtain m where m: "simple_monitor_new T properties (exec_monitor_new raw_simple, t) = (Inr (), (m, t))"
      "registered (\<lambda>e. simple_add_process (ev_pid e)) m" by blast
    have "\<exists>J. lasting_monitor (simple_class P) (\<lambda>e. simple_add_process (ev_pid e)) J (ret ()) \<and>
        J (map creation pids) (impl m)" if "length pids = n" "distinct pids" for pids
      using simple_lasting.lasting_monitor_axioms by (intro exI [of _ "\<lambda>_ _. True"]) simp
    from made_lasts [where wrap = Any_simple and out = as_simple and n = n and s = s and V = "simple_class P" and
        ctor = "simple_monitor_new T properties" and h = "\<lambda>e. simple_add_process (ev_pid e)" and del = "ret ()",
         OF m(1) _ m(2) this] obtain p h where
      "simple_monitor_creator P T properties (s, t) = (Inr p, (s, t))" "registered h (made_object p)" "lasts n h p"
      by (auto simp: simple_monitor_creator_def)
    with 1 show ?thesis
      by (intro exI [of _ "''simple''"] exI [of _ "simple_monitor_creator P T"] exI [of _ p] exI [of _ h])
        (simp add: monitor_registars_def simple_monitor_registar_def)
  next
    case 2
    let ?m = "\<lparr>sampling_interval = unat ms, cpu_mapping = [], allocated_cpus = replicate (hardware_concurrency P) False\<rparr>"
    have "\<exists>m. cpu_hopper_new P T properties (exec_monitor_new raw_hopper, t) = (Inr (), (m, t)) \<and>
        registered (hopper_handler P) m \<and> impl m = ?m"
      by (simp add: cpu_hopper_new_def new registered_def)
    then obtain m where m: "cpu_hopper_new P T properties (exec_monitor_new raw_hopper, t) = (Inr (), (m, t))"
      "registered (hopper_handler P) m" "impl m = ?m" by blast
    have "\<exists>J. lasting_monitor (hopper_class P) (hopper_handler P) J (ret ()) \<and> J (map creation pids) (impl m)"
      if "length pids = n" "distinct pids" for pids
      using that 2(2) fresh_hopper_room [of pids "hardware_concurrency P" "unat ms"] m(3)
      by (intro exI [of _ "room_for (hardware_concurrency P)"]) (simp add: hopper_lasting.lasting_monitor_axioms)
    from made_lasts [where wrap = Any_hopper and out = as_hopper and n = n and s = s and V = "hopper_class P" and
        ctor = "cpu_hopper_new P T properties" and h = "hopper_handler P" and del = "ret ()",
         OF m(1) _ m(2) this] obtain p h where
      "cpu_hopper_creator P T properties (s, t) = (Inr p, (s, t))" "registered h (made_object p)" "lasts n h p"
      by (auto simp: cpu_hopper_creator_def)
    with 2 show ?thesis
      by (intro exI [of _ "''cpu-hopper''"] exI [of _ "cpu_hopper_creator P T"] exI [of _ p] exI [of _ h])
        (simp add: monitor_registars_def simple_monitor_registar_def cpu_hopper_registar_def)
  next
    case 3
    let ?M = "dummy_manager junk"
    have "\<exists>m a b. pmc_sampler_new P T ?M properties (exec_monitor_new raw_sampler, t) = (Inr (), (m, t)) \<and>
        registered (pmc_handler ?M) m \<and> impl m = \<lparr>pmc_interval = unat ms,
          pmc_events = [\<lparr>info_type = HARDWARE, info_code = a, info_modifiers = EXCLUDE_NONE\<rparr>,
            \<lparr>info_type = HARDWARE, info_code = b, info_modifiers = EXCLUDE_NONE\<rparr>], event_managers = []\<rparr>"
      by (simp add: pmc_sampler_new_def new registered_def 3(2) create_generic_events_run on_impl_def put_impl_def)
    then obtain m a b where m: "pmc_sampler_new P T ?M properties (exec_monitor_new raw_sampler, t) = (Inr (), (m, t))"
      "registered (pmc_handler ?M) m" and im: "impl m = \<lparr>pmc_interval = unat ms,
          pmc_events = [\<lparr>info_type = HARDWARE, info_code = a, info_modifiers = EXCLUDE_NONE\<rparr>,
            \<lparr>info_type = HARDWARE, info_code = b, info_modifiers = EXCLUDE_NONE\<rparr>], event_managers = []\<rparr>" by blast
    have "\<exists>J. lasting_monitor (pmc_class P ?M) (pmc_handler ?M) J (pmc_sampler_delete ?M) \<and>
        J (map creation pids) (impl m)" if "length pids = n" "distinct pids" for pids
      using fresh_dummy_ready [OF that(2)] im
      by (intro exI [of _ "dummy_ready (set pids)"]) (simp add: dummy_lasting.lasting_monitor_axioms)
    from made_lasts [where wrap = Any_dummy and out = as_dummy and n = n and s = s and V = "pmc_class P ?M" and
        ctor = "pmc_sampler_new P T ?M properties" and h = "pmc_handler ?M" and del = "pmc_sampler_delete ?M",
         OF m(1) _ m(2) this] obtain p h where
      "pmc_dummy_creator P T junk properties (s, t) = (Inr p, (s, t))" "registered h (made_object p)" "lasts n h p"
      by (auto simp: pmc_dummy_creator_def Let_def)
    with 3 show ?thesis
      by (intro exI [of _ "''pmc-sampler[dummy]''"] exI [of _ "pmc_dummy_creator P T junk"] exI [of _ p] exI [of _ h])
        (auto simp: monitor_registars_def simple_monitor_registar_def cpu_hopper_registar_def
          pmc_sampler_linux_registar_def pmc_sampler_dummy_registar_def split: host_os.split)
  qed
qed

lemma base_constructor_lasts:
  assumes "suitable_monitor P T properties n"
  shows "\<exists>h p. exec_manager_new T (factory_of (monitor_registars P T junk)) properties (s, t) =
      (Inr (), (s\<lparr>exec_monitor := p, execution_ended := False\<rparr>, t)) \<and> new_monitor h p \<and> lasts n h p"
proof -
  let ?F = "factory_of (monitor_registars P T junk)"
  from creator_lasts [OF assms, of junk s t] obtain ident c p h where
    c: "get_string T properties ''exec_monitor.type'' = Inr ident" "map_of (monitor_registars P T junk) ident = Some c"
      "c properties (s, t) = (Inr p, (s, t))" "registered h (made_object p)" "lasts n h p" by blast
  have "factory_create ?F ident properties (s, t) = (Inr p, (s, t))"
    using factory_lookup [OF distinct_registars c(2)] c(3) by simp
  then have run: "exec_manager_new T ?F properties (s, t) =
      (Inr (), (s\<lparr>exec_monitor := p, execution_ended := False\<rparr>, t))"
    using c(1) by (simp add: exec_manager_new_def lift_get_def act_simps)
  from base_constructor [OF this] obtain h' where h': "new_monitor h' p" by auto
  with c(4) have "h' = h" by (simp add: new_monitor_def quiet_monitor_def registered_def)
  with run h' c(5) show ?thesis by blast
qed

end
