(* ===== verification/Manager_Returns.thy ===== *)
theory Manager_Returns
  imports Manager_Prepared Lasting_Monitors
begin

text \<open>
  The program comes to its end: on a kernel on which everything works, with a monitor that lasts, and
  as soon as the tasks have had their turns.
\<close>

section \<open>Adding and starting all processes\<close>

lemma add_many_completes:
  assumes "sync_waitable.pm_inv P A {} (w, t)" and "dom (map_of (status w)) = A"
    and "\<And>ptr. ptr \<in> set ptrs \<Longrightarrow> ptr < length (shared w) \<and> running (shared w ! ptr)"
    and "distinct (map (\<lambda>ptr. pid_of (shared w ! ptr)) ptrs)"
    and "A \<inter> (\<lambda>ptr. pid_of (shared w ! ptr)) ` set ptrs = {}"
  shows "\<exists>w'. block (map (add_process (sync_class P)) ptrs) (w, t) = (Inr (), (w', t)) \<and> shared w' = shared w"
  using assms
proof (induction ptrs arbitrary: A w)
  case Nil
  then show ?case by simp
next
  case (Cons ptr ptrs)
  let ?pid = "pid_of (shared w ! ptr)"
  have ptr: "ptr < length (shared w)" "running (shared w ! ptr)" using Cons.prems(3) by simp_all
  have "map_of (status w) ?pid = None" using Cons.prems(2,5) by auto
  moreover have "deref ptr (pc_pid (sync_class P)) (w, t) = (Inr ?pid, (w, t))"
    using ptr(2) by (simp add: deref_def zoom_def sync_waitable.pid_run running_def pid_of_def)
  ultimately have one: "add_process (sync_class P) ptr (w, t) = (Inr (), (set_task ?pid (Waiting_process ptr) w, t))"
    by (simp add: add_process_def check_duplicated_pid_def act_simps)
  from add_one [OF Cons.prems(1,2) ptr one] have 1: "sync_waitable.pm_inv P (insert ?pid A) {} (set_task ?pid (Waiting_process ptr) w, t)"
    "dom (map_of (status (set_task ?pid (Waiting_process ptr) w))) = insert ?pid A" by simp_all
  have "insert ?pid A \<inter> (\<lambda>ptr. pid_of (shared w ! ptr)) ` set ptrs = {}" using Cons.prems(4,5) by auto
  with Cons.IH [OF 1] Cons.prems(3,4) one show ?case by simp
qed

lemma start_many_completes:
  assumes "cooperative P" and "distinct ptrs"
    and "\<And>ptr. ptr \<in> set ptrs \<Longrightarrow> ptr < length (shared w) \<and> started (sp_process (shared w ! ptr)) \<and>
      is_open (sp_go (shared w ! ptr)) WRITE_END"
  shows "\<exists>w' t'. block (map (\<lambda>ptr. deref ptr (sync_start P)) ptrs) (w, t) = (Inr (), (w', t'))"
  using assms(2,3)
proof (induction ptrs arbitrary: w t)
  case Nil
  then show ?case by simp
next
  case (Cons ptr ptrs)
  let ?p = "shared w ! ptr"
  have ptr: "ptr < length (shared w)" "started (sp_process ?p)" "is_open (sp_go ?p) WRITE_END" using Cons.prems(2) by simp_all
  have "close_succeeds P" "rc (answer P t (Sys_write (fd_write (sp_go ?p)) [0])) \<noteq> -1"
    using assms(1) by (simp_all add: cooperative_def)
  from sync_start_once [OF this(1) ptr(2,3) this(2)] obtain p' t' where "sync_start P (?p, t) = (Inr (), (p', t'))" by blast
  then have one: "deref ptr (sync_start P) (w, t) = (Inr (), (w\<lparr>shared := (shared w)[ptr := p']\<rparr>, t'))"
    by (simp add: deref_def zoom_def)
  have "q < length (shared (w\<lparr>shared := (shared w)[ptr := p']\<rparr>)) \<and>
      started (sp_process (shared (w\<lparr>shared := (shared w)[ptr := p']\<rparr>) ! q)) \<and>
      is_open (sp_go (shared (w\<lparr>shared := (shared w)[ptr := p']\<rparr>) ! q)) WRITE_END" if "q \<in> set ptrs" for q
    using that Cons.prems ptr(1) by (cases "q = ptr") auto
  with Cons.IH [of "w\<lparr>shared := (shared w)[ptr := p']\<rparr>" t'] Cons.prems(1) one show ?case by simp
qed

lemma each_on_world:
  assumes "processes s = map Some [0..<n]"
  shows "each_process (\<lambda>ptr. on_world (f ptr)) (s, t) = on_world (block (map f [0..<n])) (s, t)"
  unfolding each_process_slots [OF assms] by (simp add: on_world_def world_member.zoom_block comp_def)

lemma on_world_frame:
  assumes "on_world m (s, t) = (r, (s', t'))"
  shows "exec_monitor s' = exec_monitor s" and "processes s' = processes s" and "s' = put_world (world s') s"
    and "m (world s, t) = (r, (world s', t'))"
  using assms by (auto simp: on_world_def zoom_def put_world_def split: prod.splits)

section \<open>The monitor while it is used\<close>

text \<open>A monitor that keeps its contract, with the events \<open>evs\<close> queued.\<close>

definition monitor_at ::
    "(exec_event \<Rightarrow> ('m, unit) sys) \<Rightarrow> 'm monitor_class \<Rightarrow> (exec_event list \<Rightarrow> 'm \<Rightarrow> bool) \<Rightarrow> ('m, unit) sys
     \<Rightarrow> bool \<Rightarrow> 'm made_monitor \<Rightarrow> bool" where
  "monitor_at h V J del joinable p \<longleftrightarrow> made_class p = V \<and> made_delete p = block [on_impl del, monitor_delete] \<and>
     registered h (made_object p) \<and> initialized (made_object p) \<and>
     thread_joinable (made_object p) = joinable \<and>
     J (queue (event_queue (made_object p))) (impl (made_object p))"

lemma on_monitor_returns:
  assumes "f (exec_monitor s) (made_object (exec_monitor s), t) = (Inr x, (m, t'))"
  shows "on_monitor f (s, t) = (Inr x, (put_object m s, t'))"
  using assms by (simp add: on_monitor_def act_bind_def reading_def zoom_def)

lemma monitor_at_put:
  "monitor_at h V J del joinable (exec_monitor s) \<Longrightarrow> registered h m \<Longrightarrow> initialized m \<Longrightarrow>
     J (queue (event_queue m)) (impl m) \<Longrightarrow> monitor_at h V J del (thread_joinable m) (exec_monitor (put_object m s))"
  by (simp add: monitor_at_def put_object_def)

lemma monitor_phases:
  assumes last: "lasting_monitor V h J del"
  shows "monitor_at h V J del j (exec_monitor s) \<Longrightarrow> \<exists>s' t'. prepare_exec_monitor (s, t) = (Inr (), (s', t')) \<and>
      monitor_at h V J del j (exec_monitor s')"
    and "monitor_at h V J del False (exec_monitor s) \<Longrightarrow> \<exists>s' t'. start_exec_monitor (s, t) = (Inr (), (s', t')) \<and>
      monitor_at h V J del True (exec_monitor s')"
    and "monitor_at h V J del True (exec_monitor s) \<Longrightarrow> \<exists>s' t'. let_monitor_run (replicate k []) (s, t) = (Inr (), (s', t')) \<and>
      monitor_at h V J del True (exec_monitor s')"
    and "monitor_at h V J del True (exec_monitor s) \<Longrightarrow> execution_ended s \<Longrightarrow>
      \<exists>s' t'. stop_exec_monitor (s, t) = (Inr (), (s', t')) \<and> monitor_at h V J del False (exec_monitor s')"
    and "monitor_at h V J del False (exec_monitor s) \<Longrightarrow> completes exec_manager_delete (s, t)"
proof -
  let ?o = "\<lambda>s. made_object (exec_monitor s)"
  from last have total: "monitor_total V h (\<lambda>evs st. J evs (fst st))" by (simp add: lasting_monitor_def)
  show "\<exists>s' t'. prepare_exec_monitor (s, t) = (Inr (), (s', t')) \<and> monitor_at h V J del j (exec_monitor s')"
    if at: "monitor_at h V J del j (exec_monitor s)"
  proof -
    from at lasting_monitor.prepare_returns [OF last, of "queue (event_queue (?o s))" "?o s" t] obtain m' t' where
      "monitor_prepare V (?o s, t) = (Inr (), (put_impl m' (?o s), t'))" "J (queue (event_queue (?o s))) m'"
      by (auto simp: monitor_at_def)
    with at on_monitor_returns [of "\<lambda>p. monitor_prepare (made_class p)" s t] monitor_at_put [OF at, of "put_impl m' (?o s)"]
    show ?thesis by (auto simp: prepare_exec_monitor_def monitor_at_def)
  qed
  show "\<exists>s' t'. start_exec_monitor (s, t) = (Inr (), (s', t')) \<and> monitor_at h V J del True (exec_monitor s')"
    if at: "monitor_at h V J del False (exec_monitor s)"
  proof -
    have "monitor_start (?o s, t) = (Inr (), ((?o s)\<lparr>thread_joinable := True\<rparr>, t))"
      using at by (simp add: monitor_start_def monitor_at_def act_simps)
    with at on_monitor_returns [of "\<lambda>_. monitor_start" s t] monitor_at_put [OF at, of "(?o s)\<lparr>thread_joinable := True\<rparr>"]
    show ?thesis by (auto simp: start_exec_monitor_def monitor_at_def)
  qed
  show "\<exists>s' t'. let_monitor_run (replicate k []) (s, t) = (Inr (), (s', t')) \<and> monitor_at h V J del True (exec_monitor s')"
    if at: "monitor_at h V J del True (exec_monitor s)"
  proof -
    have none: "concat (concat (replicate k [])) = []" by simp
    have "\<exists>m t'. monitor_run V over (replicate k []) (?o s, t) = (Inr (), (m, t')) \<and> initialized m \<and> thread_joinable m \<and>
        J (queue (event_queue m)) (impl m) \<and> registered h m" for over
    proof (cases over)
      case True
      have "monitor_loop V True turns st = (Inr (), st)" for turns st by (cases turns) (simp_all add: ret_def)
      with True at show ?thesis
        by (simp add: monitor_run_def monitor_thread_def noexcept_def catching_def monitor_at_def act_simps)
    next
      case False
      with at monitor_total.run_returns [OF total, of "?o s" "replicate k []" t] show ?thesis
        unfolding none by (auto simp: monitor_at_def)
    qed
    from this [of "is_execution_over s"] obtain m t' where
      1: "monitor_run V (is_execution_over s) (replicate k []) (?o s, t) = (Inr (), (m, t'))"
      and m: "initialized m" "thread_joinable m" "J (queue (event_queue m)) (impl m)" "registered h m" by blast
    from at 1 have "on_monitor (\<lambda>p. monitor_run (made_class p) (is_execution_over s) (replicate k [])) (s, t) =
        (Inr (), (put_object m s, t'))"
      by (intro on_monitor_returns) (simp add: monitor_at_def)
    then have "let_monitor_run (replicate k []) (s, t) = (Inr (), (put_object m s, t'))"
      by (simp add: let_monitor_run_def act_bind_def reading_def)
    with monitor_at_put [OF at m(4,1,3)] m(2) show ?thesis by auto
  qed
  show "\<exists>s' t'. stop_exec_monitor (s, t) = (Inr (), (s', t')) \<and> monitor_at h V J del False (exec_monitor s')"
    if at: "monitor_at h V J del True (exec_monitor s)" and over: "execution_ended s"
  proof -
    let ?m1 = "(?o s)\<lparr>thread_joinable := False\<rparr>"
    let ?s1 = "put_object ?m1 s"
    have "on_monitor (\<lambda>_. monitor_join True) (s, t) = (Inr (), (?s1, t))"
      using at by (intro on_monitor_returns join_over) (simp_all add: monitor_at_def)
    with over have join: "act_bind (reading is_execution_over) (\<lambda>over. on_monitor (\<lambda>_. monitor_join over)) (s, t) = (Inr (), (?s1, t))"
      by (simp add: act_bind_def reading_def is_execution_over_def)
    have at1: "monitor_at h V J del False (exec_monitor ?s1)"
      using monitor_at_put [OF at, of ?m1] at by (simp add: monitor_at_def)
    from at1 lasting_monitor.finalize_returns [OF last, of "queue (event_queue ?m1)" ?m1 t] obtain m' t' where
      "monitor_finalize V (?m1, t) = (Inr (), (put_impl m' ?m1, t'))" "J (queue (event_queue ?m1)) m'"
      using at by (auto simp: monitor_at_def)
    with at1 at on_monitor_returns [of "\<lambda>p. monitor_finalize (made_class p)" ?s1 t] monitor_at_put [OF at1, of "put_impl m' ?m1"] join
    show ?thesis by (auto simp: stop_exec_monitor_def monitor_at_def made_object_member.get_put)
  qed
  show "completes exec_manager_delete (s, t)" if at: "monitor_at h V J del False (exec_monitor s)"
  proof -
    from at lasting_monitor.destructor_returns [OF last, of "queue (event_queue (?o s))" "?o s" t] obtain m' t' where
      "made_delete (exec_monitor s) (?o s, t) = (Inr (), (m', t'))" by (auto simp: monitor_at_def)
    from on_monitor_returns [where f = made_delete, OF this] show ?thesis by (simp add: exec_manager_delete_def completesI)
  qed
qed

section \<open>From the first added process to the last kill\<close>

text \<open>While nobody has been waited for.\<close>

definition unwaited :: "platform \<Rightarrow> int list \<Rightarrow> sync_process process_monitor \<times> syscall list \<Rightarrow> bool" where
  "unwaited P pids st \<longleftrightarrow> pm_pids P pids st \<and> (\<forall>pid. waits (snd st) pid = 0)"

lemma steady_unwaited: "steady (unwaited P pids)"
  using steady_pids(2) [of P pids] by (auto simp: steady_def unwaited_def waits_append)

lemma kill_each_completes:
  assumes "base_pids pids (world s, t)" and "-1 \<notin> set pids" and "length pids = n" and "set ptrs \<subseteq> {..<n}"
  shows "\<exists>s' t'. kill_each P (map Some ptrs) between (s, t) = (Inr (), (s', t')) \<and> exec_monitor s' = exec_monitor s"
  using assms(1,4)
proof (induction ptrs arbitrary: s t between)
  case Nil
  then show ?case by (simp add: ret_def)
next
  case (Cons ptr ptrs)
  have tasks: "\<exists>w' t'. block (map (run_task P (sync_class P)) qs) (w, t) = (Inr (), (w', t')) \<and> base_pids pids (w', t')"
    if "base_pids pids (w, t)" for qs w t
    using that
  proof (induction qs arbitrary: w t)
    case Nil
    then show ?case by simp
  next
    case (Cons q qs)
    from Cons.prems have "sync_waitable.base_inv (set pids) (w, t)" by (simp add: base_pids_def)
    from sync_waitable.run_task_steps [OF this] obtain w1 t1 where
      run: "run_task P (sync_class P) q (w, t) = (Inr (), (w1, t1))" by blast
    from Cons.IH [OF maintainsD [OF base_run run Cons.prems]] run show ?case by simp
  qed
  let ?now = "concat (take 1 between)"
  from tasks [OF Cons.prems(1)] obtain w1 t1 where
    1: "block (map (run_task P (sync_class P)) ?now) (world s, t) = (Inr (), (w1, t1))" and b1: "base_pids pids (w1, t1)" by blast
  let ?s1 = "put_world w1 s" and ?p = "shared w1 ! ptr"
  have run: "run_tasks P ?now (s, t) = (Inr (), (?s1, t1))" using 1 by (simp add: run_tasks_def on_world_def zoom_def)
  have len: "length (shared w1) = n" using b1 assms(3) by (auto simp: base_pids_def has_pids_def)
  have "pid_of ?p \<in> set pids"
    using b1 Cons.prems(2) len by (auto simp: base_pids_def has_pids_def)
  then have st: "started (sp_process ?p)" using assms(2) by (auto simp: started_def pid_of_def)
  obtain r p' t2 where kill: "sync_kill P PROC (?p, t1) = (r, (p', t2))" by (rule prod_cases3)
  with st have r: "r = Inr () \<or> (\<exists>e. r = Inl (Raise e))"
    by (auto simp: sync_kill_def kill_process_def util_kill_def sync_started_def sync_pid_def on_process_def
        get_pid_def put_process_def act_simps split: if_splits)
  have same: "sp_process p' = sp_process ?p" using keepsD [OF stays_processes(3) kill refl] .
  let ?w2 = "w1\<lparr>shared := (shared w1)[ptr := p']\<rparr>" and ?s2 = "put_world (w1\<lparr>shared := (shared w1)[ptr := p']\<rparr>) s"
  have 2: "catching (on_object ptr (sync_kill P PROC)) (\<lambda>_. ret ()) (?s1, t1) = (Inr (), (?s2, t2))"
    using kill r by (auto simp: on_object_def on_world_def deref_def zoom_def catching_def ret_def put_world_def)
  obtain u where u: "t2 = t1 @ u" "set u \<subseteq> - waitings" using emitsD [OF stays_processes(4) kill] by blast
  have "same_processes w1 ?w2" using same by (simp add: same_processes_def map_same)
  moreover have "set u \<inter> waitings = {}" using u(2) by blast
  ultimately have b2: "base_pids pids (world ?s2, t2)"
    using b1 steady_pids(1) [of pids] u(1) unfolding steady_def by (auto simp: put_world_def)
  have "set ptrs \<subseteq> {..<n}" using Cons.prems(2) by simp
  from Cons.IH [OF b2 this, of "drop 1 between"] obtain s3 t3 where
    3: "kill_each P (map Some ptrs) (drop 1 between) (?s2, t2) = (Inr (), (s3, t3))"
    and s3: "exec_monitor s3 = exec_monitor s" by (auto simp: put_world_def)
  have "kill_each P (map Some (ptr # ptrs)) between (s, t) = (Inr (), (s3, t3))"
    using run 2 3 by simp
  with s3 show ?case by blast
qed

lemma run_benchs_completes:
  fixes s :: "'m simple_manager" and ps :: "sync_process list"
  defines "pids \<equiv> map pid_of ps"
  assumes P: "cooperative P" and last: "lasting_monitor V h J del"
    and at: "monitor_at h V J del False (exec_monitor s)" and q: "quiet_monitor h (exec_monitor s)"
    and slots: "processes s = map Some [0..<length ps]" and w: "world s = process_monitor_new ps"
    and ps: "\<forall>p \<in> set ps. running p" "\<forall>p \<in> set ps. is_open (sp_go p) WRITE_END" "distinct pids"
    and t: "\<And>pid. waits t pid = 0"
    and order: "p \<in> set pids" "2 \<le> count_list order p"
      "\<And>pid. pid \<in> set pids \<Longrightarrow> count_list order pid = 0 \<or> 2 \<le> count_list order pid"
  shows "\<exists>s' t'. run_benchs P (map Task order @ [Client, Client]) (replicate k []) between (s, t) = (Inr (), (s', t')) \<and>
    monitor_at h V J del False (exec_monitor s')"
proof -
  let ?slots = "map Some [0..<length ps]" and ?over = "execution_ended s" and ?n = "length ps"
  let ?I = "phase_inv (unwaited P pids) h ?slots ?over"
  note sh = process_monitor_new_def
  \<comment> \<open>adding\<close>
  have inv0: "sync_waitable.pm_inv P {} {} (world s, t)" unfolding w by (rule sync_waitable.start_inv [OF t])
  have "map (\<lambda>ptr. pid_of (shared (world s) ! ptr)) [0..<?n] = pids"
    unfolding pids_def w by (rule nth_equalityI) (simp_all add: sh)
  then have "distinct (map (\<lambda>ptr. pid_of (shared (world s) ! ptr)) [0..<?n])" using ps(3) by simp
  moreover have "ptr < length (shared (world s)) \<and> running (shared (world s) ! ptr)" if "ptr \<in> set [0..<?n]" for ptr
    using that ps(1) by (simp add: w sh)
  moreover have "dom (map_of (status (world s))) = {}" by (simp add: w sh)
  ultimately obtain w1 where "block (map (add_process (sync_class P)) [0..<?n]) (world s, t) = (Inr (), (w1, t))"
    and w1: "shared w1 = shared (world s)"
    using add_many_completes [OF inv0] by (metis inf_bot_left)
  then have 1: "each_process (\<lambda>ptr. on_world (add_process (sync_class P) ptr)) (s, t) = (Inr (), (put_world w1 s, t))"
    unfolding each_on_world [OF slots] by (simp add: on_world_def zoom_def)
  let ?s1 = "put_world w1 s"
  have "phase_inv (pm_pids P pids) h ?slots ?over (?s1, t)"
    using phase_add [OF q slots w ps(1) t 1] by (simp add: pids_def)
  then have J1: "?I (?s1, t)" using t by (simp add: phase_inv_def unwaited_def)
  have at1: "monitor_at h V J del False (exec_monitor ?s1)" using at by (simp add: put_world_def)
  \<comment> \<open>preparing the monitor, starting the processes, starting the monitor\<close>
  note ops = quiet_base_operations [unfolded prepare_exec_monitor_def start_exec_monitor_def]
  have keep: "maintains ?I prepare_exec_monitor" "maintains ?I start_exec_monitor"
    "maintains ?I (each_process (\<lambda>ptr. on_object ptr (sync_start P)))"
    unfolding prepare_exec_monitor_def start_exec_monitor_def
    by (rule phase_monitor [OF steady_unwaited ops(2)], rule phase_monitor [OF steady_unwaited ops(3)])
      (intro effects phase_object steady_unwaited stays_processes)
  obtain s2 t2 where 2: "prepare_exec_monitor (?s1, t) = (Inr (), (s2, t2))" and at2: "monitor_at h V J del False (exec_monitor s2)"
    using monitor_phases(1) [OF last at1] by blast
  have s2: "world s2 = w1" "processes s2 = ?slots"
    using on_monitor_frame [OF 2 [unfolded prepare_exec_monitor_def]] slots by (simp_all add: put_world_def)
  have "ptr < length (shared w1) \<and> started (sp_process (shared w1 ! ptr)) \<and> is_open (sp_go (shared w1 ! ptr)) WRITE_END"
    if "ptr \<in> set [0..<?n]" for ptr
    using that ps(1,2) by (simp add: w1 w sh running_def)
  from start_many_completes [OF P _ this] obtain w3 t3 where
    "block (map (\<lambda>ptr. deref ptr (sync_start P)) [0..<?n]) (world s2, t2) = (Inr (), (w3, t3))"
    unfolding s2(1) by (metis distinct_upt)
  then have 3: "each_process (\<lambda>ptr. on_object ptr (sync_start P)) (s2, t2) = (Inr (), (put_world w3 s2, t3))"
    unfolding on_object_def each_on_world [OF s2(2)] by (simp add: on_world_def zoom_def)
  let ?s3 = "put_world w3 s2"
  have at3: "monitor_at h V J del False (exec_monitor ?s3)" using at2 by (simp add: put_world_def)
  obtain s4 t4 where 4: "start_exec_monitor (?s3, t3) = (Inr (), (s4, t4))" and at4: "monitor_at h V J del True (exec_monitor s4)"
    using monitor_phases(2) [OF last at3] by blast
  have J4: "?I (s4, t4)"
    using maintainsD [OF keep(2) 4 maintainsD [OF keep(3) 3 maintainsD [OF keep(1) 2 J1]]] .
  \<comment> \<open>waiting\<close>
  from J4 have pm: "sync_waitable.pm_inv P (set pids) {} (world s4, t4)" and t4: "\<And>pid. waits t4 pid = 0"
    by (simp_all add: phase_inv_def unwaited_def pm_pids_def)
  then have base: "sync_waitable.base_inv (set pids) (world s4, t4)" by (simp add: sync_waitable.pm_inv_def)
  note before = sync_waitable.all_waiting [OF base t4]
  have dom: "p \<in> dom (map_of (status (world s4)))"
    using before(1) [OF order(1)] by (auto simp: waiting_def split: option.splits)
  have works: "rc (answer P u (Sys_waitpid p)) = p" for u using P by (simp add: cooperative_def)
  have "p \<noteq> -1" using order(1) ps(1) by (auto simp: pids_def running_def started_def pid_of_def)
  have turns: "turns_left (map_of (status (world s4)) pid) \<le> count_list order pid \<or>
      (waiting (world s4) pid \<and> count_list order pid = 0)" for pid
    using before(1) [of pid] before(3) [of pid] order(3) [of pid] by auto
  have ends: "turns_left (map_of (status (world s4)) p) \<le> count_list order p"
    using before(3) [of p] order(2) by auto
  have fails: "\<forall>e. result_of (world s4) p \<noteq> Some (Inl e)" using before(2) by simp
  from sync_waitable.wait_for_any_returns [OF pm dom works \<open>p \<noteq> -1\<close> fails ends turns] obtain pid v w5 t5 where
    any: "wait_for_any P (sync_class P) (map Task order @ [Client, Client]) (world s4, t4) = (Inr ((pid, v), []), (w5, t5))"
    by (metis prod.collapse)
  let ?s5 = "put_world w5 s4"
  have 5: "on_world (discard (wait_for_any P (sync_class P) (map Task order @ [Client, Client]))) (s4, t4) = (Inr (), (?s5, t5))"
    using any by (simp add: on_world_def zoom_def discard_def act_bind_def ret_def)
  from J4 have "pm_pids P pids (world s4, t4)" by (simp add: phase_inv_def unwaited_def)
  from wait_phase [OF this any] J4 have J5: "phase_inv (base_pids pids) h ?slots ?over (?s5, t5)"
    by (simp add: phase_inv_def put_world_def)
  have at5: "monitor_at h V J del True (exec_monitor ?s5)" using at4 by (simp add: put_world_def)
  \<comment> \<open>the turns of the monitor, stopping it, and killing\<close>
  obtain sr tr where r: "let_monitor_run (replicate k []) (?s5, t5) = (Inr (), (sr, tr))"
    and atr: "monitor_at h V J del True (exec_monitor sr)"
    using monitor_phases(3) [OF last at5] by blast
  let ?s6 = "sr\<lparr>execution_ended := True\<rparr>"
  have 6: "execution_end (sr, tr) = (Inr (), (?s6, tr))" by (simp add: execution_end_def modify_def)
  have J6: "phase_inv (base_pids pids) h ?slots True (?s6, tr)"
    using maintainsD [OF phase_monitor_turns(1) r J5] by (simp add: phase_inv_def)
  have at6: "monitor_at h V J del True (exec_monitor ?s6)" using atr by simp
  obtain s7 t7 where 7: "stop_exec_monitor (?s6, tr) = (Inr (), (s7, t7))"
    and at7: "monitor_at h V J del False (exec_monitor s7)"
    using monitor_phases(4) [OF last at6, of tr] by auto
  from maintainsD [OF phase_monitor_turns(2) 7 J6] have J7: "base_pids pids (world s7, t7)" "processes s7 = ?slots"
    by (simp_all add: phase_inv_def)
  have "-1 \<notin> set pids" using ps(1) by (auto simp: pids_def running_def started_def pid_of_def)
  moreover have "set [0..<?n] \<subseteq> {..<?n}" by auto
  ultimately obtain s8 t8 where "kill_each P ?slots between (s7, t7) = (Inr (), (s8, t8))"
    and s8: "exec_monitor s8 = exec_monitor s7"
    using kill_each_completes [OF J7(1), of ?n "[0..<?n]" P between] by (auto simp: pids_def)
  with J7(2) have 8: "act_bind (reading processes) (\<lambda>ps. kill_each P ps between) (s7, t7) = (Inr (), (s8, t8))"
    by (simp add: act_bind_def reading_def)
  have "run_benchs P (map Task order @ [Client, Client]) (replicate k []) between (s, t) = (Inr (), (s8, t8))"
    unfolding run_benchs_def using 1 2 3 4 5 r 6 7 8 by simp
  with at7 s8 show ?thesis by auto
qed

section \<open>From the constructor to the destructor\<close>

definition good_config :: "platform \<Rightarrow> 'pt ptree_ops \<Rightarrow> 'pt \<Rightarrow> 'pt \<Rightarrow> bool" where
  "good_config P T properties pt \<longleftrightarrow>
     get_string T properties ''exec_manager.type'' = Inr ''simple'' \<and>
     get_child T properties ''exec_manager.benchmarks'' = Inr pt \<and>
     (\<forall>x \<in> set (children T pt). good_bench T (snd x)) \<and> splits_documented T \<and>
     length (children T pt) < 2 ^ 32 \<and> suitable_monitor P T properties (length (children T pt))"

text \<open>A manager as its constructor leaves it, for \<open>n\<close> benchmarks.\<close>

definition fresh_manager :: "nat \<Rightarrow> (exec_event \<Rightarrow> ('m, unit) sys) \<Rightarrow> 'm simple_manager \<Rightarrow> bool" where
  "fresh_manager n h s \<longleftrightarrow> new_monitor h (exec_monitor s) \<and> lasts n h (exec_monitor s) \<and>
     (\<exists>bs. benchs s = number_from 0 bs \<and> length bs = n \<and> (\<forall>b \<in> set bs. bench_args b \<noteq> [])) \<and>
     processes s = replicate n None \<and> shared (world s) = []"

lemma manager_constructed:
  assumes "good_config P T properties pt"
  shows "\<exists>s' h. simple_manager_new T (factory_of (monitor_registars P T cnt)) properties (s, t) = (Inr (), (s', t)) \<and>
    fresh_manager (length (children T pt)) h s'"
proof -
  let ?n = "length (children T pt)" and ?bs = "map (bench_of T \<circ> snd) (children T pt)"
  from assms base_constructor_lasts [of P T properties ?n cnt s t] obtain h p where
    1: "exec_manager_new T (factory_of (monitor_registars P T cnt)) properties (s, t) =
      (Inr (), (s\<lparr>exec_monitor := p, execution_ended := False\<rparr>, t))"
    and p: "new_monitor h p" "lasts ?n h p" by (auto simp: good_config_def)
  have parsed: "parse_vector T pt st = (Inr ?bs, st)" for st :: "any_monitor simple_manager \<times> syscall list"
    using parse_vector_order [of "children T pt" T pt st] assms by (simp add: good_config_def)
  have "bench_args b \<noteq> []" if "b \<in> set ?bs" for b
    using that assms
    by (fastforce simp: good_config_def good_bench_def bench_of_def parse_cmd_tokens split_tokens_nonempty)
  moreover have "get_child T properties ''exec_manager.benchmarks'' = Inr pt" using assms by (simp add: good_config_def)
  ultimately show ?thesis using 1 p parsed
    by (auto simp: simple_manager_new_def fresh_manager_def lift_get_def unwinding_def catching_def act_bind_def
        modify_def ret_def process_monitor_new_def intro!: exI [of _ h] exI [of _ ?bs])
qed

lemma number_from_args: "b \<in> set (number_from k bs) \<Longrightarrow> bench_args b \<in> bench_args ` set bs"
  by (induction bs arbitrary: k) auto

lemma base_status_length:
  assumes "base_pids pids (w, t)"
  shows "length (status w) \<le> length pids"
proof -
  have inv: "sync_waitable.base_inv (set pids) (w, t)" using assms by (simp add: base_pids_def)
  then have "distinct (map fst (status w))" by (simp add: sync_waitable.base_inv_def smap_ok_distinct)
  moreover have "set (map fst (status w)) \<subseteq> set pids"
    using inv by (simp add: sync_waitable.base_inv_def dom_map_of_conv_image_fst)
  ultimately have "length (map fst (status w)) \<le> card (set pids)"
    by (metis List.finite_set card_mono distinct_card)
  then show ?thesis using card_length [of pids] by simp
qed

text \<open>The schedules under which a run comes to its end, for processes with the pids \<open>pids\<close>.\<close>

definition enough_turns :: "int list \<Rightarrow> int list \<Rightarrow> int list \<Rightarrow> bool" where
  "enough_turns pids order order' \<longleftrightarrow> list_ex (\<lambda>p. 2 \<le> count_list order p) pids \<and>
     list_all (\<lambda>p. count_list order p \<noteq> 1 \<and> 2 \<le> count_list order' p) pids"

lemma start_impl_completes:
  fixes s :: "'m simple_manager"
  assumes P: "cooperative P" and fresh: "fresh_manager n h s" and n: "n < 2 ^ 32"
  shows "\<exists>pids. length pids = n \<and> distinct pids \<and> (\<forall>order order' between k. enough_turns pids order order' \<longrightarrow>
    (\<exists>s' t' V J del. exec_manager_start (simple_start_impl P raw junk (map Task order @ [Client, Client]) (replicate k []) between
        (map Task order' @ replicate n Client)) (s, []) = (Inr (), (s', t')) \<and>
      lasting_monitor V h J del \<and> monitor_at h V J del False (exec_monitor s') \<and> quiet_monitor h (exec_monitor s') \<and>
      forked P t' = pids \<and> (\<forall>pid \<in> set pids. 0 < waits t' pid)))"
proof -
  let ?o = "made_object (exec_monitor s)"
  from fresh obtain bs where bs: "benchs s = number_from 0 bs" "length bs = n" "\<forall>b \<in> set bs. bench_args b \<noteq> []"
    by (auto simp: fresh_manager_def)
  have new: "quiet_monitor h (exec_monitor s)" "queue (event_queue ?o) = []" "\<not> initialized ?o" "\<not> thread_joinable ?o"
    "lasts n h (exec_monitor s)" "processes s = replicate n None" "shared (world s) = []"
    using fresh by (simp_all add: fresh_manager_def new_monitor_def)
  \<comment> \<open>initialising the monitor\<close>
  from lasts_initialize [OF new(5,3)] obtain m t1 where
    init: "monitor_initialize (made_class (exec_monitor s)) (?o, []) = (Inr (), (m, t1))"
    and m: "initialized m" "\<not> thread_joinable m" "queue (event_queue m) = []"
      "lasts n h ((exec_monitor s)\<lparr>made_object := m\<rparr>)"
    using new(2,4) by (metis (no_types))
  let ?s1 = "put_object m s"
  have 1: "on_monitor (\<lambda>p. monitor_initialize (made_class p)) (s, []) = (Inr (), (?s1, t1))"
    using on_monitor_returns [where f = "\<lambda>p. monitor_initialize (made_class p)", OF init] .
  from quietD [OF quiet_base_operations(1) 1 new(1)] have q1: "quiet_monitor h (exec_monitor ?s1)"
    and u: "set t1 \<subseteq> monitor_calls" by auto
  from u call_sets(10) have "set t1 \<inter> waitings = {}" by blast
  from waits_append [OF this, of "[]"] have t1: "waits t1 pid = 0" for pid by simp
  note s1 = on_monitor_frame [OF 1]
  \<comment> \<open>preparing\<close>
  have "Sys_fork \<notin> set t1" using u call_sets(11) by blast
  then have "forked P t1 = []" using forked_append [of t1 P "[]"] by simp
  then have "all_prepared P (?s1, t1)" using s1 new(7) t1 by (simp add: all_prepared_def)
  moreover have "bench_args b \<noteq> []" if "b \<in> set (number_from 0 bs)" for b
    using number_from_args [OF that] bs(3) by auto
  ultimately obtain s2 t2 where
    2: "block (map (prepare_bench P raw junk) (number_from 0 bs)) (?s1, t1) = (Inr (), (s2, t2))"
    and prep: "all_prepared P (s2, t2)" using prepare_all_completes [OF P] by metis
  have "processes ?s1 = replicate n None" "shared (world ?s1) = []" using s1 new(6,7) by simp_all
  with prepare_all_returns [of P raw junk 0 bs ?s1 t1 s2 t2] 2 bs(2) n obtain ps where
    ps: "shared (world s2) = ps" "map (\<lambda>p. proc_args (sp_process p)) ps = map bench_args bs" "\<forall>p \<in> set ps. running p"
      "processes s2 = map Some [0..<n]"
      "exec_monitor s2 = (exec_monitor ?s1)\<lparr>made_object := (made_object (exec_monitor ?s1))
        \<lparr>event_queue := fold cq_push (map created ps) (event_queue (made_object (exec_monitor ?s1)))\<rparr>\<rparr>"
    by auto
  let ?pids = "map pid_of ps"
  have len: "length ps = n" using map_eq_imp_length_eq [OF ps(2)] bs(2) by simp
  have dist: "distinct ?pids" using prep ps(1) by (simp add: all_prepared_def)
  have created: "map created ps = map creation ?pids" by (simp add: created_def creation_def)
  let ?s3 = "s2\<lparr>world := process_monitor_new ps\<rparr>"
  have 3: "on_world (modify (\<lambda>w. process_monitor_new (shared w))) (s2, t2) = (Inr (), (?s3, t2))"
    using ps(1) by (simp add: on_world_def zoom_def modify_def put_world_def)
  have obj: "made_object (exec_monitor ?s1) = m" "exec_monitor ?s1 = (exec_monitor s)\<lparr>made_object := m\<rparr>"
    by (simp_all add: put_object_def)
  have q3: "quiet_monitor h (exec_monitor ?s3)" using q1 by (simp add: ps(5) quiet_monitor_def)
  have "length ?pids = n" using len by simp
  from m(4) [unfolded lasts_def, rule_format, OF this dist] obtain J del where last: "lasting_monitor (made_class (exec_monitor s)) h J del"
      "made_delete (exec_monitor s) = block [on_impl del, monitor_delete]" "J (map creation ?pids) (impl m)"
    by (auto simp del: map_map)
  let ?V = "made_class (exec_monitor s)"
  have at3: "monitor_at h ?V J del False (exec_monitor ?s3)"
    using last m q1 by (simp add: ps(5) monitor_at_def obj cq.items_push_all created quiet_monitor_def del: map_map)
  \<comment> \<open>running, and destroying the process monitor\<close>
  have "\<exists>s' t'. exec_manager_start (simple_start_impl P raw junk (map Task order @ [Client, Client]) (replicate k []) between
        (map Task order' @ replicate n Client)) (s, []) = (Inr (), (s', t')) \<and> monitor_at h ?V J del False (exec_monitor s') \<and>
      quiet_monitor h (exec_monitor s') \<and> forked P t' = ?pids \<and> (\<forall>pid \<in> set ?pids. 0 < waits t' pid)"
    if enough: "enough_turns ?pids order order'" for order order' between k
  proof -
    from enough obtain p where p: "p \<in> set ?pids" "2 \<le> count_list order p"
      unfolding enough_turns_def list_ex_iff by blast
    have each: "count_list order pid = 0 \<or> 2 \<le> count_list order pid" "2 \<le> count_list order' pid" if "pid \<in> set ?pids" for pid
      using enough that unfolding enough_turns_def list_all_iff by fastforce+
    have open_go: "\<forall>p \<in> set ps. is_open (sp_go p) WRITE_END" and t2: "\<And>pid. waits t2 pid = 0"
      using prep ps(1) by (simp_all add: all_prepared_def)
    have slots: "processes ?s3 = map Some [0..<length ps]" "world ?s3 = process_monitor_new ps" using ps(4) len by simp_all
    from run_benchs_completes [OF P last(1) at3 q3 slots ps(3) open_go dist t2 p each(1)] obtain s4 t4 where
      4: "run_benchs P (map Task order @ [Client, Client]) (replicate k []) between (?s3, t2) = (Inr (), (s4, t4))"
      and at4: "monitor_at h ?V J del False (exec_monitor s4)" by blast
    from run_phase [OF q3 slots ps(3) t2 4] have base: "base_pids ?pids (world s4, t4)" by (simp add: phase_inv_def)
    then have inv: "sync_waitable.base_inv (set ?pids) (world s4, t4)" by (simp add: base_pids_def)
    have turns: "turns_left (map_of (status (world s4)) pid) \<le> count_list order' pid" for pid
    proof (cases "pid \<in> set ?pids")
      case True
      with each(2) sync_waitable.turns_bound [of "map_of (status (world s4)) pid"] show ?thesis by fastforce
    next
      case False
      with inv have "map_of (status (world s4)) pid = None" by (auto simp: sync_waitable.base_inv_def)
      then show ?thesis by (simp add: turns_left_def)
    qed
    have "replicate n Client = replicate (length (status (world s4))) Client @ replicate (n - length (status (world s4))) Client"
      using base_status_length [OF base] len by (simp flip: replicate_add)
    with sync_waitable.delete_returns [OF inv turns, where P = P] obtain left w5 t5 where
      "process_monitor_delete P (sync_class P) (map Task order' @ replicate n Client) (world s4, t4) = (Inr left, (w5, t5))"
      by (metis prod.collapse)
    note del = this
    from delete_phase [OF base del] have waited: "\<forall>pid \<in> set ?pids. 0 < waits t5 pid" by simp
    from del have 5: "on_world (discard (process_monitor_delete P (sync_class P) (map Task order' @ replicate n Client))) (s4, t4) =
        (Inr (), (put_world w5 s4, t5))"
      by (simp add: on_world_def zoom_def discard_def act_bind_def ret_def)
    let ?rest = "[on_world (modify (\<lambda>w. process_monitor_new (shared w))),
      scoped (run_benchs P (map Task order @ [Client, Client]) (replicate k []) between)
        (on_world (discard (process_monitor_delete P (sync_class P) (map Task order' @ replicate n Client))))]"
    have rest: "block ?rest (s2, t2) = (Inr (), (put_world w5 s4, t5))"
      unfolding scoped_def using 3 4 5 by (simp add: unwinding_def catching_def)
    have "quiet_monitor h (exec_monitor s2)" using q1 by (simp add: ps(5) quiet_monitor_def)
    from quietD [OF quiet_rest rest this] obtain v where
      q5: "quiet_monitor h (exec_monitor (put_world w5 s4))" and v: "t5 = t2 @ v" "set v \<subseteq> - {Sys_fork}" by blast
    have "Sys_fork \<notin> set v" using v(2) by blast
    then have forks: "forked P t5 = ?pids" using prep ps(1) by (simp add: v(1) forked_append all_prepared_def)
    have "benchs ?s1 = number_from 0 bs" using s1 bs(1) by simp
    then have "exec_manager_start (simple_start_impl P raw junk (map Task order @ [Client, Client]) (replicate k []) between
        (map Task order' @ replicate n Client)) (s, []) = (Inr (), (put_world w5 s4, t5))"
      unfolding exec_manager_start_def simple_start_impl_def scoped_def
      using 1 2 3 4 5 by (simp add: act_bind_def reading_def unwinding_def catching_def)
    with at4 q5 forks waited show ?thesis by (auto simp: put_world_def)
  qed
  with len dist last(1) show ?thesis by (intro exI [of _ ?pids]) fastforce
qed

lemma manager_destructor_completes:
  assumes "close_succeeds P" and "lasting_monitor V h J del" and "monitor_at h V J del False (exec_monitor s)"
  shows "completes (simple_manager_delete P) (s, t)"
proof -
  let ?one = "\<lambda>p. case p of None \<Rightarrow> ret () | Some ptr \<Rightarrow> on_object ptr (sync_delete P)"
  have "\<exists>s' t'. block (map ?one ps) (s, t) = (Inr (), (s', t')) \<and> exec_monitor s' = exec_monitor s" for ps
  proof (induction ps arbitrary: s t)
    case Nil
    then show ?case by simp
  next
    case (Cons p ps)
    have "\<exists>s1 t1. ?one p (s, t) = (Inr (), (s1, t1)) \<and> exec_monitor s1 = exec_monitor s"
    proof (cases p)
      case None
      then show ?thesis by (simp add: ret_def)
    next
      case (Some ptr)
      obtain r q t1 where d: "sync_delete P (shared (world s) ! ptr, t) = (r, (q, t1))" by (rule prod_cases3)
      with sync_delete_ok [OF assms(1) d] Some show ?thesis
        by (simp add: on_object_def on_world_def deref_def zoom_def put_world_def)
    qed
    then obtain s1 t1 where one: "?one p (s, t) = (Inr (), (s1, t1))" "exec_monitor s1 = exec_monitor s" by blast
    with Cons.IH [of s1 t1] show ?case by simp
  qed
  from this [of "processes s"] obtain s1 t1 where
    "act_bind (reading processes) (\<lambda>ps. block (map ?one ps)) (s, t) = (Inr (), (s1, t1))" "exec_monitor s1 = exec_monitor s"
    by (auto simp: act_bind_def reading_def)
  with monitor_phases(5) [OF assms(2), of s1 t1] assms(3) show ?thesis
    unfolding simple_manager_delete_def by (intro completes_block) (auto simp: completes_def)
qed

text \<open>With a good configuration \<open>main\<close> comes to a fresh manager.\<close>

lemma main_manages:
  assumes "good_config P T properties pt" and "read_json path = Inr properties"
  shows "\<exists>s' h. fresh_manager (length (children T pt)) h s' \<and>
    (\<forall>start. aser_main P T read_json cnt False (Some path) start (s, []) =
      noexcept (scoped (exec_manager_start start) (simple_manager_delete P)) (s', []))"
proof -
  let ?regs = "[simple_manager_registar T (factory_of (monitor_registars P T cnt))]"
  from manager_constructed [OF assms(1)] obtain s' h where
    new: "simple_manager_new T (factory_of (monitor_registars P T cnt)) properties (s, []) = (Inr (), (s', []))"
    and fresh: "fresh_manager (length (children T pt)) h s'" by blast
  have "factory_create (factory_of ?regs) ''simple'' properties (s, []) = (Inr (), (s', []))"
    using factory_lookup [of ?regs "''simple''"] new by (simp add: simple_manager_registar_def)
  moreover have "get_string T properties ''exec_manager.type'' = Inr ''simple''" using assms(1) by (simp add: good_config_def)
  moreover have "noexcept (block [a, b]) st = noexcept b st'" if "a st = (Inr (), st')" for a b :: "(any_monitor simple_manager, unit) sys" and st st'
    using that by (simp add: noexcept_def catching_def split: sum.split stop.split prod.split)
  ultimately have "aser_main P T read_json cnt False (Some path) start (s, []) =
      noexcept (scoped (exec_manager_start start) (simple_manager_delete P)) (s', [])" for start
    using assms(2) by (simp add: aser_main_def lift_get_def act_bind_def ret_def noexcept_def catching_def)
  with fresh show ?thesis by blast
qed

section \<open>Properties\<close>

text \<open>
  C3. The program comes to its end.  Take a configuration with fewer than \<open>2^32\<close> benchmarks that parses
  and asks for a simple monitor, for a CPU hopper on a machine with more CPUs than benchmarks, or for a
  sampler of dummy events, and a kernel on which every call of the manager but \<open>kill\<close> succeeds and no pid is
  used twice before somebody was waited for.  Then there are different pids, one for each benchmark, such
  that \<open>main\<close> returns normally, having forked exactly these and waited for each of them, under every
  schedule in which: until \<open>wait_for_any\<close> returns at least one task ends (two turns) while all
  others may go on for ever or end as well, and later the destructor of the \<open>process_monitor\<close> sees all of
  them end and has one turn for each.  Tasks may take turns between the kills as they like, the kills may
  fail, and the thread of the monitor may make any number of turns; it can be joined because the flag that ends its
  loop is set before.
\<close>

theorem main_returns:
  assumes "cooperative P" and "good_config P T properties pt" and "read_json path = Inr properties"
  shows "\<exists>pids. length pids = length (children T pt) \<and> distinct pids \<and>
    (\<forall>order order' between k. enough_turns pids order order' \<longrightarrow>
      (\<exists>s' t'. aser_main P T read_json cnt False (Some path)
        (simple_start_impl P raw junk (map Task order @ [Client, Client]) (replicate k []) between
          (map Task order' @ replicate (length pids) Client)) (s, []) = (Inr (), (s', t')) \<and>
        forked P t' = pids \<and> (\<forall>pid \<in> set pids. 0 < waits t' pid)))"
proof -
  let ?n = "length (children T pt)"
  let ?start = "\<lambda>order order' between k. simple_start_impl P raw junk (map Task order @ [Client, Client]) (replicate k [])
    between (map Task order' @ replicate ?n Client)"
  from main_manages [where read_json = read_json and path = path and cnt = cnt and s = s, OF assms(2,3)] obtain s1 h where
    fresh: "fresh_manager ?n h s1"
    and main: "\<And>start. aser_main P T read_json cnt False (Some path) start (s, []) =
      noexcept (scoped (exec_manager_start start) (simple_manager_delete P)) (s1, [])" by blast
  have "?n < 2 ^ 32" using assms(2) by (simp add: good_config_def)
  from start_impl_completes [OF assms(1) fresh this, where raw = raw and junk = junk] obtain pids where
    pids: "length pids = ?n" "distinct pids"
    and run: "\<And>order order' between k. enough_turns pids order order' \<Longrightarrow>
      (\<exists>s2 t2 V J del. exec_manager_start (?start order order' between k) (s1, []) = (Inr (), (s2, t2)) \<and>
        lasting_monitor V h J del \<and> monitor_at h V J del False (exec_monitor s2) \<and> quiet_monitor h (exec_monitor s2) \<and>
        forked P t2 = pids \<and> (\<forall>pid \<in> set pids. 0 < waits t2 pid))" by blast
  have close: "close_succeeds P" using assms(1) by (simp add: cooperative_def)
  have "\<exists>s' t'. aser_main P T read_json cnt False (Some path) (?start order order' between k) (s, []) = (Inr (), (s', t')) \<and>
      forked P t' = pids \<and> (\<forall>pid \<in> set pids. 0 < waits t' pid)"
    if enough: "enough_turns pids order order'" for order order' between k
  proof -
    from run [OF enough, of k between] obtain s2 t2 V J del where
      start: "exec_manager_start (?start order order' between k) (s1, []) = (Inr (), (s2, t2))"
      and last: "lasting_monitor V h J del" "monitor_at h V J del False (exec_monitor s2)" "quiet_monitor h (exec_monitor s2)"
      and done2: "forked P t2 = pids" "\<forall>pid \<in> set pids. 0 < waits t2 pid" by blast
    obtain s' t' where delete: "simple_manager_delete P (s2, t2) = (Inr (), (s', t'))"
      using manager_destructor_completes [OF close last(1,2)] by (rule completesE) simp
    from manager_destructor [OF last(3) delete] obtain u where u: "t' = t2 @ u" "set u \<subseteq> - {Sys_fork}" by blast
    then have "Sys_fork \<notin> set u" by blast
    then have "forked P t' = pids" using done2(1) by (simp add: u(1) forked_append)
    moreover have "\<forall>pid \<in> set pids. 0 < waits t' pid" using done2(2) by (simp add: u(1) waits_def)
    moreover have "scoped (exec_manager_start (?start order order' between k)) (simple_manager_delete P) (s1, []) =
        (Inr (), (s', t'))"
      using start delete by (simp add: scoped_def unwinding_def catching_def)
    ultimately show ?thesis unfolding main by (simp add: noexcept_def catching_def)
  qed
  with pids show ?thesis by (intro exI [of _ pids]) simp
qed

lemma demo_good: "good_config good_platform tree_ops demo_config
  (Node [([], Node [(''name'', Leaf ''first''), (''cmd'', Leaf ''/bin/true'')]),
         ([], Node [(''name'', Leaf ''second''), (''cmd'', Leaf ''/bin/sleep 1'')])])"
  using tree_ops_split
  by (simp add: good_config_def demo_config_def tree_ops_def suitable_monitor_def good_bench_def)

theorem main_returns_witness:
  "\<exists>p q s' t'. p \<noteq> q \<and> aser_main good_platform tree_ops (\<lambda>_. Inr demo_config) zero_count False (Some ''aser.json'')
      (simple_start_impl good_platform raw_process 0 (map Task [p, p] @ [Client, Client]) (replicate 2 []) []
        (map Task [p, p, q, q] @ replicate 2 Client)) (raw_manager, []) = (Inr (), (s', t')) \<and>
    forked good_platform t' = [p, q]"
proof -
  let ?pt = "Node [([], Node [(''name'', Leaf ''first''), (''cmd'', Leaf ''/bin/true'')]),
         ([], Node [(''name'', Leaf ''second''), (''cmd'', Leaf ''/bin/sleep 1'')])]"
  let ?run = "\<lambda>order order' between k n. aser_main good_platform tree_ops (\<lambda>_. Inr demo_config) zero_count False (Some ''aser.json'')
        (simple_start_impl good_platform raw_process 0 (map Task order @ [Client, Client]) (replicate k []) between
          (map Task order' @ replicate n Client)) (raw_manager, [])"
  have n: "length (children tree_ops ?pt) = 2" by (simp add: tree_ops_def)
  from main_returns [where read_json = "\<lambda>_. Inr demo_config" and path = "''aser.json''" and cnt = zero_count and
      raw = raw_process and junk = 0 and s = raw_manager, OF good_cooperative demo_good refl]
  obtain pids where pids: "length pids = 2" "distinct pids"
    and run: "\<And>order order' between k. enough_turns pids order order' \<Longrightarrow>
      \<exists>s' t'. ?run order order' between k (length pids) = (Inr (), (s', t')) \<and>
        forked good_platform t' = pids \<and> (\<forall>pid \<in> set pids. 0 < waits t' pid)"
    unfolding n by blast
  from pids(1) obtain p q where pq: "pids = [p, q]" by (auto simp: length_Suc_conv numeral_2_eq_2)
  with pids(2) have "p \<noteq> q" by simp
  then have "enough_turns pids [p, p] [p, p, q, q]" by (simp add: pq enough_turns_def)
  from run [OF this, of 2 "[]", unfolded pids(1)] obtain s' t' where
    "?run [p, p] [p, p, q, q] [] 2 2 = (Inr (), (s', t'))" "forked good_platform t' = [p, q]" unfolding pq by blast
  with \<open>p \<noteq> q\<close> show ?thesis by (intro exI [of _ p] exI [of _ q] exI [of _ s'] exI [of _ t']) simp
qed

text \<open>Nobody is there to be waited for.\<close>

lemma nobody_blocks:
  "status w = [] \<Longrightarrow> queue (ended_process_queue w) = [] \<Longrightarrow> await P W some_ended sched (w, t) = (Inl Blocked, (w, t))"
proof (induction sched)
  case Nil
  then show ?case by simp
next
  case (Cons turn sched)
  then show ?case
    by (cases turn) (simp_all add: run_task_def some_ended_iff act_simps)
qed

text \<open>
  C31. No benchmarks, no end.  With an empty list of benchmarks, in a configuration that is good otherwise,
  the program starts its monitor and then waits for ever in \<open>wait_for_any\<close>: no schedule, however long,
  lets it proceed, whatever the kernel answers.
\<close>

theorem no_benchmarks_hang:
  assumes "good_config P T properties pt" and "read_json path = Inr properties" and "children T pt = []"
  shows "fst (aser_main P T read_json cnt False (Some path)
    (simple_start_impl P raw junk sched turns between final) (s, [])) = Inl Blocked"
proof -
  from main_manages [where read_json = read_json and path = path and cnt = cnt and s = s, OF assms(1,2)] obtain s' h where
    fresh: "fresh_manager 0 h s'"
    and main: "\<And>start. aser_main P T read_json cnt False (Some path) start (s, []) =
      noexcept (scoped (exec_manager_start start) (simple_manager_delete P)) (s', [])"
    unfolding assms(3) by auto
  let ?o = "made_object (exec_monitor s')"
  have new: "quiet_monitor h (exec_monitor s')" "\<not> initialized ?o" "\<not> thread_joinable ?o" "queue (event_queue ?o) = []"
    "lasts 0 h (exec_monitor s')" "benchs s' = []" "processes s' = []"
    using fresh by (auto simp: fresh_manager_def new_monitor_def)
  from lasts_initialize [OF new(5,2)] obtain m t1 where
    init: "monitor_initialize (made_class (exec_monitor s')) (?o, []) = (Inr (), (m, t1))"
    and m: "initialized m" "\<not> thread_joinable m" "queue (event_queue m) = []"
      "lasts 0 h ((exec_monitor s')\<lparr>made_object := m\<rparr>)"
    using new(3,4) by (metis (no_types))
  let ?s1 = "put_object m s'"
  have 1: "on_monitor (\<lambda>p. monitor_initialize (made_class p)) (s', []) = (Inr (), (?s1, t1))"
    using on_monitor_returns [where f = "\<lambda>p. monitor_initialize (made_class p)", OF init] .
  from quietD [OF quiet_base_operations(1) 1 new(1)] have q1: "registered h m"
    by (simp add: quiet_monitor_def put_object_def)
  note s1 = on_monitor_frame [OF 1]
  obtain J del where last: "lasting_monitor (made_class (exec_monitor s')) h J del"
      "made_delete (exec_monitor s') = block [on_impl del, monitor_delete]" "J [] (impl m)"
    using m(4) by (auto simp: lasts_def)
  let ?s2 = "?s1\<lparr>world := process_monitor_new (shared (world ?s1))\<rparr>"
  have 2: "on_world (modify (\<lambda>w. process_monitor_new (shared w))) (?s1, t1) = (Inr (), (?s2, t1))"
    by (simp add: on_world_def zoom_def modify_def put_world_def)
  have at2: "monitor_at h (made_class (exec_monitor s')) J del False (exec_monitor ?s2)"
    using last m q1 by (simp add: monitor_at_def put_object_def)
  obtain s3 t3 where 3: "prepare_exec_monitor (?s2, t1) = (Inr (), (s3, t3))"
    and at3: "monitor_at h (made_class (exec_monitor s')) J del False (exec_monitor s3)"
    using monitor_phases(1) [OF last(1) at2] by blast
  obtain s4 t4 where 4: "start_exec_monitor (s3, t3) = (Inr (), (s4, t4))"
    using monitor_phases(2) [OF last(1) at3] by blast
  note s3 = on_monitor_frame [OF 3 [unfolded prepare_exec_monitor_def]]
  note s4 = on_monitor_frame [OF 4 [unfolded start_exec_monitor_def]]
  have "status (world s4) = []" "queue (ended_process_queue (world s4)) = []"
    using s3(1) s4(1) by (simp_all add: process_monitor_new_def cq_empty_def)
  from nobody_blocks [OF this] have "wait_for_any P (sync_class P) sched (world s4, t4) = (Inl Blocked, (world s4, t4))"
    by (simp add: wait_for_any_def act_bind_def)
  then have 5: "on_world (discard (wait_for_any P (sync_class P) sched)) (s4, t4) = (Inl Blocked, (put_world (world s4) s4, t4))"
    by (simp add: on_world_def zoom_def discard_def act_bind_def)
  have "processes ?s2 = []" "processes s3 = []" "benchs ?s1 = []" using s1 s3 new(6,7) by simp_all
  with 1 2 3 4 5 show ?thesis
    unfolding main noexcept_def scoped_def exec_manager_start_def simple_start_impl_def run_benchs_def each_process_def
    by (simp add: act_bind_def reading_def unwinding_def catching_def)
qed

definition empty_config :: tree where
  "empty_config = Node
     [(''exec_manager.type'', Leaf ''simple''), (''exec_monitor.type'', Leaf ''simple''),
      (''exec_manager.benchmarks'', Node [])]"

theorem no_benchmarks_hang_witness:
  "fst (aser_main good_platform tree_ops (\<lambda>_. Inr empty_config) zero_count False (Some ''aser.json'')
     (simple_start_impl good_platform raw_process 0 [Client, Client, Client] [] [] []) (raw_manager, [])) = Inl Blocked"
proof -
  have "good_config good_platform tree_ops empty_config (Node [])"
    using tree_ops_split by (simp add: good_config_def empty_config_def tree_ops_def suitable_monitor_def)
  from no_benchmarks_hang [where read_json = "\<lambda>_. Inr empty_config" and path = "''aser.json''", OF this refl]
  show ?thesis by (simp add: tree_ops_def)
qed

end
