(* ===== verification/Manager_Rejects.thy ===== *)
theory Manager_Rejects
  imports Manager_Order
begin

text \<open>
  Configurations \<open>main\<close> does not accept: what the constructors need of a configuration, and how the
  program ends without it.
\<close>

section \<open>How construction can fail\<close>

text \<open>An exception, or \<open>std::terminate\<close> during unwinding.\<close>

definition unclean :: "stop set" where
  "unclean = range Raise \<union> {Terminated}"

lemma unclean_simps [simp]: "Raise e \<in> unclean" "Terminated \<in> unclean" "range Raise \<subseteq> unclean"
  by (auto simp: unclean_def)

lemma deletes_unclean:
  "outcomes unclean (pmc_sampler_delete (linux_manager P junk))"
  "outcomes unclean (pmc_sampler_delete (dummy_manager junk))"
proof -
  have "outcomes unclean (linux_delete P)"
    by (auto simp: linux_delete_def linux_close_def intro!: effects)
  then show "outcomes unclean (pmc_sampler_delete (linux_manager P junk))"
    by (auto simp: pmc_sampler_delete_def on_second_of_pair_def linux_manager_def manager_of_def
        event_manager_delete_def on_events_def event_delete_def linux_impl_def intro!: effects outcomes_each)
  show "outcomes unclean (pmc_sampler_delete (dummy_manager junk))"
    by (auto simp: pmc_sampler_delete_def on_second_of_pair_def dummy_manager_def manager_of_def
        event_manager_delete_def on_events_def event_delete_def dummy_impl_def intro!: effects outcomes_each)
qed

text \<open>A constructor of a monitor throws, or the configuration has a sampling length.\<close>

definition needs_length :: "'pt ptree_ops \<Rightarrow> 'pt \<Rightarrow> ('m monitor, unit) sys \<Rightarrow> bool" where
  "needs_length T properties ctor \<longleftrightarrow> (\<forall>st. case fst (ctor st) of
     Inl e \<Rightarrow> e \<in> range Raise | Inr _ \<Rightarrow> \<not> isl (get_unsigned T properties ''exec_monitor.sampling_length''))"

lemma constructors_need_length:
  "needs_length T properties (simple_monitor_new T properties)"
  "needs_length T properties (cpu_hopper_new P T properties)"
  "needs_length T properties (pmc_sampler_new P T M properties)"
  by (auto simp: needs_length_def simple_monitor_new_def cpu_hopper_new_def pmc_sampler_new_def lift_get_def
      register_event_handler_def smap_emplace_def exec_monitor_new_def create_generic_events_run
      on_impl_def put_impl_def act_simps Let_def split: sum.splits)

lemma made_unclean:
  assumes "outcomes unclean del" and "needs_length T properties ctor"
    and "make_monitor wrap out V del ctor raw (s, t) = (r, st')"
  shows "case r of Inl e \<Rightarrow> e \<in> range Raise
    | Inr p \<Rightarrow> outcomes unclean (made_delete p) \<and> \<not> isl (get_unsigned T properties ''exec_monitor.sampling_length'')"
proof -
  obtain r1 m t1 where c: "ctor (raw, t) = (r1, (m, t1))" by (rule prod_cases3)
  have "outcomes unclean (block [on_impl (embed wrap out del), monitor_delete])"
    using assms(1) by (auto simp: on_impl_def embed_def monitor_delete_def intro!: effects)
  moreover from assms(2) have "case fst (ctor (raw, t)) of Inl e \<Rightarrow> e \<in> range Raise
      | Inr _ \<Rightarrow> \<not> isl (get_unsigned T properties ''exec_monitor.sampling_length'')"
    unfolding needs_length_def by blast
  ultimately show ?thesis using c assms(3) by (auto simp: make_monitor_def split: sum.splits)
qed

lemma registered_unclean:
  assumes "(ident, c) \<in> set (monitor_registars P T junk)" and "c properties (s, t) = (r, st')"
  shows "case r of Inl e \<Rightarrow> e \<in> range Raise
    | Inr p \<Rightarrow> outcomes unclean (made_delete p) \<and> \<not> isl (get_unsigned T properties ''exec_monitor.sampling_length'')"
proof -
  note made = made_unclean [OF _ constructors_need_length(1)] made_unclean [OF _ constructors_need_length(2)]
    made_unclean [OF deletes_unclean(1) constructors_need_length(3)]
    made_unclean [OF deletes_unclean(2) constructors_need_length(3)]
  have ret: "outcomes unclean (ret ())" by (intro effects)
  from assms(1) consider "c = simple_monitor_creator P T" | "c = cpu_hopper_creator P T"
    | "c = pmc_linux_creator P T junk" | "c = pmc_dummy_creator P T junk"
    by (auto simp: monitor_registars_def simple_monitor_registar_def cpu_hopper_registar_def
        pmc_sampler_linux_registar_def pmc_sampler_dummy_registar_def split: host_os.splits)
  then show ?thesis
  proof cases
    case 1
    with assms(2) show ?thesis by (intro made(1) [OF ret]) (simp add: simple_monitor_creator_def)
  next
    case 2
    with assms(2) show ?thesis by (intro made(2) [OF ret]) (simp add: cpu_hopper_creator_def)
  next
    case 3
    with assms(2) show ?thesis by (intro made(3)) (simp add: pmc_linux_creator_def Let_def)
  next
    case 4
    with assms(2) show ?thesis by (intro made(4)) (simp add: pmc_dummy_creator_def Let_def)
  qed
qed

text \<open>The names under which monitors are registered.\<close>

definition monitor_names :: "platform \<Rightarrow> string list" where
  "monitor_names P = [''simple'', ''cpu-hopper''] @
     (case host P of Linux \<Rightarrow> [''pmc-sampler[linux]''] | Mac \<Rightarrow> []) @ [''pmc-sampler[dummy]'']"

lemma registered_name: "(ident, c) \<in> set (monitor_registars P T junk) \<Longrightarrow> ident \<in> set (monitor_names P)"
  by (auto simp: monitor_registars_def simple_monitor_registar_def cpu_hopper_registar_def monitor_names_def
      pmc_sampler_linux_registar_def pmc_sampler_dummy_registar_def split: host_os.splits)

text \<open>What the constructors look up in a configuration.\<close>

definition readable_config :: "platform \<Rightarrow> 'pt ptree_ops \<Rightarrow> 'pt \<Rightarrow> bool" where
  "readable_config P T properties \<longleftrightarrow>
     get_string T properties ''exec_manager.type'' = Inr ''simple'' \<and>
     get_string T properties ''exec_monitor.type'' \<in> Inr ` set (monitor_names P) \<and>
     \<not> isl (get_unsigned T properties ''exec_monitor.sampling_length'') \<and>
     (case get_child T properties ''exec_manager.benchmarks'' of Inl _ \<Rightarrow> False
      | Inr pt \<Rightarrow> list_all (\<lambda>x. good_bench T (snd x)) (children T pt))"

lemma base_constructor_unclean:
  assumes "exec_manager_new T (factory_of (monitor_registars P T junk)) properties (s, t) = (r, (s', t'))"
  shows "case r of Inl e \<Rightarrow> e \<in> range Raise
    | Inr _ \<Rightarrow> outcomes unclean (made_delete (exec_monitor s')) \<and>
        \<not> isl (get_unsigned T properties ''exec_monitor.sampling_length'') \<and>
        get_string T properties ''exec_monitor.type'' \<in> Inr ` set (monitor_names P)"
proof (cases "get_string T properties ''exec_monitor.type''")
  case (Inl e)
  with assms show ?thesis by (auto simp: exec_manager_new_def lift_get_def act_simps)
next
  case (Inr ident)
  let ?F = "factory_of (monitor_registars P T junk)"
  obtain r1 s1 t1 where c: "factory_create ?F ident properties (s, t) = (r1, (s1, t1))" by (rule prod_cases3)
  from created_or_thrown [OF distinct_registars c] show ?thesis
  proof (elim disjE exE conjE)
    fix c'
    assume reg: "(ident, c') \<in> set (monitor_registars P T junk)" and "c' properties (s, t) = (r1, (s1, t1))"
    with registered_unclean [OF this] registered_name [OF reg] Inr c assms show ?thesis
      by (cases r1) (auto simp: exec_manager_new_def lift_get_def act_simps)
  next
    fix e
    assume "r1 = Inl (Raise e)"
    with Inr c assms show ?thesis by (auto simp: exec_manager_new_def lift_get_def act_simps)
  qed
qed

lemma parse_vector_run:
  "(\<forall>x \<in> set (children T pt). good_bench T (snd x)) \<and>
     parse_vector T pt st = (Inr (map (bench_of T \<circ> snd) (children T pt)), st) \<or>
   (\<exists>e. parse_vector T pt st = (Inl (Raise e), st)) \<and> \<not> (\<forall>x \<in> set (children T pt). good_bench T (snd x))"
proof (cases "\<forall>x \<in> set (children T pt). good_bench T (snd x)")
  case True
  with parse_vector_order [OF True, of pt st] show ?thesis by simp
next
  case False
  then obtain xs y ys where "children T pt = xs @ y # ys" "\<not> good_bench T (snd y)" "\<forall>x \<in> set xs. good_bench T (snd x)"
    using split_list_first_prop [of "children T pt" "\<lambda>x. \<not> good_bench T (snd x)"] by auto
  with parse_vector_order [of xs T pt st] False show ?thesis by blast
qed

lemma manager_constructor_unclean:
  assumes "simple_manager_new T (factory_of (monitor_registars P T junk)) properties (s, t) = (r, (s', t'))"
    and "get_string T properties ''exec_manager.type'' = Inr ''simple''"
  shows "case r of Inl e \<Rightarrow> e \<in> unclean | Inr _ \<Rightarrow> readable_config P T properties"
proof -
  obtain r1 s1 t1 where 1: "exec_manager_new T (factory_of (monitor_registars P T junk)) properties (s, t) = (r1, (s1, t1))"
    by (rule prod_cases3)
  show ?thesis
  proof (cases r1)
    case (Inl e)
    with base_constructor_unclean [OF 1] 1 assms(1) show ?thesis by (auto simp: simple_manager_new_def)
  next
    case (Inr x)
    with base_constructor_unclean [OF 1] have del: "outcomes unclean (made_delete (exec_monitor s1))"
      and ok: "\<not> isl (get_unsigned T properties ''exec_monitor.sampling_length'')"
        "get_string T properties ''exec_monitor.type'' \<in> Inr ` set (monitor_names P)" by simp_all
    have delete: "r2 = Inl e2 \<Longrightarrow> e2 \<in> unclean" if "exec_manager_delete (s1, t1) = (r2, st2)" for r2 st2 e2
      using that outcomesD [OF del] by (auto simp: exec_manager_delete_def on_monitor_def zoom_def act_simps split: prod.splits)
    have cleanup: "\<exists>e2. fst (act_bind exec_manager_delete (\<lambda>_. raise e) (s1, t1)) = Inl e2 \<and> e2 \<in> unclean" for e
      using delete by (auto simp: act_bind_def raise_def halt_def split: prod.split sum.split)
    show ?thesis
    proof (cases "get_child T properties ''exec_manager.benchmarks''")
      case (Inl e)
      with 1 Inr assms(1) cleanup [of e] \<open>r1 = Inr x\<close> show ?thesis
        by (auto simp: simple_manager_new_def lift_get_def unwinding_def catching_def act_bind_def raise_def halt_def
            split: prod.splits sum.splits)
    next
      case pt: (Inr pt)
      from parse_vector_run [of T pt "(s1, t1)"] show ?thesis
      proof (elim disjE conjE exE)
        assume "\<forall>x \<in> set (children T pt). good_bench T (snd x)"
          and "parse_vector T pt (s1, t1) = (Inr (map (bench_of T \<circ> snd) (children T pt)), s1, t1)"
        with pt ok assms 1 Inr show ?thesis
          by (auto simp: simple_manager_new_def lift_get_def unwinding_def catching_def act_bind_def ret_def modify_def
              readable_config_def list_all_iff)
      next
        fix e
        assume "parse_vector T pt (s1, t1) = (Inl (Raise e), s1, t1)"
        with pt 1 Inr assms(1) cleanup [of e] show ?thesis
          by (auto simp: simple_manager_new_def lift_get_def unwinding_def catching_def act_bind_def ret_def raise_def halt_def
              split: prod.splits sum.splits)
      qed
    qed
  qed
qed

section \<open>Properties\<close>

text \<open>
  C5. Bad input.  Asked for help, or without a configuration, \<open>main\<close> exits with status 1.  If the
  configuration cannot be read, or lacks what a run needs (a manager of type \<open>simple\<close>, a monitor of a type
  registered on this system, a sampling length, and benchmarks each with a name and a command),
  nothing catches the exception and the program is terminated.  Whatever the monitor did before that, and
  whatever \<open>start_impl\<close> would do, the only system calls made are those of a monitor: no process has been
  forked.
\<close>

theorem main_rejects:
  assumes "help \<or> config = None \<or> (\<exists>path. config = Some path \<and>
    (\<forall>properties. read_json path = Inr properties \<longrightarrow> \<not> readable_config P T properties))"
  shows "\<exists>s' t'. aser_main P T read_json cnt help config start_impl (s, []) =
    (Inl (if help \<or> config = None then Exited 1 else Terminated), (s', t')) \<and> set t' \<subseteq> monitor_calls"
proof (cases "help \<or> config = None")
  case True
  then show ?thesis by (cases config) (auto simp: aser_main_def act_simps)
next
  case False
  with assms obtain path where config: "config = Some path" "\<not> help"
    and bad: "\<And>properties. read_json path = Inr properties \<Longrightarrow> \<not> readable_config P T properties" by auto
  show ?thesis
  proof (cases "read_json path")
    case (Inl e)
    with config show ?thesis by (auto simp: aser_main_def lift_get_def act_simps)
  next
    case read: (Inr properties)
    show ?thesis
    proof (cases "get_string T properties ''exec_manager.type''")
      case (Inl e)
      with config read show ?thesis by (auto simp: aser_main_def lift_get_def act_simps)
    next
      case type: (Inr ident)
      let ?regs = "[simple_manager_registar T (factory_of (monitor_registars P T cnt))]"
      obtain r s1 t1 where c: "factory_create (factory_of ?regs) ident properties (s, []) = (r, (s1, t1))" by (rule prod_cases3)
      have distinct_manager: "distinct (map fst ?regs)" by simp
      have "\<exists>e. r = Inl e \<and> e \<in> unclean \<and> set t1 \<subseteq> monitor_calls"
        using created_or_thrown [OF distinct_manager c]
      proof (elim disjE exE conjE)
        fix c'
        assume "(ident, c') \<in> set ?regs" "c' properties (s, []) = (r, (s1, t1))"
        then have "ident = ''simple''"
          and new: "simple_manager_new T (factory_of (monitor_registars P T cnt)) properties (s, []) = (r, (s1, t1))"
          by (simp_all add: simple_manager_registar_def)
        with manager_constructor_unclean [OF new] type bad [OF read] manager_constructor [OF new]
        show ?thesis by (cases r) auto
      qed auto
      then obtain e where "r = Inl e" "e \<in> unclean" "set t1 \<subseteq> monitor_calls" by blast
      with c config read type show ?thesis
        by (auto simp: aser_main_def lift_get_def noexcept_def catching_def act_bind_def ret_def halt_def unclean_def
            split: stop.split)
    qed
  qed
qed

theorem main_rejects_witness:
  "\<exists>s' t'. aser_main good_platform tree_ops
      (\<lambda>_. Inr (Node [(''exec_manager.type'', Leaf ''simple''), (''exec_monitor.type'', Leaf ''cpu-hoper'')]))
      zero_count False (Some ''aser.json'') demo_start (raw_manager, []) = (Inl Terminated, (s', t')) \<and>
    Sys_fork \<notin> set t'"
proof -
  let ?t = "Node [(''exec_manager.type'', Leaf ''simple''), (''exec_monitor.type'', Leaf ''cpu-hoper'')]"
  have "\<not> readable_config good_platform tree_ops ?t"
    by (auto simp: readable_config_def tree_ops_def monitor_names_def good_platform_def)
  then have bad: "False \<or> Some ''aser.json'' = None \<or> (\<exists>path. Some ''aser.json'' = Some path \<and>
      (\<forall>properties. (\<lambda>_. Inr ?t) path = Inr properties \<longrightarrow> \<not> readable_config good_platform tree_ops properties))"
    by simp
  from main_rejects [OF this, where cnt = zero_count and start_impl = demo_start and s = raw_manager] obtain s' t' where
    "aser_main good_platform tree_ops (\<lambda>_. Inr ?t) zero_count False (Some ''aser.json'') demo_start (raw_manager, []) =
      (Inl Terminated, (s', t'))" "set t' \<subseteq> monitor_calls" by auto
  moreover from this(2) call_sets(11) have "Sys_fork \<notin> set t'" by blast
  ultimately show ?thesis by blast
qed

end
