(* ===== verification/Manager_Configured.thy ===== *)
theory Manager_Configured
  imports Manager_Runs
begin

text \<open>
  What the constructor of the manager reads from the configuration, and what it does with a configuration it
  cannot read to its end.
\<close>

lemma number_from_map: "length bs < 2 ^ 32 \<Longrightarrow> i < length bs \<Longrightarrow>
    number_from n bs ! i = (bs ! i)\<lparr>bench_id := n + word_of_nat i\<rparr>"
  by (induction bs arbitrary: n i) (auto simp: nth_Cons split: nat.split)

text \<open>A benchmark says what the entry it was read from says.\<close>

definition reads_entry :: "'pt ptree_ops \<Rightarrow> 'pt \<Rightarrow> benchmark \<Rightarrow> bool" where
  "reads_entry T pt b \<longleftrightarrow> get_string T pt ''name'' = Inr (bench_name b) \<and>
     get_string T pt ''cmd'' = Inr (join_by CHR '' '' (bench_args b)) \<and>
     bench_args b \<noteq> [] \<and> (\<forall>arg \<in> set (bench_args b). CHR '' '' \<notin> set arg)"

lemma bench_of_reads:
  assumes "splits_documented T" and "good_bench T pt"
  shows "reads_entry T pt ((bench_of T pt)\<lparr>bench_id := n\<rparr>)"
  using assms(2) parse_cmd_splits [OF assms(1)] by (auto simp: good_bench_def bench_of_def reads_entry_def)

section \<open>Properties\<close>

text \<open>
  C26. The configuration is in the manager.  Let the monitor of a manager have been created and let there be
  a list of fewer than \<open>2^32\<close> benchmarks.  If all of them have a name and a command, the constructor returns and
  leaves as many benchmarks as there are entries, in their order, with the numbers from 0 on, and with what is
  in the entries: the name, and arguments that contain no space and joined by single spaces are the
  command again; two spaces in a row therefore make an empty argument.  There is an empty slot for the process of each.
  If not, the exception of the first entry that lacks one of the two leaves the constructor, after the
  monitor has been destroyed.
\<close>

theorem configuration_recovered:
  assumes "splits_documented T" and "exec_manager_new T F properties (s, t) = (Inr (), (s1, t1))"
    and "get_child T properties ''exec_manager.benchmarks'' = Inr pt" and "length (children T pt) < 2 ^ 32"
  shows "((\<forall>x \<in> set (children T pt). good_bench T (snd x)) \<longrightarrow>
      (\<exists>s'. simple_manager_new T F properties (s, t) = (Inr (), (s', t1)) \<and>
        exec_monitor s' = exec_monitor s1 \<and> execution_ended s' = execution_ended s1 \<and>
        length (benchs s') = length (children T pt) \<and> processes s' = replicate (length (children T pt)) None \<and>
        (\<forall>i < length (children T pt). unat (bench_id (benchs s' ! i)) = i \<and>
          reads_entry T (snd (children T pt ! i)) (benchs s' ! i)))) \<and>
    (\<forall>xs y ys. children T pt = xs @ y # ys \<and> (\<forall>x \<in> set xs. good_bench T (snd x)) \<and> \<not> good_bench T (snd y) \<longrightarrow>
      (\<exists>e. parse T (snd y) (s1, t1) = (Inl (Raise e), (s1, t1)) \<and>
        simple_manager_new T F properties (s, t) = act_bind exec_manager_delete (\<lambda>_. raise e) (s1, t1)))"
proof (intro conjI impI allI)
  let ?n = "length (children T pt)" and ?bs = "map (bench_of T \<circ> snd) (children T pt)"
  assume good: "\<forall>x \<in> set (children T pt). good_bench T (snd x)"
  let ?s' = "s1\<lparr>benchs := number_from 0 ?bs, processes := replicate ?n None, world := process_monitor_new []\<rparr>"
  have "parse_vector T pt (s1, t1) = (Inr ?bs, (s1, t1))" using parse_vector_order [OF good, of pt "(s1, t1)"] by simp
  then have "simple_manager_new T F properties (s, t) = (Inr (), (?s', t1))"
    using assms(2,3) by (simp add: simple_manager_new_def lift_get_def unwinding_def act_simps)
  moreover have "unat (bench_id (number_from 0 ?bs ! i)) = i \<and> reads_entry T (snd (children T pt ! i)) (number_from 0 ?bs ! i)"
    if "i < ?n" for i
  proof -
    have "number_from 0 ?bs ! i = (bench_of T (snd (children T pt ! i)))\<lparr>bench_id := word_of_nat i\<rparr>"
      using that assms(4) by (subst number_from_map) simp_all
    moreover have "unat (word_of_nat i :: 32 word) = i" using that assms(4) by (simp add: unat_of_nat take_bit_nat_eq_self)
    moreover have "good_bench T (snd (children T pt ! i))" using good that by simp
    ultimately show ?thesis using bench_of_reads [OF assms(1)] by simp
  qed
  ultimately show "\<exists>s'. simple_manager_new T F properties (s, t) = (Inr (), (s', t1)) \<and>
      exec_monitor s' = exec_monitor s1 \<and> execution_ended s' = execution_ended s1 \<and>
      length (benchs s') = ?n \<and> processes s' = replicate ?n None \<and>
      (\<forall>i < ?n. unat (bench_id (benchs s' ! i)) = i \<and> reads_entry T (snd (children T pt ! i)) (benchs s' ! i))"
    by (intro exI [of _ ?s']) (simp add: number_from_length)
next
  fix xs y ys
  assume bad: "children T pt = xs @ y # ys \<and> (\<forall>x \<in> set xs. good_bench T (snd x)) \<and> \<not> good_bench T (snd y)"
  with parse_vector_order [of xs T pt "(s1, t1)"] obtain e where
    e: "parse_vector T pt (s1, t1) = (Inl (Raise e), (s1, t1))" "parse T (snd y) (s1, t1) = (Inl (Raise e), (s1, t1))"
    by blast
  then have "simple_manager_new T F properties (s, t) = act_bind exec_manager_delete (\<lambda>_. raise e) (s1, t1)"
    using assms(2,3) by (simp add: simple_manager_new_def lift_get_def unwinding_def act_simps split: prod.split sum.split)
  with e(2) show "\<exists>e. parse T (snd y) (s1, t1) = (Inl (Raise e), (s1, t1)) \<and>
      simple_manager_new T F properties (s, t) = act_bind exec_manager_delete (\<lambda>_. raise e) (s1, t1)" by blast
qed

text \<open>Two benchmarks, the command of the second with two spaces in a row.\<close>

definition two_spaces :: tree where
  "two_spaces = Node
     [([], Node [(''name'', Leaf ''first''), (''cmd'', Leaf ''/bin/true'')]),
      ([], Node [(''name'', Leaf ''second''), (''cmd'', Leaf ''env  x'')])]"

definition spaces_config :: tree where
  "spaces_config = Node [(''exec_monitor.type'', Leaf ''simple''), (''exec_manager.benchmarks'', two_spaces)]"

theorem configuration_recovered_witness:
  "\<exists>s' t1. simple_manager_new tree_ops (factory_of (monitor_registars good_platform tree_ops zero_count)) spaces_config
      (raw_manager, []) = (Inr (), (s', t1)) \<and> map (unat \<circ> bench_id) (benchs s') = [0, 1] \<and>
    map (join_by CHR '' '' \<circ> bench_args) (benchs s') = [''/bin/true'', ''env  x'']"
proof -
  let ?F = "factory_of (monitor_registars good_platform tree_ops zero_count)"
  have "fst (exec_manager_new tree_ops ?F spaces_config (raw_manager, [])) = Inr ()" by code_simp
  then obtain s1 t1 where new: "exec_manager_new tree_ops ?F spaces_config (raw_manager, []) = (Inr (), (s1, t1))"
    by (metis prod.collapse)
  have "get_child tree_ops spaces_config ''exec_manager.benchmarks'' = Inr two_spaces"
    by (simp add: tree_ops_def spaces_config_def)
  moreover have n: "length (children tree_ops two_spaces) = 2" "\<forall>x \<in> set (children tree_ops two_spaces). good_bench tree_ops (snd x)"
    by (simp_all add: tree_ops_def two_spaces_def good_bench_def)
  ultimately obtain s' where s': "simple_manager_new tree_ops ?F spaces_config (raw_manager, []) = (Inr (), (s', t1))"
      "length (benchs s') = 2"
      "\<forall>i < 2. unat (bench_id (benchs s' ! i)) = i \<and> reads_entry tree_ops (snd (children tree_ops two_spaces ! i)) (benchs s' ! i)"
    using configuration_recovered [OF tree_ops_split new, of two_spaces] by auto
  from s'(2) obtain a b where ab: "benchs s' = [a, b]" by (auto simp: numeral_2_eq_2 length_Suc_conv)
  from s'(3) [rule_format, of 0] s'(3) [rule_format, of 1]
  have "unat (bench_id a) = 0" "unat (bench_id b) = 1" "join_by CHR '' '' (bench_args a) = ''/bin/true''"
    "join_by CHR '' '' (bench_args b) = ''env  x''"
    by (simp_all add: ab reads_entry_def tree_ops_def two_spaces_def)
  with s'(1) ab show ?thesis by (intro exI [of _ s'] exI [of _ t1]) simp
qed

end
