(* ===== verification/Spec2Isabelle.thy ===== *)
theory Spec2Isabelle
  imports Handshake Queue_Threads Thread_Sync Timer Factory Benchmark Simple_Monitor Hopper_Spec
    Process_Reports Kill_Race Manager_Descriptors Manager_Returns Manager_Rejects Manager_Configured
begin

text \<open>
  \<^bold>\<open>ASER\<close> starts the benchmarks of a configuration, lets an execution monitor watch them, and when the
  first one ends it kills the others.  This development models its code under \<open>src/src\<close>.

  \<^bold>\<open>How code is modelled.\<close>  A C++ function is an action, a function from a state and a log of the system
  calls made so far to an outcome, a new state and a longer log (\<open>act\<close> in \<open>Prelude\<close>, \<open>sys\<close> in
  \<open>Platform\<close>).  The state is a record with the data members of the object.  The outcome is a value
  or a \<open>stop\<close>: an exception, a failed assert (the program is built with asserts),
  \<open>std::terminate\<close>, \<open>exit\<close>, a successful \<open>exec\<close>, or \<open>Blocked\<close>, which says that a schedule given to the
  model has been used up while somebody was still waiting.  Destructors that run during unwinding are
  written out with \<open>unwinding\<close> and \<open>scoped\<close>; an implementation may skip them before
  \<open>std::terminate\<close>, the model does not.  The kernel is the field \<open>answer\<close> of \<open>platform\<close>: it
  may reply to a call as it likes, depending on everything asked before.  Boost.Property_tree and
  \<open>boost::split\<close> are the fields of \<open>ptree_ops\<close>; of the latter \<open>splits_documented\<close> says what a separator
  and what any other character does, and what Boost.Program_options and the JSON reader
  deliver are arguments of \<open>aser_main\<close>.  Machine integers are words; the counters of \<open>perf\<close> are
  \<open>64 word\<close>, their differences wrap, and \<open>double\<close> is modelled by rounding to 53 bits (\<open>Double\<close>).
  Virtual functions and template parameters are records of actions.

  \<^bold>\<open>Parts and theories.\<close>
  \<^item> \<open>Prelude\<close>, \<open>Std_Map\<close>, \<open>Platform\<close>, \<open>Property_Tree\<close>, \<open>Double\<close>: actions and the relations they
    abide by (\<open>keeps\<close>, \<open>emits\<close>, \<open>maintains\<close>, \<open>outcomes\<close>), members of objects (\<open>lens\<close>), step relations
    and mutexes; \<open>std::map\<close>; the interface to the kernel (\<open>util/libc_wrapper\<close>); the libraries.
  \<^item> \<open>Os\<close> (\<open>util/os\<close>, both systems), \<open>Pipe\<close>, \<open>Process\<close>, \<open>Sync_Process\<close> (\<open>util/process\<close>, \<open>util/kill\<close>):
    one theory per class.  \<open>Handshake\<close> runs the two sides of \<open>sync_process\<close> against each other over
    the two pipes; \<open>scripts_are_the_code\<close> ties its scripts to the operations.  \<open>Kill_Race\<close> lets
    \<open>process::wait\<close> and \<open>kill_process\<close> run at the same time on one object.
  \<^item> \<open>Concurrent_Queue\<close>, \<open>Queue_Threads\<close> (\<open>util/concurrent_queue\<close>), \<open>Thread_Sync\<close> (\<open>util/thread\<close>),
    \<open>Timer\<close> (\<open>util/timer\<close>): operations, and step relations for the threads inside them.
  \<^item> \<open>Factory\<close> (\<open>util/factory\<close>), \<open>Benchmark\<close> (\<open>core/benchmark\<close>, \<open>util/parse\<close>).
  \<^item> \<open>Exec_Monitor\<close> (\<open>core/exec_event\<close>, \<open>core/exec_monitor\<close>): the base class, its thread with the guard of
    its loop (\<open>monitor_run\<close>), and the contracts \<open>monitor_impl\<close> and \<open>monitor_total\<close> for derived classes, which are \<open>Simple_Monitor\<close>,
    \<open>Cpu_Hopper\<close> and \<open>Pmc_Sampler\<close> (\<open>exec_monitor/\<close>).  \<open>Hopper_Spec\<close> says what the hopper promises
    without its vector of flags, over a map from processes to CPUs and a set of CPUs whose owner was forgotten
    (a process that was reported twice), and that the code refines it.
  \<^item> \<open>Perf_Event\<close>, \<open>Perf_Backends\<close>, \<open>Event_Manager\<close> (\<open>perf/\<close>): the event template over its back end, the
    Linux and the dummy back end, and the manager of a list of events.
  \<^item> \<open>Process_Monitor\<close>, \<open>Process_Sessions\<close> (\<open>core/process_monitor\<close>): one asynchronous task per process,
    under any schedule; \<open>waitable\<close> is the contract for the class of processes.  \<open>Process_Reports\<close> follows
    clients that add the same pid again, before its status has been collected, which is refused, or after.
  \<^item> \<open>Exec_Manager\<close> (\<open>core/exec_manager\<close>, and the registrations of the monitors), \<open>Simple_Manager\<close>
    (\<open>exec_manager/simple\<close>, \<open>main\<close>); proofs in \<open>Manager_Runs\<close> (preparing), \<open>Manager_Order\<close> (the
    order of calls, a run of \<open>main\<close>), \<open>Manager_Reaps\<close> (what becomes of the processes),
    \<open>Manager_Prepared\<close> and \<open>Manager_Returns\<close> (runs that come to their end, or never do),
    \<open>Manager_Rejects\<close> (configurations that are refused) and \<open>Manager_Configured\<close> (what the constructor reads
    from those that are not).  \<open>Lasting_Monitors\<close> extends the contract of the
    monitors by their life before and after the loop, and says which configurations deliver one that
    keeps it.  \<open>Frugal_Monitors\<close> keeps a ledger of the descriptors the system hands out, the program
    holds and the program closes, and has the contract \<open>frugal_monitor\<close> of monitors whose books balance;
    \<open>Manager_Descriptors\<close> balances those of the manager.

  \<^bold>\<open>How they interact.\<close>  \<open>main\<close> creates a manager by name; its constructor creates a monitor by name
  and parses the benchmarks.  \<open>start\<close> prepares a \<open>sync_process\<close> per benchmark and enqueues an event for
  the monitor, hands the processes to a \<open>process_monitor\<close>, starts the commands and the thread of the
  monitor, waits for the first process to end, sets the flag that ends the loop of the thread, joins it, kills all others, and finally the
  destructor of the \<open>process_monitor\<close> waits for the remaining tasks.  The process objects are
  shared between manager and tasks; they are cells of a heap (\<open>shared\<close>) and pointers are indices.

  \<^bold>\<open>What is shown.\<close>
  \<^item> The program as a whole: \<open>main_forks_then_starts\<close>, \<open>benchmarks_prepared\<close>,
    \<open>simple_manager_reaps\<close>, \<open>registered_monitors_quiet\<close>.  \<open>main_returns\<close> is its total correctness: on a
    kernel on which no call of the manager but \<open>kill\<close> fails (\<open>cooperative\<close>), for a configuration as it should be
    (\<open>good_config\<close>) and tasks that get their turns (\<open>enough_turns\<close>), \<open>main\<close> returns and everybody has
    been waited for.  \<open>main_closes_descriptors\<close>: whenever \<open>main\<close> returns, every descriptor has been closed
    as often as it was handed out.  \<open>main_rejects\<close> is its behaviour on all configurations that cannot be used, and
    \<open>no_benchmarks_hang\<close> on an empty list of benchmarks.
  \<^item> The handshake between parent and child: safety, termination, refinement, and what the child does when the
    parent dies (\<open>crash_starts_command\<close>).
  \<^item> Waiting: every status that is reported is the next one \<open>waitpid\<close> has delivered, nobody is waited for twice,
    when \<open>wait_for_any\<close> returns and when it cannot.
    Killing: never after the reap has been recorded; \<open>kill_race_logs\<close> shows what can happen before.
  \<^item> Descriptors of pipes, processes, event managers and samplers are closed exactly once, also when
    constructors fail half way.
  \<^item> Threads: the queue is linearizable and loses no wakeup; conditions and timers do what they say.
  \<^item> Monitors: events are handled in order; CPUs are not shared and given out as \<open>hopper_refines\<close> says; samples cover everything once and are
    accurate.
  \<^item> Factory and parsing: order of registration, duplicates; \<open>configuration_recovered\<close>: which benchmarks the
    manager has, in which order, under which numbers and with which command lines.

  \<^bold>\<open>Schedules, bounds and fuel.\<close>  No recursion needs fuel.  Loops that wait take a finite schedule as
  argument: a list of turns for \<open>await\<close>, one list of arriving events per \<open>pop\<close> for the thread of a
  monitor, with one entry per turn of its loop.  Safety is proved for every schedule, and
  progress for every schedule with enough turns: two for each task (one for \<open>waitpid\<close>, one to make the
  future ready) and one or two for the waiting client.  In \<open>main_returns\<close> the schedule of \<open>wait_for_any\<close> is
  \<open>map Task order @ [Client, Client]\<close>, where one task has two turns and the others none or at least two,
  and that of the destructor \<open>map Task order' @ replicate n Client\<close>, where each has two.  A task's
  wait and the push after it are one turn, since nobody else waits for the same process.  The turns of the
  monitor's thread come right after \<open>wait_for_any\<close> (\<open>let_monitor_run\<close>), before the flag is set: its loop
  goes round only while the flag is down, and \<open>join\<close> returns only once it is up and is \<open>Blocked\<close>
  otherwise, so that \<open>main_returns\<close> depends on \<open>execution_end\<close> preceding \<open>stop_exec_monitor\<close>.  The thread
  shares only the queue and the flag with the others, and in the log its calls, which are none of those the manager
  makes (\<open>registered_monitors_quiet\<close>), come at that point; if \<open>wait_for_any\<close> does not return, they are
  left out.  The step relations for the
  queue, the condition and the timer have any number of threads and any interleaving, at the granularity
  of the operations on mutex and condition variable.  Benchmarks are numbered by \<open>unsigned\<close>, so
  \<open>simple_manager_reaps\<close> asks for fewer than \<open>2^32\<close> of them.

  \<^bold>\<open>Not modelled.\<close>  \<open>util/log\<close> and the output of monitors to standard output, which the program does not
  read back, and the usage text of \<open>main\<close>; the declarations in headers that only name
  functions; tests and build files.  The memory model of C++ is sequentially consistent here, for the data
  race on \<open>terminated_\<close> between a task and \<open>kill_process\<close> as well, whose steps \<open>Kill_Race\<close> interleaves; in a run
  of the whole program a task's wait is one turn.  In a run of the manager the parent's
  side of each fork is followed; the child's side is \<open>sync_prepare_child\<close> and
  \<open>Handshake\<close>.
\<close>

end
